(* ===== verification/Ccf_Prelude.thy ===== *)
theory Ccf_Prelude
  imports Main "HOL-Library.Word"
begin

text \<open>
  Shared vocabulary of the development: the integer types of \<open>include/cocoflow.h\<close>, the faults
  a C++ execution can run into (a failed \<open>CHECK\<close>, a fatal error, a call through a null
  pointer, an access outside an array), the sequencing of fallible operations, and the generic
  facts on lists and words the component theories rest on.
\<close>

unbundle bit_operations_syntax

section \<open>Integer types\<close>

type_synonym u8 = "8 word"
type_synonym u16 = "16 word"
type_synonym u32 = "32 word"
type_synonym u64 = "64 word"
type_synonym i32 = "32 word"

text \<open>\<open>size_t\<close> on the 64-bit targets the makefiles build for.\<close>

type_synonym size_t = "64 word"

text \<open>A task object is named by its address.\<close>

type_synonym tid = nat

text \<open>The index of a coroutine in \<open>global_running_manager\<close>.\<close>

type_synonym uid = u32

section \<open>Collections of facts\<close>

named_theorems task_info_simps \<open>reading a byte of task flags after writing it\<close>
named_theorems pool_simps \<open>the fields of an id pool after an operation\<close>
named_theorems sched_simps \<open>one step of the scheduler, by frame\<close>
named_theorems stream_simps \<open>the bytes of a stream after an operation\<close>

section \<open>Faults\<close>

text \<open>
  Everything after which the C++ program does not continue normally. \<open>Check_failed\<close> is the
  \<open>CHECK\<close> macro (print and \<open>abort\<close>), \<open>Fatal\<close> the \<open>FATAL_ERROR\<close> macros, and the
  others are undefined behaviour of the language: a dereference of \<open>NULL\<close>, an access outside
  an array, a use of an object after it was freed or a second \<open>uv_close\<close> of a handle.
  \<open>Diverges\<close> is a loop that never ends.
\<close>

datatype fault =
    Check_failed
  | Fatal string
  | Null_pointer
  | Out_of_bounds
  | Use_after_free
  | Double_close
  | Diverges

type_synonym 'a res = "fault + 'a"

definition res_bind :: "'a res \<Rightarrow> ('a \<Rightarrow> 'b res) \<Rightarrow> 'b res" where
  "res_bind r f = (case r of Inl e \<Rightarrow> Inl e | Inr x \<Rightarrow> f x)"

lemma res_bind_simps [simp]:
  "res_bind (Inl e) f = Inl e"
  "res_bind (Inr x) f = f x"
  by (simp_all add: res_bind_def)

lemma res_bind_eq_Inr: "res_bind r f = Inr y \<longleftrightarrow> (\<exists>x. r = Inr x \<and> f x = Inr y)"
  by (cases r) auto

lemma res_bind_assoc: "res_bind (res_bind r f) g = res_bind r (\<lambda>x. res_bind (f x) g)"
  by (cases r) auto

text \<open>\<open>CHECK(x)\<close> of \<open>cocoflow-comm.h\<close>: abort unless the condition holds.\<close>

definition check :: "bool \<Rightarrow> 'a res \<Rightarrow> 'a res" where
  "check b k = (if b then k else Inl Check_failed)"

lemma check_True [simp]: "check True k = k"
  by (simp add: check_def)

lemma check_False [simp]: "check False k = Inl Check_failed"
  by (simp add: check_def)

lemma check_eq_Inr: "check b k = Inr y \<longleftrightarrow> b \<and> k = Inr y"
  by (simp add: check_def)

text \<open>\<open>memcpy\<close> into a buffer: \<open>xs\<close> is written over \<open>buf\<close> from offset \<open>at\<close> on.\<close>

definition blit :: "'a list \<Rightarrow> nat \<Rightarrow> 'a list \<Rightarrow> 'a list" where
  "blit buf at xs = take at buf @ xs @ drop (at + length xs) buf"

lemma length_blit [simp]: "at + length xs \<le> length buf \<Longrightarrow> length (blit buf at xs) = length buf"
  by (simp add: blit_def)

lemma blit_Nil [simp]: "blit buf at [] = buf"
  by (simp add: blit_def)

lemma take_blit:
  "at + length xs \<le> length buf \<Longrightarrow> take (at + length xs) (blit buf at xs) = take at buf @ xs"
  by (simp add: blit_def)

lemma blit_blit:
  "at + length x + length y \<le> length b \<Longrightarrow> blit (blit b at x) (at + length x) y = blit b at (x @ y)"
  by (simp add: blit_def add.commute add.left_commute)

lemma take_blit_below: "n \<le> at \<Longrightarrow> at \<le> length buf \<Longrightarrow> take n (blit buf at xs) = take n buf"
  by (simp add: blit_def min_def)

section \<open>Lists\<close>

lemma distinct_drop_nth:
  assumes "distinct (drop k xs)" "k < length xs"
  shows "xs ! k \<notin> set (drop (Suc k) xs)"
  using assms by (metis Cons_nth_drop_Suc distinct.simps(2))

lemma drop_update_prev:
  assumes "0 < k" "k \<le> length xs"
  shows "drop (k - 1) (xs[k - 1 := v]) = v # drop k xs"
proof -
  have k: "k - 1 < length xs" "Suc (k - 1) = k"
    using assms by auto
  show ?thesis
    using k Cons_nth_drop_Suc [of "k - 1" "xs[k - 1 := v]"] by simp
qed

lemma sum_list_take_le:
  fixes xs :: "nat list"
  shows "sum_list (take k xs) \<le> sum_list xs"
  by (metis append_take_drop_id le_add1 sum_list_append)

lemma sum_list_take_Suc_le:
  fixes xs :: "nat list"
  assumes "i < j" "j \<le> length xs"
  shows "sum_list (take i xs) + xs ! i \<le> sum_list (take j xs)"
proof -
  have "sum_list (take (Suc i) xs) = sum_list (take i xs) + xs ! i"
    using assms by (simp add: take_Suc_conv_app_nth)
  moreover have "take (Suc i) (take j xs) = take (Suc i) xs"
    using assms by (simp add: min_def)
  ultimately show ?thesis
    by (metis sum_list_take_le)
qed

lemma set_minus_butlast: "distinct xs \<Longrightarrow> xs \<noteq> [] \<Longrightarrow> set xs - set (butlast xs) = {last xs}"
  by (cases xs rule: rev_cases) auto

lemma replicate_num: "replicate (numeral k) x = x # replicate (pred_numeral k) x"
  by (simp only: numeral_eq_Suc replicate_Suc)

section \<open>Words\<close>

lemma unat_of_nat_u32 [simp]: "n < 2 ^ 32 \<Longrightarrow> unat (of_nat n :: u32) = n"
  by (simp add: unat_of_nat)

lemma unat_of_nat_u64 [simp]: "n < 2 ^ 64 \<Longrightarrow> unat (of_nat n :: u64) = n"
  by (simp add: unat_of_nat)

lemma of_nat_u32_inj: "a < 2 ^ 32 \<Longrightarrow> b < 2 ^ 32 \<Longrightarrow> (of_nat a :: u32) = of_nat b \<longleftrightarrow> a = b"
  by (metis unat_of_nat_u32)

lemma unat_ucast_u32_u64 [simp]: "unat (ucast (w :: u32) :: u64) = unat w"
proof -
  have "unat w < 2 ^ 32"
    using unsigned_less [of w] by simp
  then show ?thesis
    by (simp add: unsigned_ucast_eq take_bit_nat_eq_self)
qed

end
