(* ===== verification/Task_Info.thy ===== *)
theory Task_Info
  imports Ccf_Prelude
begin

text \<open>
  The byte \<open>_info\<close> every task carries: its status in the low four bits, the flags
  \<open>uninterruptable\<close> and \<open>all_any\<close> in the high four (\<open>task_status\<close> in
  \<open>include/cocoflow.h\<close>, the macros of \<open>src/cocoflow-comm.h\<close>).
\<close>

section \<open>Definitions\<close>

datatype task_status =
    bug
  | ready
  | running
  | completed
  | canceled
  | limited
  | child_unready

text \<open>The value C++ gives each enumerator.\<close>

primrec status_code :: "task_status \<Rightarrow> u8" where
  "status_code bug = 0"
| "status_code ready = 1"
| "status_code running = 2"
| "status_code completed = 3"
| "status_code canceled = 4"
| "status_code limited = 5"
| "status_code child_unready = 6"

definition task_set_status :: "u8 \<Rightarrow> task_status \<Rightarrow> u8" where
  "task_set_status info st = (info AND 0xf0) OR status_code st"

definition task_get_status :: "u8 \<Rightarrow> u8" where
  "task_get_status info = info AND 0x0f"

definition task_info_uninterruptable :: u8 where
  "task_info_uninterruptable = 0x10"

definition task_info_all_any :: u8 where
  "task_info_all_any = 0x20"

definition task_set_uninterruptable :: "u8 \<Rightarrow> u8" where
  "task_set_uninterruptable info = info OR task_info_uninterruptable"

definition task_is_uninterruptable :: "u8 \<Rightarrow> bool" where
  "task_is_uninterruptable info \<longleftrightarrow> info AND task_info_uninterruptable \<noteq> 0"

definition task_set_all_any :: "u8 \<Rightarrow> u8" where
  "task_set_all_any info = info OR task_info_all_any"

definition task_is_all_any :: "u8 \<Rightarrow> bool" where
  "task_is_all_any info \<longleftrightarrow> info AND task_info_all_any \<noteq> 0"

text \<open>\<open>task::status()\<close>: the cast of the low nibble to the enumeration.\<close>

definition status_of_code :: "u8 \<Rightarrow> task_status option" where
  "status_of_code c =
     (if c = 0 then Some bug else if c = 1 then Some ready else if c = 2 then Some running
      else if c = 3 then Some completed else if c = 4 then Some canceled
      else if c = 5 then Some limited else if c = 6 then Some child_unready else None)"

definition status :: "u8 \<Rightarrow> task_status option" where
  "status info = status_of_code (info AND 0x0f)"

abbreviation has_status :: "u8 \<Rightarrow> task_status \<Rightarrow> bool" where
  "has_status info st \<equiv> task_get_status info = status_code st"

section \<open>Reading after writing\<close>

lemma status_code_low: "status_code st AND 0x0f = status_code st"
  by (cases st) simp_all

lemma status_code_high: "status_code st AND 0xf0 = 0"
  by (cases st) simp_all

lemma status_code_inj [simp]: "status_code a = status_code b \<longleftrightarrow> a = b"
  by (cases a; cases b) simp_all

lemma status_of_code_code [simp]: "status_of_code (status_code st) = Some st"
  by (cases st) (simp_all add: status_of_code_def)

lemma get_set_status [simp, task_info_simps]:
  "task_get_status (task_set_status info st) = status_code st"
proof -
  have "(info AND 0xf0) AND 0x0f = (0 :: u8)"
    by (simp add: and.assoc)
  then show ?thesis
    by (simp add: task_get_status_def task_set_status_def bit.conj_disj_distrib2
        status_code_low)
qed

lemma status_set_status [simp, task_info_simps]:
  "status (task_set_status info st) = Some st"
  using get_set_status [of info st] by (simp add: status_def task_get_status_def)

lemma status_eq_Some: "status info = Some st \<longleftrightarrow> has_status info st"
  unfolding status_def task_get_status_def status_of_code_def
  by (cases st) auto

lemma status_code_flag_bits:
  "status_code st AND 0x10 = 0" "status_code st AND 0x20 = 0"
  by (cases st; simp)+

lemma uninterruptable_set_status [simp, task_info_simps]:
  "task_is_uninterruptable (task_set_status info st) = task_is_uninterruptable info"
  by (simp add: task_is_uninterruptable_def task_set_status_def task_info_uninterruptable_def
      bit.conj_disj_distrib2 status_code_flag_bits and.assoc)

lemma all_any_set_status [simp, task_info_simps]:
  "task_is_all_any (task_set_status info st) = task_is_all_any info"
  by (simp add: task_is_all_any_def task_set_status_def task_info_all_any_def
      bit.conj_disj_distrib2 status_code_flag_bits and.assoc)

lemma get_status_set_uninterruptable [simp, task_info_simps]:
  "task_get_status (task_set_uninterruptable info) = task_get_status info"
  by (simp add: task_get_status_def task_set_uninterruptable_def task_info_uninterruptable_def
      bit.conj_disj_distrib2)

lemma get_status_set_all_any [simp, task_info_simps]:
  "task_get_status (task_set_all_any info) = task_get_status info"
  by (simp add: task_get_status_def task_set_all_any_def task_info_all_any_def
      bit.conj_disj_distrib2)

lemma is_uninterruptable_set [simp, task_info_simps]:
  "task_is_uninterruptable (task_set_uninterruptable info)"
  by (simp add: task_is_uninterruptable_def task_set_uninterruptable_def
      task_info_uninterruptable_def bit.conj_disj_distrib2)

lemma is_all_any_set [simp, task_info_simps]:
  "task_is_all_any (task_set_all_any info)"
  by (simp add: task_is_all_any_def task_set_all_any_def task_info_all_any_def
      bit.conj_disj_distrib2)

lemma is_uninterruptable_set_all_any [simp, task_info_simps]:
  "task_is_uninterruptable (task_set_all_any info) = task_is_uninterruptable info"
  by (simp add: task_is_uninterruptable_def task_set_all_any_def task_info_all_any_def
      task_info_uninterruptable_def bit.conj_disj_distrib2)

lemma is_all_any_set_uninterruptable [simp, task_info_simps]:
  "task_is_all_any (task_set_uninterruptable info) = task_is_all_any info"
  by (simp add: task_is_all_any_def task_set_uninterruptable_def task_info_all_any_def
      task_info_uninterruptable_def bit.conj_disj_distrib2)

section \<open>Sequences of updates\<close>

text \<open>
  The three updates the library performs on the byte, in any order: what is read at the end is
  the last status written and every flag ever set.
\<close>

datatype info_op = Set_status task_status | Set_uninterruptable | Set_all_any

primrec info_step :: "info_op \<Rightarrow> u8 \<Rightarrow> u8" where
  "info_step (Set_status st) info = task_set_status info st"
| "info_step Set_uninterruptable info = task_set_uninterruptable info"
| "info_step Set_all_any info = task_set_all_any info"

fun last_status :: "task_status option \<Rightarrow> info_op list \<Rightarrow> task_status option" where
  "last_status s [] = s"
| "last_status s (Set_status st # ops) = last_status (Some st) ops"
| "last_status s (_ # ops) = last_status s ops"

lemma status_set_flags [simp, task_info_simps]:
  "status (task_set_uninterruptable info) = status info"
  "status (task_set_all_any info) = status info"
  using get_status_set_uninterruptable [of info] get_status_set_all_any [of info]
  by (simp_all add: status_def task_get_status_def)

lemma status_info_step [simp]:
  "status (info_step op info) = last_status (status info) [op]"
  by (cases op) simp_all

lemma last_status_Cons: "last_status s (op # ops) = last_status (last_status s [op]) ops"
  by (cases op) simp_all

text \<open>
  C9: whatever sequence of status changes, \<open>uninterruptable()\<close> calls and \<open>all_any\<close>
  marks a task's byte goes through, the status read back is the last one set, and each flag is
  read back exactly when it was set before or by the sequence: the three components share a byte
  and never disturb each other.
\<close>

theorem info_byte_refines_fields:
  "status (fold info_step ops info) = last_status (status info) ops \<and>
   task_is_uninterruptable (fold info_step ops info) =
     (task_is_uninterruptable info \<or> Set_uninterruptable \<in> set ops) \<and>
   task_is_all_any (fold info_step ops info) =
     (task_is_all_any info \<or> Set_all_any \<in> set ops)"
proof (induction ops arbitrary: info)
  case Nil
  then show ?case by simp
next
  case (Cons op ops)
  show ?case
    by (subst last_status_Cons, cases op) (simp_all add: Cons.IH)
qed

end
