(* ===== verification/Task_Pool.thy ===== *)
theory Task_Pool
  imports Task_Info
begin

text \<open>
  The pools of coroutine ids: the static members of each class \<open>task<UserPages,
  ProtectPages>\<close>, \<open>task::init\<close>, the constructor and destructor, and the id handling of
  the template \<open>await\<close> (\<open>include/cocoflow.h\<close>); \<open>__init_setting\<close> and \<open>__init\<close>
  (\<open>src/cocoflow.cc\<close>), which number the coroutines and lay out their stacks.
\<close>

section \<open>State\<close>

definition EVENT_LOOP_ID :: uid where
  "EVENT_LOOP_ID = 0xffffffff"

definition PAGE_SIZE :: size_t where
  "PAGE_SIZE = 4096"

definition RESV_MAP_COUNT :: int where
  "RESV_MAP_COUNT = 5530"

record setting =
  stack_size :: u32
  protect_size :: u32
  max_task_num :: u32

text \<open>
  The static members of one class \<open>task<UserPages, ProtectPages>\<close>. The free list is the array
  \<open>new uint32[max_task_num]\<close>; \<open>free_list_front\<close> is the index the pointer of that name has
  reached, and \<open>free_list_end\<close> is the length of the array.
\<close>

record tpl =
  user_pages :: u32
  protect_pages :: u32
  free_list :: "uid list"
  free_list_front :: nat
  initialized :: bool

text \<open>
  The globals of \<open>cocoflow.cc\<close>. A coroutine of \<open>global_running_manager\<close> is given by the
  address and the size of its stack.
\<close>

record globals =
  global_initialized :: bool
  global_task_manager :: "tid option list"
  global_running_manager :: "(nat \<times> u32) list"
  setting_list :: "setting list"
  g_max_task_num :: u32
  g_max_stack_size :: size_t
  g_max_map_count :: i32

text \<open>
  What \<open>__init\<close> asks of the operating system: \<open>_sysctl\<close> for the limit on memory mappings (which may
  fail), \<open>mmap\<close>, \<open>mprotect\<close> and \<open>getcontext\<close>.
\<close>

record os =
  os_sysctl :: "i32 option"
  os_mmap :: "size_t \<Rightarrow> nat"
  os_mprotect :: "nat \<Rightarrow> u32 \<Rightarrow> bool"
  os_getcontext :: "uid \<Rightarrow> bool"

section \<open>Initialization\<close>

definition STACK_SIZE :: "tpl \<Rightarrow> size_t" where
  "STACK_SIZE t = ucast (user_pages t + protect_pages t) * PAGE_SIZE"

definition PROTECT_SIZE :: "tpl \<Rightarrow> size_t" where
  "PROTECT_SIZE t = ucast (protect_pages t) * PAGE_SIZE"

text \<open>The loop that numbers a new free list from the running total on.\<close>

definition fill_free_list :: "u32 \<Rightarrow> u32 \<Rightarrow> uid list" where
  "fill_free_list start num = map (\<lambda>i. start + of_nat i) [0..<unat num]"

definition init_setting :: "globals \<Rightarrow> tpl \<Rightarrow> u32 \<Rightarrow> u32 \<Rightarrow> u32 \<Rightarrow> tpl \<times> globals" where
  "init_setting g t stack protect num =
     (t\<lparr>free_list := fill_free_list (g_max_task_num g) num, free_list_front := 0\<rparr>,
      g\<lparr>g_max_task_num := g_max_task_num g + num,
        g_max_stack_size := g_max_stack_size g + ucast stack * ucast num,
        setting_list := setting_list g @
          [\<lparr>stack_size = stack, protect_size = protect, max_task_num = num\<rparr>],
        g_max_map_count :=
          (if protect \<noteq> 0 then g_max_map_count g + 2 * num else g_max_map_count g)\<rparr>)"

text \<open>
  \<open>task<UserPages, ProtectPages>::init\<close>. Both guards read the static member
  \<open>initialized\<close> of the class; the sizes are narrowed to \<open>uint32\<close> by the call.
\<close>

definition task_init :: "globals \<Rightarrow> tpl \<Rightarrow> u32 \<Rightarrow> (tpl \<times> globals) res" where
  "task_init g t num =
     (if initialized t then Inl (Fatal ''Initializing task after creating a task'')
      else if initialized t then Inl (Fatal ''Duplicate initializing in task'')
      else if num = 0 then Inl (Fatal ''Illegal number in initializing task'')
      else
        (let (t', g') = init_setting g t (ucast (STACK_SIZE t)) (ucast (PROTECT_SIZE t)) num
         in Inr (t'\<lparr>initialized := True\<rparr>, g')))"

text \<open>
  The two nested loops of \<open>__init\<close>: one coroutine after the other, each on the next
  \<open>stack_size\<close> bytes.
\<close>

fun create_coroutines ::
  "os \<Rightarrow> setting \<Rightarrow> nat \<Rightarrow> uid \<Rightarrow> nat \<Rightarrow> ((nat \<times> u32) list \<times> uid \<times> nat) res" where
  "create_coroutines os s 0 unique_id cur_mem = Inr ([], unique_id, cur_mem)"
| "create_coroutines os s (Suc n) unique_id cur_mem =
     check (protect_size s \<noteq> 0 \<longrightarrow> os_mprotect os cur_mem (protect_size s))
       (check (os_getcontext os unique_id)
         (res_bind (create_coroutines os s n (unique_id + 1) (cur_mem + unat (stack_size s)))
           (\<lambda>(cs, u, m). Inr ((cur_mem, stack_size s) # cs, u, m))))"

fun create_all :: "os \<Rightarrow> setting list \<Rightarrow> uid \<Rightarrow> nat \<Rightarrow> (nat \<times> u32) list res" where
  "create_all os [] unique_id cur_mem = Inr []"
| "create_all os (s # ss) unique_id cur_mem =
     res_bind (create_coroutines os s (unat (max_task_num s)) unique_id cur_mem)
       (\<lambda>(cs, u, m). res_bind (create_all os ss u m) (\<lambda>cs'. Inr (cs @ cs')))"

text \<open>\<open>get_max_map_count\<close> (\<open>src/max_map_count.c\<close>).\<close>

definition get_max_map_count :: "os \<Rightarrow> int" where
  "get_max_map_count os = (case os_sysctl os of None \<Rightarrow> -1 | Some ret \<Rightarrow> sint ret)"

text \<open>\<open>__init\<close>. The stacks are one \<open>mmap\<close>ed block, whose address is compared with \<open>NULL\<close>.\<close>

definition ccf_init :: "os \<Rightarrow> globals \<Rightarrow> globals res" where
  "ccf_init os g =
     (if get_max_map_count os > RESV_MAP_COUNT \<and>
         sint (g_max_map_count g) > get_max_map_count os - RESV_MAP_COUNT
      then Inl (Fatal ''Out of memory (max-map-count)'')
      else
        (let mem = os_mmap os (g_max_stack_size g)
         in if mem = 0 then Inl (Fatal ''Out of memory'')
            else res_bind (create_all os (setting_list g) 0 mem)
              (\<lambda>cs. Inr (g\<lparr>global_initialized := True,
                 global_task_manager := replicate (unat (g_max_task_num g)) None,
                 global_running_manager := cs\<rparr>))))"

section \<open>Taking and giving back an id\<close>

text \<open>\<open>*(free_list_front++)\<close>, with the comparison against \<open>free_list_end\<close> before it.\<close>

definition take_id :: "tpl \<Rightarrow> (uid \<times> tpl) option" where
  "take_id t =
     (if free_list_front t \<noteq> length (free_list t)
      then Some (free_list t ! free_list_front t,
                 t\<lparr>free_list_front := free_list_front t + 1\<rparr>)
      else None)"

text \<open>\<open>*(--free_list_front) = id\<close>: a write below the array when the index is 0.\<close>

definition give_id :: "tpl \<Rightarrow> uid \<Rightarrow> tpl res" where
  "give_id t i =
     (if free_list_front t = 0 then Inl Out_of_bounds
      else Inr (t\<lparr>free_list := (free_list t)[free_list_front t - 1 := i],
                  free_list_front := free_list_front t - 1\<rparr>))"

text \<open>The constructor \<open>task()\<close>: the new object's id and info byte.\<close>

definition task_ctor :: "os \<Rightarrow> globals \<Rightarrow> tpl \<Rightarrow> tid \<Rightarrow> (globals \<times> tpl \<times> uid \<times> u8) res" where
  "task_ctor os g t this =
     res_bind (if global_initialized g then Inr g else ccf_init os g)
       (\<lambda>g. if initialized t then
              (case take_id t of
                 Some (i, t') \<Rightarrow>
                   if unat i < length (global_task_manager g)
                   then Inr (g\<lparr>global_task_manager :=
                               (global_task_manager g)[unat i := Some this]\<rparr>,
                             t', i, task_set_status 0 ready)
                   else Inl Out_of_bounds
               | None \<Rightarrow> Inr (g, t, EVENT_LOOP_ID, task_set_status 0 limited))
            else Inl (Fatal ''Create a task before initializing in task''))"

definition task_dtor :: "tpl \<Rightarrow> uid \<Rightarrow> tpl res" where
  "task_dtor t i = (if i \<noteq> EVENT_LOOP_ID then give_id t i else Inr t)"

text \<open>The id handling of the template \<open>await\<close>, before it calls \<open>__await\<close>.\<close>

definition await_release :: "tpl \<Rightarrow> uid \<Rightarrow> (tpl \<times> uid) res" where
  "await_release t i =
     (if i \<noteq> EVENT_LOOP_ID then res_bind (give_id t i) (\<lambda>t'. Inr (t', EVENT_LOOP_ID))
      else Inr (t, i))"

text \<open>
  What happens to the objects of one class over time: an object is constructed, may be awaited
  (which gives its id back early), and is destroyed. The map holds the field \<open>_unique_id\<close> of
  every live object. A constructor runs on an address that holds no object and the other two on
  an address that does; the language guarantees it, so the other cases change nothing.
\<close>

datatype pool_op = Construct tid | Await_object tid | Destruct tid

fun object_step :: "pool_op \<Rightarrow> tpl \<times> (tid \<rightharpoonup> uid) \<Rightarrow> (tpl \<times> (tid \<rightharpoonup> uid)) res" where
  "object_step (Construct x) (t, m) =
     (case m x of
        Some _ \<Rightarrow> Inr (t, m)
      | None \<Rightarrow>
          (case take_id t of
             Some (i, t') \<Rightarrow> Inr (t', m(x \<mapsto> i))
           | None \<Rightarrow> Inr (t, m(x \<mapsto> EVENT_LOOP_ID))))"
| "object_step (Await_object x) (t, m) =
     (case m x of
        None \<Rightarrow> Inr (t, m)
      | Some i \<Rightarrow> res_bind (await_release t i) (\<lambda>(t', i'). Inr (t', m(x \<mapsto> i'))))"
| "object_step (Destruct x) (t, m) =
     (case m x of
        None \<Rightarrow> Inr (t, m)
      | Some i \<Rightarrow> res_bind (task_dtor t i) (\<lambda>t'. Inr (t', m(x := None))))"

fun object_run :: "pool_op list \<Rightarrow> tpl \<times> (tid \<rightharpoonup> uid) \<Rightarrow> (tpl \<times> (tid \<rightharpoonup> uid)) res" where
  "object_run [] s = Inr s"
| "object_run (op # ops) s = res_bind (object_step op s) (object_run ops)"

text \<open>A program's calls of \<open>task::init\<close>, one per class, in order.\<close>

fun init_all :: "globals \<Rightarrow> (tpl \<times> u32) list \<Rightarrow> (tpl list \<times> globals) res" where
  "init_all g [] = Inr ([], g)"
| "init_all g ((t, num) # ts) =
     res_bind (task_init g t num)
       (\<lambda>(t', g'). res_bind (init_all g' ts) (\<lambda>(ts', g''). Inr (t' # ts', g'')))"

definition free_ids :: "tpl \<Rightarrow> uid list" where
  "free_ids t = drop (free_list_front t) (free_list t)"

section \<open>An allocator of ids, and the objects that hold them\<close>

definition held :: "'i \<Rightarrow> (tid \<rightharpoonup> 'i) \<Rightarrow> 'i set" where
  "held nil m = ran m - {nil}"

definition apart :: "'i \<Rightarrow> (tid \<rightharpoonup> 'i) \<Rightarrow> bool" where
  "apart nil m \<longleftrightarrow> (\<forall>x y i. m x = Some i \<and> m y = Some i \<and> i \<noteq> nil \<longrightarrow> x = y)"

lemma held_empty [simp]: "held nil Map.empty = {}"
  by (simp add: held_def)

lemma apart_empty [simp]: "apart nil Map.empty"
  by (simp add: apart_def)

lemma held_iff: "i \<in> held nil m \<longleftrightarrow> i \<noteq> nil \<and> (\<exists>x. m x = Some i)"
  by (auto simp: held_def ran_def)

lemma held_upd_nil [simp]: "m x = None \<Longrightarrow> held nil (m(x \<mapsto> nil)) = held nil m"
  by (auto simp: held_def)

lemma held_upd: "m x = None \<Longrightarrow> i \<noteq> nil \<Longrightarrow> held nil (m(x \<mapsto> i)) = insert i (held nil m)"
  by (auto simp: held_def)

lemma ran_drop:
  assumes "apart nil m" "m x = Some i" "i \<noteq> nil"
  shows "ran (m(x := None)) = ran m - {i}"
  using assms unfolding ran_def apart_def by (auto; metis option.inject)

lemma held_drop:
  assumes "apart nil m" "m x = Some i" "i \<noteq> nil"
  shows "held nil (m(x := None)) = held nil m - {i}" "held nil (m(x \<mapsto> nil)) = held nil m - {i}"
proof -
  show eq: "held nil (m(x := None)) = held nil m - {i}"
    using ran_drop [OF assms] by (auto simp: held_def)
  have "m(x \<mapsto> nil) = (m(x := None))(x \<mapsto> nil)"
    by simp
  then show "held nil (m(x \<mapsto> nil)) = held nil m - {i}"
    using held_upd_nil [of "m(x := None)" x nil] eq by simp
qed

lemma held_forget_nil [simp]:
  assumes "m x = Some nil"
  shows "held nil (m(x := None)) = held nil m"
proof -
  have "m = (m(x := None))(x \<mapsto> nil)"
    using assms by auto
  then show ?thesis
    using held_upd_nil [of "m(x := None)" x nil] by simp
qed

text \<open>
  The interface the task objects rely on: \<open>alloc\<close> hands out an id that nobody holds, and
  giving back a held id succeeds and makes it the next one to be handed out.
\<close>

locale id_allocator =
  fixes alloc :: "'p \<Rightarrow> ('i \<times> 'p) option"
    and release :: "'p \<Rightarrow> 'i \<Rightarrow> 'p res"
    and free :: "'p \<Rightarrow> 'i list"
    and invar :: "'p \<Rightarrow> 'i set \<Rightarrow> bool"
    and nil :: 'i
  assumes alloc_None: "invar p L \<Longrightarrow> alloc p = None \<longleftrightarrow> free p = []"
    and alloc_Some: "invar p L \<Longrightarrow> alloc p = Some (i, p') \<Longrightarrow>
      i \<notin> L \<and> i \<noteq> nil \<and> free p = i # free p' \<and> invar p' (insert i L)"
    and release_held: "invar p L \<Longrightarrow> i \<in> L \<Longrightarrow>
      \<exists>p'. release p i = Inr p' \<and> free p' = i # free p \<and> invar p' (L - {i})"
begin

definition consistent :: "'p \<Rightarrow> (tid \<rightharpoonup> 'i) \<Rightarrow> bool" where
  "consistent p m \<longleftrightarrow> invar p (held nil m) \<and> apart nil m"

lemma consistent_construct:
  assumes "consistent p m" "m x = None" "alloc p = Some (i, p')"
  shows "consistent p' (m(x \<mapsto> i))"
proof -
  have i: "i \<notin> held nil m" "i \<noteq> nil" "invar p' (insert i (held nil m))"
    using assms alloc_Some by (auto simp: consistent_def)
  moreover have "apart nil (m(x \<mapsto> i))"
    using assms(1) i by (auto simp: consistent_def apart_def held_iff)
  ultimately show ?thesis
    using assms(2) by (simp add: consistent_def held_upd)
qed

lemma consistent_limited:
  "consistent p m \<Longrightarrow> m x = None \<Longrightarrow> consistent p (m(x \<mapsto> nil))"
  by (auto simp: consistent_def apart_def)

lemma consistent_forget:
  "consistent p m \<Longrightarrow> m x = Some nil \<Longrightarrow> consistent p (m(x := None))"
  by (auto simp: consistent_def apart_def)

lemma consistent_release:
  assumes "consistent p m" "m x = Some i" "i \<noteq> nil"
  shows "\<exists>p'. release p i = Inr p' \<and> free p' = i # free p \<and>
    consistent p' (m(x := None)) \<and> consistent p' (m(x \<mapsto> nil))"
proof -
  have "i \<in> held nil m"
    using assms by (auto simp: held_iff)
  then obtain p' where p': "release p i = Inr p'" "free p' = i # free p"
      "invar p' (held nil m - {i})"
    using assms(1) release_held by (metis consistent_def)
  moreover have "apart nil (m(x := None))" "apart nil (m(x \<mapsto> nil))"
    using assms(1) by (auto simp: consistent_def apart_def)
  ultimately show ?thesis
    using assms by (auto simp: consistent_def held_drop)
qed

end

text \<open>
  The pool of a class provides it: \<open>U\<close> are the ids the class was given, the front index counts
  the held ones, and the array from there on lists the others.
\<close>

definition pool_inv :: "uid set \<Rightarrow> tpl \<Rightarrow> uid set \<Rightarrow> bool" where
  "pool_inv U t L \<longleftrightarrow>
     free_list_front t \<le> length (free_list t) \<and> distinct (free_ids t) \<and>
     finite L \<and> card L = free_list_front t \<and>
     L \<inter> set (free_ids t) = {} \<and> L \<union> set (free_ids t) = U \<and> EVENT_LOOP_ID \<notin> U"

lemma take_id_None: "pool_inv U t L \<Longrightarrow> take_id t = None \<longleftrightarrow> free_ids t = []"
  by (auto simp: pool_inv_def take_id_def free_ids_def)

lemma take_id_Some:
  assumes inv: "pool_inv U t L" and tk: "take_id t = Some (i, t')"
  shows "i \<notin> L \<and> i \<noteq> EVENT_LOOP_ID \<and> free_ids t = i # free_ids t' \<and>
    pool_inv U t' (insert i L)"
proof -
  have lt: "free_list_front t < length (free_list t)"
    using assms by (auto simp: pool_inv_def take_id_def split: if_splits)
  have t': "t' = t\<lparr>free_list_front := free_list_front t + 1\<rparr>"
      "i = free_list t ! free_list_front t"
    using tk by (auto simp: take_id_def split: if_splits)
  have free: "free_ids t = i # free_ids t'"
    using lt t' by (simp add: free_ids_def Cons_nth_drop_Suc)
  then have "i \<notin> L" "i \<in> U"
    using inv by (auto simp: pool_inv_def)
  moreover from this have "pool_inv U t' (insert i L)"
    using inv free lt t' unfolding pool_inv_def by auto
  ultimately show ?thesis
    using free inv by (auto simp: pool_inv_def)
qed

lemma give_id_held:
  assumes inv: "pool_inv U t L" and i: "i \<in> L"
  shows "\<exists>t'. give_id t i = Inr t' \<and> free_ids t' = i # free_ids t \<and> pool_inv U t' (L - {i})"
proof -
  have pos: "0 < free_list_front t" "free_list_front t \<le> length (free_list t)"
    using inv i by (auto simp: pool_inv_def card_gt_0_iff)
  define t' where "t' = t\<lparr>free_list := (free_list t)[free_list_front t - 1 := i],
    free_list_front := free_list_front t - 1\<rparr>"
  have free: "free_ids t' = i # free_ids t"
    using drop_update_prev [OF pos, of i] by (simp add: t'_def free_ids_def)
  moreover have "pool_inv U t' (L - {i})"
    using inv i pos free unfolding pool_inv_def by (auto simp: t'_def)
  ultimately show ?thesis
    using pos by (auto simp: give_id_def t'_def)
qed

interpretation pool: id_allocator take_id give_id free_ids "pool_inv U" EVENT_LOOP_ID for U
  by unfold_locales (auto dest: take_id_None take_id_Some give_id_held)

section \<open>The numbering of the ids\<close>

lemma set_fill_free_list:
  assumes "unat start + unat num < 2 ^ 32"
  shows "set (fill_free_list start num) = {i. unat start \<le> unat i \<and> unat i < unat start + unat num}"
proof -
  have eq: "unat (start + of_nat k) = unat start + k" if "k < unat num" for k
    using assms that by (simp add: unat_word_ariths unat_of_nat)
  show ?thesis
  proof (rule set_eqI, rule iffI)
    fix i assume "i \<in> set (fill_free_list start num)"
    then show "i \<in> {i. unat start \<le> unat i \<and> unat i < unat start + unat num}"
      using eq by (auto simp: fill_free_list_def)
  next
    fix i :: uid assume "i \<in> {i. unat start \<le> unat i \<and> unat i < unat start + unat num}"
    then have k: "unat i - unat start < unat num" "unat start \<le> unat i"
      by auto
    then have i: "i = start + of_nat (unat i - unat start)"
      using eq [of "unat i - unat start"] by (metis le_add_diff_inverse word_unat_eq_iff)
    show "i \<in> set (fill_free_list start num)"
      unfolding fill_free_list_def set_map using k i
      by (intro image_eqI [where x = "unat i - unat start"]) simp_all
  qed
qed

lemma length_fill_free_list [simp]: "length (fill_free_list start num) = unat num"
  by (simp add: fill_free_list_def)

lemma distinct_fill_free_list: "distinct (fill_free_list start num)"
proof -
  have "inj_on (\<lambda>i. start + of_nat i :: uid) {0..<unat num}"
  proof (rule inj_onI)
    fix a b assume "a \<in> {0..<unat num}" "b \<in> {0..<unat num}"
      and "start + of_nat a = start + (of_nat b :: uid)"
    moreover have "unat num < 2 ^ 32"
      using unsigned_less [of num] by simp
    ultimately show "a = b"
      by (simp add: of_nat_u32_inj)
  qed
  then show ?thesis
    by (simp add: fill_free_list_def distinct_map)
qed

lemma EVENT_LOOP_ID_not_numbered:
  assumes "unat start + unat num < 2 ^ 32"
  shows "EVENT_LOOP_ID \<notin> set (fill_free_list start num)"
proof -
  have "unat EVENT_LOOP_ID = 2 ^ 32 - 1"
    by (simp add: EVENT_LOOP_ID_def)
  then show ?thesis
    using assms by (simp add: set_fill_free_list)
qed

lemma task_init_eq:
  "task_init g t num = Inr (t', g') \<longleftrightarrow>
     \<not> initialized t \<and> num \<noteq> 0 \<and>
     t' = t\<lparr>free_list := fill_free_list (g_max_task_num g) num, free_list_front := 0,
            initialized := True\<rparr> \<and>
     g' = snd (init_setting g t (ucast (STACK_SIZE t)) (ucast (PROTECT_SIZE t)) num)"
  by (auto simp: task_init_def init_setting_def)

lemma task_init_pool_inv:
  assumes "task_init g t num = Inr (t', g')" "unat (g_max_task_num g) + unat num < 2 ^ 32"
  shows "pool_inv (set (fill_free_list (g_max_task_num g) num)) t' {}"
  using assms EVENT_LOOP_ID_not_numbered distinct_fill_free_list
  by (auto simp: task_init_eq pool_inv_def free_ids_def)

section \<open>The objects of a class never share an id\<close>

lemma object_step_consistent:
  assumes "pool.consistent U t m"
  shows "\<exists>t' m'. object_step op (t, m) = Inr (t', m') \<and> pool.consistent U t' m'"
proof (cases op)
  case (Construct x)
  show ?thesis
  proof (cases "m x")
    case None
    then show ?thesis
      using Construct assms
      by (cases "take_id t") (auto intro: pool.consistent_construct pool.consistent_limited)
  next
    case (Some i)
    then show ?thesis using Construct assms by simp
  qed
next
  case (Await_object x)
  show ?thesis
  proof (cases "\<exists>i. m x = Some i \<and> i \<noteq> EVENT_LOOP_ID")
    case True
    then show ?thesis
      using Await_object pool.consistent_release [OF assms] by (fastforce simp: await_release_def)
  next
    case False
    then show ?thesis
      using Await_object assms by (cases "m x") (auto simp: await_release_def fun_upd_idem)
  qed
next
  case (Destruct x)
  show ?thesis
  proof (cases "\<exists>i. m x = Some i \<and> i \<noteq> EVENT_LOOP_ID")
    case True
    then show ?thesis
      using Destruct pool.consistent_release [OF assms] by (fastforce simp: task_dtor_def)
  next
    case False
    then show ?thesis
      using Destruct assms
      by (cases "m x") (auto simp: task_dtor_def intro: pool.consistent_forget)
  qed
qed

lemma object_run_consistent:
  "pool.consistent U t m \<Longrightarrow>
    \<exists>t' m'. object_run ops (t, m) = Inr (t', m') \<and> pool.consistent U t' m'"
proof (induction ops arbitrary: t m)
  case Nil
  then show ?case by simp
next
  case (Cons op ops)
  then obtain t1 m1 where "object_step op (t, m) = Inr (t1, m1)" "pool.consistent U t1 m1"
    using object_step_consistent by blast
  then show ?case using Cons.IH by simp
qed

lemma pool_exhausted:
  assumes "pool_inv U t L" "card U = n"
  shows "take_id t = None \<longleftrightarrow> card L = n"
proof -
  have "U = L \<union> set (free_ids t)" "finite L" "L \<inter> set (free_ids t) = {}" "distinct (free_ids t)"
    using assms(1) by (auto simp: pool_inv_def)
  then have "card U = card L + length (free_ids t)"
    by (simp add: card_Un_disjoint distinct_card)
  then show ?thesis
    using take_id_None [OF assms(1)] assms(2) by auto
qed


text \<open>A fresh process and the class \<open>event_task\<close>, before any initialization.\<close>

definition globals0 :: globals where
  "globals0 = \<lparr>global_initialized = False, global_task_manager = [],
     global_running_manager = [], setting_list = [], g_max_task_num = 0,
     g_max_stack_size = 0, g_max_map_count = 0\<rparr>"

definition fresh_tpl :: "u32 \<Rightarrow> u32 \<Rightarrow> tpl" where
  "fresh_tpl user protect = \<lparr>user_pages = user, protect_pages = protect, free_list = [],
     free_list_front = 0, initialized = False\<rparr>"

definition tpl_after :: "globals \<Rightarrow> tpl \<Rightarrow> u32 \<Rightarrow> tpl" where
  "tpl_after g t num = t\<lparr>free_list := fill_free_list (g_max_task_num g) num,
     free_list_front := 0, initialized := True\<rparr>"

lemma task_init_fresh:
  "num \<noteq> 0 \<Longrightarrow> \<not> initialized t \<Longrightarrow>
    task_init g t num = Inr (tpl_after g t num,
      snd (init_setting g t (ucast (STACK_SIZE t)) (ucast (PROTECT_SIZE t)) num))"
  by (simp add: task_init_eq tpl_after_def)


section \<open>Several classes, one numbering\<close>

lemma init_setting_next:
  "g_max_task_num (snd (init_setting g t stack protect num)) = g_max_task_num g + num"
  by (simp add: init_setting_def)

lemma init_all_ids:
  assumes "init_all g ts = Inr (ts', g')"
    and "unat (g_max_task_num g) + (\<Sum>(t, n)\<leftarrow>ts. unat n) < 2 ^ 32"
  shows "unat (g_max_task_num g') = unat (g_max_task_num g) + (\<Sum>(t, n)\<leftarrow>ts. unat n) \<and>
    (\<forall>t \<in> set ts'. \<forall>i \<in> set (free_list t).
      unat (g_max_task_num g) \<le> unat i \<and> unat i < unat (g_max_task_num g')) \<and>
    sorted_wrt (\<lambda>a b. set (free_list a) \<inter> set (free_list b) = {}) ts'"
  using assms
proof (induction ts arbitrary: g ts')
  case Nil
  then show ?case by simp
next
  case (Cons tn ts)
  obtain t num where tn: "tn = (t, num)" by (cases tn)
  obtain t1 g1 ts1 where step: "task_init g t num = Inr (t1, g1)"
      and rest: "init_all g1 ts = Inr (ts1, g')" and ts': "ts' = t1 # ts1"
    using Cons.prems(1) tn by (auto simp: res_bind_eq_Inr)
  have bound: "unat (g_max_task_num g) + unat num < 2 ^ 32"
    using Cons.prems(2) tn by simp
  have g1: "unat (g_max_task_num g1) = unat (g_max_task_num g) + unat num"
    using step bound by (auto simp: task_init_eq init_setting_next unat_word_ariths)
  have fl: "set (free_list t1) =
      {i. unat (g_max_task_num g) \<le> unat i \<and> unat i < unat (g_max_task_num g) + unat num}"
    using step set_fill_free_list [OF bound] by (auto simp: task_init_eq)
  have IH: "unat (g_max_task_num g') = unat (g_max_task_num g1) + (\<Sum>(t, n)\<leftarrow>ts. unat n) \<and>
    (\<forall>t \<in> set ts1. \<forall>i \<in> set (free_list t).
      unat (g_max_task_num g1) \<le> unat i \<and> unat i < unat (g_max_task_num g')) \<and>
    sorted_wrt (\<lambda>a b. set (free_list a) \<inter> set (free_list b) = {}) ts1"
    by (rule Cons.IH [OF rest]) (use Cons.prems(2) tn g1 in simp)
  show ?case
    using IH fl g1 tn unfolding ts' by fastforce
qed

text \<open>
  C7: when a program initializes its classes one after the other and asks for fewer than
  \<open>2^32 - 1\<close> tasks in all, the classes get disjoint sets of ids, and every id is a valid index
  of the two arrays that \<open>__init\<close> allocates with \<open>g_max_task_num\<close> elements.
\<close>

theorem class_ids_disjoint:
  assumes "init_all globals0 ts = Inr (ts', g)"
    and "(\<Sum>(t, n)\<leftarrow>ts. unat n) < 2 ^ 32"
    and "ccf_init os g = Inr g'"
  shows "sorted_wrt (\<lambda>a b. set (free_list a) \<inter> set (free_list b) = {}) ts' \<and>
    (\<forall>t \<in> set ts'. \<forall>i \<in> set (free_list t). unat i < length (global_task_manager g'))"
proof -
  have "length (global_task_manager g') = unat (g_max_task_num g)"
    using assms(3) by (auto simp: ccf_init_def Let_def res_bind_eq_Inr split: if_splits)
  then show ?thesis
    using init_all_ids [OF assms(1)] assms(2) by (auto simp: globals0_def)
qed

section \<open>The stacks\<close>

text \<open>The stack sizes in the order of the ids.\<close>

definition stack_sizes :: "setting list \<Rightarrow> nat list" where
  "stack_sizes ss = concat (map (\<lambda>s. replicate (unat (max_task_num s)) (unat (stack_size s))) ss)"

definition stacks_from :: "nat \<Rightarrow> (nat \<times> u32) list \<Rightarrow> bool" where
  "stacks_from m cs \<longleftrightarrow>
     (\<forall>k < length cs. fst (cs ! k) = m + sum_list (map (\<lambda>c. unat (snd c)) (take k cs)))"

lemma stacks_from_Nil [simp]: "stacks_from m []"
  by (simp add: stacks_from_def)

lemma stacks_from_Cons:
  "stacks_from m (c # cs) \<longleftrightarrow> fst c = m \<and> stacks_from (m + unat (snd c)) cs"
  by (auto simp: stacks_from_def nth_Cons take_Cons' split: nat.splits)

lemma stacks_from_append:
  "stacks_from m (cs @ ds) \<longleftrightarrow>
     stacks_from m cs \<and> stacks_from (m + sum_list (map (\<lambda>c. unat (snd c)) cs)) ds"
  by (induction cs arbitrary: m) (auto simp: stacks_from_Cons add.assoc)

lemma create_coroutines_layout:
  "create_coroutines os s n u m = Inr (cs, u', m') \<Longrightarrow>
     map (\<lambda>c. unat (snd c)) cs = replicate n (unat (stack_size s)) \<and> stacks_from m cs \<and>
     m' = m + sum_list (map (\<lambda>c. unat (snd c)) cs)"
proof (induction n arbitrary: u m cs)
  case 0
  then show ?case by simp
next
  case (Suc n)
  then obtain cs' where cs': "cs = (m, stack_size s) # cs'"
      "create_coroutines os s n (u + 1) (m + unat (stack_size s)) = Inr (cs', u', m')"
    by (auto simp: check_eq_Inr res_bind_eq_Inr)
  with Suc.IH [OF cs'(2)] show ?case
    by (auto simp: stacks_from_Cons)
qed

lemma create_all_layout:
  "create_all os ss u m = Inr cs \<Longrightarrow> map (\<lambda>c. unat (snd c)) cs = stack_sizes ss \<and> stacks_from m cs"
proof (induction ss arbitrary: u m cs)
  case Nil
  then show ?case by (simp add: stack_sizes_def)
next
  case (Cons s ss)
  then obtain cs1 u1 m1 cs2 where cs: "cs = cs1 @ cs2"
      and c1: "create_coroutines os s (unat (max_task_num s)) u m = Inr (cs1, u1, m1)"
      and c2: "create_all os ss u1 m1 = Inr cs2"
    by (auto simp: res_bind_eq_Inr)
  from create_coroutines_layout [OF c1] Cons.IH [OF c2] show ?case
    by (simp add: cs stacks_from_append stack_sizes_def)
qed

lemma stack_sizes_append: "stack_sizes (ss @ [s]) =
    stack_sizes ss @ replicate (unat (max_task_num s)) (unat (stack_size s))"
  by (simp add: stack_sizes_def)

lemma init_setting_sizes:
  assumes "unat (g_max_stack_size g) = sum_list (stack_sizes (setting_list g))"
    and "sum_list (stack_sizes (setting_list (snd (init_setting g t stack protect num)))) < 2 ^ 64"
  shows "unat (g_max_stack_size (snd (init_setting g t stack protect num))) =
    sum_list (stack_sizes (setting_list (snd (init_setting g t stack protect num))))"
proof -
  have lt: "sum_list (stack_sizes (setting_list g)) + unat num * unat stack < 2 ^ 64"
    using assms(2) by (simp add: init_setting_def stack_sizes_append sum_list_replicate)
  have "unat (ucast stack * ucast num :: size_t) = unat num * unat stack"
    using lt by (simp add: unat_word_ariths mult.commute)
  then have "unat (g_max_stack_size g + ucast stack * ucast num) =
      sum_list (stack_sizes (setting_list g)) + unat num * unat stack"
    using lt assms(1) by (simp add: unat_word_ariths(1))
  then show ?thesis
    by (simp add: init_setting_def stack_sizes_append sum_list_replicate)
qed

lemma init_all_sizes_mono:
  "init_all g ts = Inr (ts', g') \<Longrightarrow>
    sum_list (stack_sizes (setting_list g)) \<le> sum_list (stack_sizes (setting_list g'))"
proof (induction ts arbitrary: g ts')
  case Nil
  then show ?case by simp
next
  case (Cons tn ts)
  obtain t num where tn: "tn = (t, num)" by (cases tn)
  obtain t1 g1 ts1 where step: "task_init g t num = Inr (t1, g1)"
      and rest: "init_all g1 ts = Inr (ts1, g')"
    using Cons.prems(1) tn by (auto simp: res_bind_eq_Inr)
  have "sum_list (stack_sizes (setting_list g)) \<le> sum_list (stack_sizes (setting_list g1))"
    using step by (auto simp: task_init_eq init_setting_def stack_sizes_append)
  then show ?case
    using Cons.IH [OF rest] by simp
qed

lemma init_all_sizes:
  "init_all g ts = Inr (ts', g') \<Longrightarrow>
    unat (g_max_stack_size g) = sum_list (stack_sizes (setting_list g)) \<Longrightarrow>
    sum_list (stack_sizes (setting_list g')) < 2 ^ 64 \<Longrightarrow>
    unat (g_max_stack_size g') = sum_list (stack_sizes (setting_list g'))"
proof (induction ts arbitrary: g ts')
  case Nil
  then show ?case by simp
next
  case (Cons tn ts)
  obtain t num where tn: "tn = (t, num)" by (cases tn)
  obtain t1 g1 ts1 where step: "task_init g t num = Inr (t1, g1)"
      and rest: "init_all g1 ts = Inr (ts1, g')"
    using Cons.prems(1) tn by (auto simp: res_bind_eq_Inr)
  have g1: "g1 = snd (init_setting g t (ucast (STACK_SIZE t)) (ucast (PROTECT_SIZE t)) num)"
    using step by (simp add: task_init_eq)
  have "sum_list (stack_sizes (setting_list g1)) < 2 ^ 64"
    using init_all_sizes_mono [OF rest] Cons.prems(3) by simp
  then have "unat (g_max_stack_size g1) = sum_list (stack_sizes (setting_list g1))"
    unfolding g1 by (rule init_setting_sizes [OF Cons.prems(2)])
  then show ?case
    using Cons.IH [OF rest] Cons.prems(3) by simp
qed

lemma ccf_init_stacks:
  assumes "ccf_init os g = Inr g'"
  defines "cs \<equiv> global_running_manager g'"
    and "mem \<equiv> os_mmap os (g_max_stack_size g)"
    and "sizes \<equiv> stack_sizes (setting_list g)"
  shows "map (\<lambda>c. unat (snd c)) cs = sizes"
    and "k < length cs \<Longrightarrow> fst (cs ! k) = mem + sum_list (take k sizes)"
proof -
  have "create_all os (setting_list g) 0 mem = Inr cs"
    using assms by (auto simp: ccf_init_def Let_def res_bind_eq_Inr split: if_splits)
  then have sz: "map (\<lambda>c. unat (snd c)) cs = sizes" and at: "stacks_from mem cs"
    using create_all_layout unfolding sizes_def by blast+
  from sz show "map (\<lambda>c. unat (snd c)) cs = sizes" .
  show "fst (cs ! k) = mem + sum_list (take k sizes)" if "k < length cs"
    using that at by (simp add: stacks_from_def take_map flip: sz)
qed

text \<open>
  C8: a program that initializes its classes (asking for less than \<open>2^64\<close> bytes of stack in
  all) and whose \<open>__init\<close> succeeds gets one coroutine per requested task, in the order of the
  ids, each with the stack size of its class; the stacks do not overlap and all lie inside the
  block of \<open>g_max_stack_size\<close> bytes that was mapped for them.
\<close>

theorem stacks_laid_out:
  assumes "init_all globals0 ts = Inr (ts', g)"
    and "sum_list (stack_sizes (setting_list g)) < 2 ^ 64"
    and "ccf_init os g = Inr g'"
  shows "let cs = global_running_manager g';
             mem = os_mmap os (g_max_stack_size g);
             sizes = stack_sizes (setting_list g)
         in map (\<lambda>c. unat (snd c)) cs = sizes \<and>
            (\<forall>i j. i < j \<and> j < length cs \<longrightarrow>
               fst (cs ! i) + unat (snd (cs ! i)) \<le> fst (cs ! j)) \<and>
            (\<forall>k < length cs. mem \<le> fst (cs ! k) \<and>
               fst (cs ! k) + unat (snd (cs ! k)) \<le> mem + unat (g_max_stack_size g))"
proof -
  define cs where "cs = global_running_manager g'"
  define mem where "mem = os_mmap os (g_max_stack_size g)"
  define sizes where "sizes = stack_sizes (setting_list g)"
  have sz: "map (\<lambda>c. unat (snd c)) cs = sizes"
    using ccf_init_stacks(1) [OF assms(3)] by (simp add: cs_def sizes_def)
  have fst_cs: "fst (cs ! k) = mem + sum_list (take k sizes)" if "k < length cs" for k
    using that ccf_init_stacks(2) [OF assms(3)] by (simp add: cs_def mem_def sizes_def)
  have len: "length cs = length sizes"
    using arg_cong [OF sz, of length] by simp
  have snd_cs: "unat (snd (cs ! k)) = sizes ! k" if "k < length cs" for k
    using that by (simp flip: sz)
  have total: "unat (g_max_stack_size g) = sum_list sizes"
    unfolding sizes_def
    by (rule init_all_sizes [OF assms(1) _ assms(2)]) (simp add: globals0_def stack_sizes_def)
  have le: "fst (cs ! i) + unat (snd (cs ! i)) \<le> mem + sum_list (take j sizes)"
    if "i < j" "j \<le> length cs" for i j
    using that sum_list_take_Suc_le [of i j sizes] len by (simp add: fst_cs snd_cs)
  have "fst (cs ! i) + unat (snd (cs ! i)) \<le> fst (cs ! j)" if "i < j" "j < length cs" for i j
    using le [of i j] that by (simp add: fst_cs)
  moreover have "mem \<le> fst (cs ! k) \<and> fst (cs ! k) + unat (snd (cs ! k)) \<le> mem + sum_list sizes"
    if "k < length cs" for k
    using le [of k "length cs"] that by (simp add: fst_cs len)
  ultimately show ?thesis
    using sz total by (simp add: Let_def flip: cs_def mem_def sizes_def)
qed

text \<open>Two classes with two tasks and one task, and an operating system that grants every request.\<close>

definition os_granting :: os where
  "os_granting = \<lparr>os_sysctl = Some 65530, os_mmap = (\<lambda>_. 4096),
     os_mprotect = (\<lambda>_ _. True), os_getcontext = (\<lambda>_. True)\<rparr>"

definition two_classes :: "(tpl \<times> u32) list" where
  "two_classes = [(fresh_tpl 4 1, 2), (fresh_tpl 63 1, 1)]"

definition two_classes_globals :: globals where
  "two_classes_globals = \<lparr>global_initialized = False, global_task_manager = [],
     global_running_manager = [],
     setting_list = [\<lparr>stack_size = 20480, protect_size = 4096, max_task_num = 2\<rparr>,
       \<lparr>stack_size = 262144, protect_size = 4096, max_task_num = 1\<rparr>],
     g_max_task_num = 3, g_max_stack_size = 303104, g_max_map_count = 6\<rparr>"

lemma two_classes_init:
  "init_all globals0 two_classes =
     Inr ([tpl_after globals0 (fresh_tpl 4 1) 2,
           tpl_after (globals0\<lparr>g_max_task_num := 2\<rparr>) (fresh_tpl 63 1) 1], two_classes_globals)"
  by (simp add: two_classes_def two_classes_globals_def globals0_def fresh_tpl_def tpl_after_def
      task_init_def init_setting_def STACK_SIZE_def PROTECT_SIZE_def PAGE_SIZE_def)

lemma create_coroutines_numeral:
  "create_coroutines os s (numeral k) unique_id cur_mem =
     create_coroutines os s (Suc (pred_numeral k)) unique_id cur_mem"
  by (simp only: numeral_eq_Suc)

lemma two_classes_ccf_init:
  "ccf_init os_granting two_classes_globals =
     Inr (two_classes_globals\<lparr>global_initialized := True,
       global_task_manager := [None, None, None],
       global_running_manager := [(4096, 20480), (24576, 20480), (45056, 262144)]\<rparr>)"
  by (simp add: ccf_init_def get_max_map_count_def two_classes_globals_def os_granting_def RESV_MAP_COUNT_def
      create_coroutines_numeral replicate_num)

theorem class_ids_disjoint_witness:
  "set (fill_free_list 0 2) \<inter> set (fill_free_list 2 1) = {} \<and>
   unat (2 :: uid) < length (global_task_manager (two_classes_globals\<lparr>global_task_manager := [None, None, None]\<rparr>))"
proof -
  have "(\<Sum>(t, n)\<leftarrow>two_classes. unat n) < 2 ^ 32"
    by (simp add: two_classes_def)
  from class_ids_disjoint [OF two_classes_init this two_classes_ccf_init] show ?thesis
    by (simp add: tpl_after_def globals0_def fill_free_list_def)
qed

theorem stacks_laid_out_witness:
  "unat (g_max_stack_size two_classes_globals) = 303104 \<and>
   (45056 :: nat) + 262144 \<le> 4096 + 303104"
proof -
  have "sum_list (stack_sizes (setting_list two_classes_globals)) < 2 ^ 64"
    by (simp add: two_classes_globals_def stack_sizes_def sum_list_replicate)
  from stacks_laid_out [OF two_classes_init this two_classes_ccf_init] show ?thesis
    by (simp add: Let_def two_classes_globals_def os_granting_def)
qed

text \<open>
  The guard of \<open>task::init\<close> that is meant to refuse a class initialized after the first
  task was created tests the class's own flag, so such a call is accepted; the first object of the
  class then writes its entry of \<open>global_task_manager\<close> past the end of the array.
\<close>

theorem late_init_writes_out_of_bounds:
  assumes "global_initialized g" "length (global_task_manager g) = unat (g_max_task_num g)"
    and "\<not> initialized t" "num \<noteq> 0" "unat (g_max_task_num g) + unat num < 2 ^ 32"
  shows "\<exists>t' g'. task_init g t num = Inr (t', g') \<and> task_ctor os g' t' this = Inl Out_of_bounds"
proof -
  let ?g = "snd (init_setting g t (ucast (STACK_SIZE t)) (ucast (PROTECT_SIZE t)) num)"
  have num: "0 < unat num"
    using assms(4) by (simp add: unat_gt_0)
  then have "take_id (tpl_after g t num) = Some (g_max_task_num g,
      (tpl_after g t num)\<lparr>free_list_front := 1\<rparr>)"
    by (auto simp: take_id_def tpl_after_def fill_free_list_def)
  moreover have "global_initialized ?g" "global_task_manager ?g = global_task_manager g"
    using assms by (simp_all add: init_setting_def)
  ultimately have "task_ctor os ?g (tpl_after g t num) this = Inl Out_of_bounds"
    using assms(2) by (simp add: task_ctor_def tpl_after_def)
  then show ?thesis
    using task_init_fresh assms(3,4) by blast
qed

theorem late_init_writes_out_of_bounds_witness:
  "\<exists>t' g'. task_init (two_classes_globals\<lparr>global_initialized := True,
       global_task_manager := [None, None, None]\<rparr>) (fresh_tpl 8 1) 5 = Inr (t', g') \<and>
     task_ctor os_granting g' t' 7 = Inl Out_of_bounds"
  by (rule late_init_writes_out_of_bounds)
     (simp_all add: two_classes_globals_def fresh_tpl_def)

end
