(* ===== verification/Scheduler.thy ===== *)
theory Scheduler
  imports Task_Pool
begin

text \<open>
  The coroutine scheduler: \<open>swap_running\<close>, \<open>__task_yield\<close> and \<open>__task_stand\<close>
  (\<open>src/cocoflow-comm.h\<close>); \<open>__task_runtime\<close>, \<open>__await\<close>, \<open>__start\<close>,
  \<open>__cocoflow\<close>, \<open>all_of\<close>, \<open>any_of\<close> and \<open>__task_cancel_children\<close>
  (\<open>src/cocoflow.cc\<close>); the template \<open>await\<close> (\<open>include/cocoflow.h\<close>).

  The model is an abstract machine. A coroutine is the stack of calls it is in, innermost first:
  one frame per call that has not returned, holding the local variables the code still uses. The
  running coroutine returns into, or throws through, its innermost frame; one step of the machine
  is the code from there to the next call, return, throw or switch. Switching saves the stack of
  the running coroutine under its id and continues the saved stack of the next one, as
  \<open>swapcontext\<close> does; an empty stack is the head of the loop of \<open>__task_runtime\<close>.

  The bodies of user tasks are not part of the library. A body is given by the primitives it
  performs in order, so the theorems range over all of them. Debug logging is left out.
\<close>

section \<open>Tasks\<close>

text \<open>
  What a user's \<open>run()\<close> does: output something, construct a task of a class on the stack or
  on the heap, \<open>await\<close> or \<open>start\<close> a task, mark itself uninterruptable. A body is a user's
  (with the output of its \<open>cancel()\<close>), an event the loop will report (\<open>sleep\<close>), an event
  that cannot be given up (\<open>send\<close>), or one of the two combinators.
\<close>

datatype action =
    Emit nat
  | New_local nat body
  | New_heap nat body
  | Await_task tid
  | Start_task tid
  | Uninterruptable
and body =
    User "action list" "nat list"
  | Sleep
  | Send
  | All_of "tid list"
  | Any_of "tid list"

record task =
  reuse :: "tid option"
  unique_id :: uid
  block_to :: uid
  finish_to :: uid
  info :: u8
  task_class :: nat
  task_body :: body
  completed_id :: int
  armed :: bool

section \<open>The machine\<close>

text \<open>
  The frames, named after the function they are in and the call they wait for: \<open>R\<close> is
  \<open>__task_runtime\<close>, \<open>A\<close> is \<open>__await\<close>, \<open>Y\<close> is \<open>__task_yield\<close>, \<open>S\<close> is
  \<open>__start\<close>, \<open>E\<close> the \<open>run\<close> of an event, \<open>C\<close> is \<open>__task_cancel_children\<close>,
  \<open>U\<close> a user's \<open>run\<close> with the rest of its body and its local task objects.
\<close>

datatype frame =
    R_run tid
  | R_cancel tid
  | U_body tid "action list" "tid list"
  | A_run tid tid
  | A_cancel tid tid nat
  | Y_swapped tid
  | Y_cancel
  | S_swapped
  | E_yielded tid
  | All_started tid nat nat
  | All_yielded tid nat
  | Any_started tid nat
  | Any_yielded tid
  | C_swapped tid "tid list" nat
  | C_yielded tid nat

text \<open>A return (with a result where there is one) or a thrown \<open>interrupt_canceled\<close>.\<close>

datatype control = Ret bool | Throw nat

record machine =
  tasks :: "task option list"
  manager :: "uid \<Rightarrow> tid option"
  pools :: "nat \<Rightarrow> tpl"
  current :: "tid option"
  signal_canceled :: bool
  top_task :: tid
  contexts :: "uid \<Rightarrow> frame list"
  active :: uid
  stack :: "frame list"
  control :: control
  emitted :: "nat list"

section \<open>Access to task objects\<close>

definition task_at :: "machine \<Rightarrow> tid \<Rightarrow> task option" where
  "task_at m t = (if t < length (tasks m) then tasks m ! t else None)"

definition with_task :: "machine \<Rightarrow> tid \<Rightarrow> (task \<Rightarrow> 'a res) \<Rightarrow> 'a res" where
  "with_task m t k = (case task_at m t of None \<Rightarrow> Inl Use_after_free | Some x \<Rightarrow> k x)"

definition upd_task :: "tid \<Rightarrow> (task \<Rightarrow> task) \<Rightarrow> machine \<Rightarrow> machine" where
  "upd_task t f m =
     (case task_at m t of None \<Rightarrow> m | Some x \<Rightarrow> m\<lparr>tasks := (tasks m)[t := Some (f x)]\<rparr>)"

abbreviation set_status :: "tid \<Rightarrow> task_status \<Rightarrow> machine \<Rightarrow> machine" where
  "set_status t st \<equiv> upd_task t (info_update (\<lambda>i. task_set_status i st))"

abbreviation status_is :: "task \<Rightarrow> task_status \<Rightarrow> bool" where
  "status_is x st \<equiv> has_status (info x) st"

definition push :: "frame \<Rightarrow> machine \<Rightarrow> machine" where
  "push f m = m\<lparr>stack := f # stack m\<rparr>"

definition ret :: "bool \<Rightarrow> machine \<Rightarrow> machine" where
  "ret b m = m\<lparr>control := Ret b\<rparr>"

definition throw_canceled :: "nat \<Rightarrow> machine \<Rightarrow> machine" where
  "throw_canceled n m = m\<lparr>control := Throw n\<rparr>"

section \<open>Switching\<close>

text \<open>
  \<open>swap_running(cur, next)\<close>. The frame to return to is on the stack already. Both assignments
  of \<open>global_current_task\<close> (before the switch, and after it in the coroutine that continues)
  store the same value.
\<close>

definition swap_running :: "uid \<Rightarrow> uid \<Rightarrow> machine \<Rightarrow> machine" where
  "swap_running cur nxt m =
     (let ctx = (contexts m)(cur := stack m)
      in m\<lparr>contexts := ctx, active := nxt, stack := ctx nxt, control := Ret True,
           current := (if nxt = EVENT_LOOP_ID then None else manager m nxt)\<rparr>)"

definition task_yield :: "tid \<Rightarrow> machine \<Rightarrow> machine res" where
  "task_yield cur m =
     with_task m cur (\<lambda>x.
       Inr (swap_running (unique_id x) (block_to x)
         (push (Y_swapped cur) (upd_task cur (block_to_update (\<lambda>_. EVENT_LOOP_ID)) m))))"

definition task_stand :: "tid \<Rightarrow> machine \<Rightarrow> machine res" where
  "task_stand cur m = with_task m cur (\<lambda>x. Inr (swap_running EVENT_LOOP_ID (unique_id x) m))"

definition task_start_child :: "tid \<Rightarrow> tid \<Rightarrow> machine \<Rightarrow> machine res" where
  "task_start_child cur child m =
     with_task m cur (\<lambda>x. with_task m child (\<lambda>y.
       Inr (swap_running (unique_id x) (unique_id y) m)))"

section \<open>Creating and deleting tasks\<close>

definition new_task :: "nat \<Rightarrow> body \<Rightarrow> uid \<Rightarrow> task_status \<Rightarrow> task" where
  "new_task c b i st =
     \<lparr>reuse = None, unique_id = i, block_to = EVENT_LOOP_ID, finish_to = EVENT_LOOP_ID,
      info = (if b = Send then task_set_uninterruptable (task_set_status 0 st)
              else task_set_status 0 st),
      task_class = c, task_body = b, completed_id = -1, armed = False\<rparr>"

text \<open>
  The constructors: the base class takes an id, \<open>send\<close> marks itself uninterruptable, the
  combinators refuse an empty array of children. The object's address is the next free index.
\<close>

definition construct :: "nat \<Rightarrow> body \<Rightarrow> machine \<Rightarrow> machine res" where
  "construct c b m =
     check (b \<noteq> All_of [] \<and> b \<noteq> Any_of [])
       (let this = length (tasks m)
        in case take_id (pools m c) of
             Some (i, t') \<Rightarrow>
               Inr (m\<lparr>pools := (pools m)(c := t'), manager := (manager m)(i := Some this),
                      tasks := tasks m @ [Some (new_task c b i ready)]\<rparr>)
           | None \<Rightarrow> Inr (m\<lparr>tasks := tasks m @ [Some (new_task c b EVENT_LOOP_ID limited)]\<rparr>))"

definition destruct :: "tid \<Rightarrow> machine \<Rightarrow> machine res" where
  "destruct t m =
     with_task m t (\<lambda>x.
       res_bind (task_dtor (pools m (task_class x)) (unique_id x)) (\<lambda>p.
         Inr (m\<lparr>pools := (pools m)(task_class x := p), tasks := (tasks m)[t := None]\<rparr>)))"

fun destruct_all :: "tid list \<Rightarrow> machine \<Rightarrow> machine res" where
  "destruct_all [] m = Inr m"
| "destruct_all (t # ts) m = res_bind (destruct t m) (destruct_all ts)"

section \<open>Canceling children\<close>

text \<open>
  The inner loop of \<open>__task_cancel_children\<close>: from the child along the tasks it is awaiting,
  to the first uninterruptable one or to the last. The chain visits each task at most once, so
  the number of tasks bounds it; a chain that runs into itself is the loop that never ends.
\<close>

fun find_final :: "nat \<Rightarrow> machine \<Rightarrow> tid \<Rightarrow> (tid \<times> bool) res" where
  "find_final 0 m t = Inl Diverges"
| "find_final (Suc n) m t =
     with_task m t (\<lambda>x.
       if task_is_uninterruptable (info x) then Inr (t, True)
       else case reuse x of None \<Rightarrow> Inr (t, False) | Some t' \<Rightarrow> find_final n m t')"

definition cancel_wait :: "tid \<Rightarrow> nat \<Rightarrow> machine \<Rightarrow> machine res" where
  "cancel_wait cur unsupport m =
     (if unsupport > 0 then task_yield cur (push (C_yielded cur unsupport) m)
      else Inr (ret True m))"

fun task_cancel_children :: "tid \<Rightarrow> tid list \<Rightarrow> nat \<Rightarrow> machine \<Rightarrow> machine res" where
  "task_cancel_children cur [] unsupport m =
     (if unsupport > 0
      then cancel_wait cur unsupport (upd_task cur (info_update task_set_uninterruptable) m)
      else Inr (ret True m))"
| "task_cancel_children cur (child # rest) unsupport m =
     with_task m child (\<lambda>y.
       if status_is y running then
         res_bind (find_final (length (tasks m)) m child) (\<lambda>(final, unint).
           if unint then
             task_cancel_children cur rest (unsupport + 1)
               (if final \<noteq> child then set_status final canceled m else m)
           else
             task_start_child cur child
               (push (C_swapped cur rest unsupport)
                 (set_status child canceled (m\<lparr>signal_canceled := True\<rparr>))))
       else task_cancel_children cur rest unsupport m)"

text \<open>The virtual \<open>cancel()\<close> of a task. A user's prints; that of a \<open>send\<close> is \<open>CHECK(0)\<close>.\<close>

definition call_cancel :: "tid \<Rightarrow> machine \<Rightarrow> machine res" where
  "call_cancel t m =
     with_task m t (\<lambda>x. case task_body x of
         User _ out \<Rightarrow> Inr (ret True (m\<lparr>emitted := emitted m @ out\<rparr>))
       | Sleep \<Rightarrow> Inr (ret True (upd_task t (armed_update (\<lambda>_. False)) m))
       | Send \<Rightarrow> Inl Check_failed
       | All_of cs \<Rightarrow> task_cancel_children t cs 0 m
       | Any_of cs \<Rightarrow> task_cancel_children t cs 0 m)"

section \<open>all_of and any_of\<close>

text \<open>
  The first loop of \<open>all_of::run\<close> and \<open>any_of::run\<close>: \<open>True\<close> when every child was ready.
  The children before the first unready one have got their links.
\<close>

fun link_children :: "uid \<Rightarrow> tid list \<Rightarrow> machine \<Rightarrow> (bool \<times> machine) res" where
  "link_children i [] m = Inr (True, m)"
| "link_children i (c # cs) m =
     with_task m c (\<lambda>y.
       if \<not> status_is y ready then Inr (False, m)
       else link_children i cs
         (upd_task c (\<lambda>y. y\<lparr>block_to := i, finish_to := i\<rparr>) m))"

definition all_of_wait :: "tid \<Rightarrow> nat \<Rightarrow> machine \<Rightarrow> machine res" where
  "all_of_wait t count m =
     (if count > 0 then task_yield t (push (All_yielded t count) m) else Inr (ret True m))"

definition all_of_start :: "tid \<Rightarrow> tid list \<Rightarrow> nat \<Rightarrow> nat \<Rightarrow> machine \<Rightarrow> machine res" where
  "all_of_start t cs i count m =
     (if i < length cs then task_start_child t (cs ! i) (push (All_started t i count) m)
      else all_of_wait t count m)"

definition all_of_run :: "tid \<Rightarrow> tid list \<Rightarrow> machine \<Rightarrow> machine res" where
  "all_of_run t cs m =
     with_task m t (\<lambda>x.
       res_bind (link_children (unique_id x) cs m) (\<lambda>(ok, m).
         if ok then all_of_start t cs 0 (length cs) m
         else Inr (ret True (set_status t child_unready m))))"

text \<open>After child \<open>i\<close> was started: it completed at once, or it is running on its own.\<close>

definition all_of_started :: "tid \<Rightarrow> tid list \<Rightarrow> nat \<Rightarrow> nat \<Rightarrow> machine \<Rightarrow> machine res" where
  "all_of_started t cs i count m =
     with_task m (cs ! i) (\<lambda>y.
       if status_is y completed then all_of_start t cs (i + 1) (count - 1) m
       else all_of_start t cs (i + 1) count
         (upd_task (cs ! i) (info_update task_set_all_any) m))"

fun first_completed :: "machine \<Rightarrow> nat \<Rightarrow> tid list \<Rightarrow> nat option res" where
  "first_completed m i [] = Inr None"
| "first_completed m i (c # cs) =
     with_task m c (\<lambda>y. if status_is y completed then Inr (Some i) else first_completed m (i + 1) cs)"

definition any_of_wait :: "tid \<Rightarrow> tid list \<Rightarrow> machine \<Rightarrow> machine res" where
  "any_of_wait t cs m =
     with_task m t (\<lambda>x.
       if completed_id x = -1 then task_yield t (push (Any_yielded t) m)
       else task_cancel_children t cs 0 m)"

definition any_of_start :: "tid \<Rightarrow> tid list \<Rightarrow> nat \<Rightarrow> machine \<Rightarrow> machine res" where
  "any_of_start t cs i m =
     (if i < length cs then task_start_child t (cs ! i) (push (Any_started t i) m)
      else any_of_wait t cs m)"

definition any_of_run :: "tid \<Rightarrow> tid list \<Rightarrow> machine \<Rightarrow> machine res" where
  "any_of_run t cs m =
     with_task m t (\<lambda>x.
       res_bind (link_children (unique_id x) cs m) (\<lambda>(ok, m).
         if ok then any_of_start t cs 0 m
         else Inr (ret True (set_status t child_unready m))))"

definition any_of_started :: "tid \<Rightarrow> tid list \<Rightarrow> nat \<Rightarrow> machine \<Rightarrow> machine res" where
  "any_of_started t cs i m =
     with_task m (cs ! i) (\<lambda>y.
       if status_is y completed then
         any_of_wait t cs (upd_task t (completed_id_update (\<lambda>_. int i)) m)
       else any_of_start t cs (i + 1) (upd_task (cs ! i) (info_update task_set_all_any) m))"

definition any_of_yielded :: "tid \<Rightarrow> tid list \<Rightarrow> machine \<Rightarrow> machine res" where
  "any_of_yielded t cs m =
     res_bind (first_completed m 0 cs) (\<lambda>found.
       task_cancel_children t cs 0
         (case found of
            None \<Rightarrow> m
          | Some i \<Rightarrow> upd_task t (completed_id_update (\<lambda>_. int i)) m))"

section \<open>run, await, start\<close>

text \<open>The virtual \<open>run()\<close> of a task.\<close>

definition call_run :: "tid \<Rightarrow> machine \<Rightarrow> machine res" where
  "call_run t m =
     with_task m t (\<lambda>x. case task_body x of
         User acts _ \<Rightarrow> Inr (ret True (push (U_body t acts []) m))
       | Sleep \<Rightarrow> task_yield t (push (E_yielded t) (upd_task t (armed_update (\<lambda>_. True)) m))
       | Send \<Rightarrow> task_yield t (push (E_yielded t) (upd_task t (armed_update (\<lambda>_. True)) m))
       | All_of cs \<Rightarrow> all_of_run t cs m
       | Any_of cs \<Rightarrow> any_of_run t cs m)"

text \<open>\<open>__await\<close> up to the call of \<open>target->run()\<close>; the result \<open>-1\<close> is \<open>Ret False\<close>.\<close>

definition await_task :: "tid \<Rightarrow> machine \<Rightarrow> machine res" where
  "await_task target m =
     (case current m of
        None \<Rightarrow> Inl (Fatal ''Call await() must be in a task'')
      | Some parent \<Rightarrow>
          with_task m target (\<lambda>y.
            if \<not> status_is y ready \<and> \<not> status_is y limited then Inr (ret False m)
            else with_task m parent (\<lambda>x.
              call_run target (push (A_run parent target)
                ((upd_task parent (\<lambda>x. x\<lparr>reuse := Some target\<rparr>)
                  (upd_task target (\<lambda>y. y\<lparr>block_to := block_to x, finish_to := unique_id x,
                      unique_id := unique_id x, info := task_set_status (info y) running\<rparr>)
                    (upd_task parent (\<lambda>x. x\<lparr>block_to := EVENT_LOOP_ID\<rparr>) m)))
                  \<lparr>current := Some target\<rparr>)))))"

text \<open>\<open>__await\<close> after \<open>target->run()\<close> returned.\<close>

definition await_done :: "tid \<Rightarrow> tid \<Rightarrow> machine \<Rightarrow> machine res" where
  "await_done parent target m =
     (let m = upd_task parent (\<lambda>x. x\<lparr>reuse := None\<rparr>) (m\<lparr>current := Some parent\<rparr>);
          m = upd_task target (\<lambda>y. y\<lparr>unique_id := EVENT_LOOP_ID,
                info := (if status_is y running then task_set_status (info y) completed
                         else info y)\<rparr>) m
      in with_task m target (\<lambda>y.
           let m = (if block_to y \<noteq> EVENT_LOOP_ID
                    then upd_task target (\<lambda>y. y\<lparr>block_to := EVENT_LOOP_ID\<rparr>)
                      (upd_task parent (\<lambda>x. x\<lparr>block_to := block_to y\<rparr>) m)
                    else m)
           in if status_is y canceled
              then Inr (throw_canceled 0 (set_status target completed m))
              else Inr (ret True m)))"

text \<open>The handler in \<open>__await\<close>, after \<open>target->cancel()\<close> returned.\<close>

definition await_rethrow :: "tid \<Rightarrow> tid \<Rightarrow> nat \<Rightarrow> machine \<Rightarrow> machine res" where
  "await_rethrow parent target level m =
     Inr (throw_canceled (level + 1)
       (upd_task target (\<lambda>y. y\<lparr>unique_id := EVENT_LOOP_ID\<rparr>)
         (upd_task parent (\<lambda>x. x\<lparr>reuse := None\<rparr>) (m\<lparr>current := Some parent\<rparr>))))"

text \<open>The template \<open>await\<close>: the target's own id goes back to its class first.\<close>

definition await_primitive :: "tid \<Rightarrow> machine \<Rightarrow> machine res" where
  "await_primitive target m =
     with_task m target (\<lambda>y.
       res_bind (await_release (pools m (task_class y)) (unique_id y)) (\<lambda>(p, i).
         await_task target
           (upd_task target (\<lambda>y. y\<lparr>unique_id := i\<rparr>)
             (m\<lparr>pools := (pools m)(task_class y := p)\<rparr>))))"

definition start_primitive :: "tid \<Rightarrow> machine \<Rightarrow> machine res" where
  "start_primitive target m =
     (case current m of
        None \<Rightarrow> Inl (Fatal ''Call start() must be in a task'')
      | Some parent \<Rightarrow>
          with_task m target (\<lambda>y.
            if \<not> status_is y ready then res_bind (destruct target m) (\<lambda>m. Inr (ret False m))
            else with_task m parent (\<lambda>x.
              Inr (swap_running (unique_id x) (unique_id y)
                (push S_swapped
                  (upd_task target (\<lambda>y. y\<lparr>block_to := unique_id x,
                     finish_to := EVENT_LOOP_ID\<rparr>) m))))))"

section \<open>The loop of a coroutine\<close>

definition runtime_begin :: "machine \<Rightarrow> machine res" where
  "runtime_begin m =
     (case manager m (active m) of
        None \<Rightarrow> Inl Null_pointer
      | Some t \<Rightarrow> with_task m t (\<lambda>_. call_run t (push (R_run t) (set_status t running m))))"

text \<open>
  The rest of the loop body, once \<open>run()\<close> returned or was canceled: where to go next, and the
  deletion of a task that was started and not awaited.
\<close>

definition runtime_next :: "task \<Rightarrow> uid" where
  "runtime_next x =
     (if finish_to x \<noteq> EVENT_LOOP_ID \<or> block_to x = EVENT_LOOP_ID then finish_to x
      else block_to x)"

definition runtime_finish :: "tid \<Rightarrow> machine \<Rightarrow> machine res" where
  "runtime_finish t m =
     with_task m t (\<lambda>x.
       let m = (if status_is x running then set_status t completed m else m)
       in res_bind
            (if finish_to x = EVENT_LOOP_ID \<and> t \<noteq> top_task m
             then destruct t (m\<lparr>manager := (manager m)(active m := None)\<rparr>)
             else Inr m)
            (\<lambda>m. Inr (swap_running (active m) (runtime_next x) m)))"

section \<open>User code\<close>

definition user_action :: "tid \<Rightarrow> action \<Rightarrow> action list \<Rightarrow> tid list \<Rightarrow> machine \<Rightarrow> machine res" where
  "user_action t a rest locals m =
     (case a of
        Emit n \<Rightarrow> Inr (ret True (push (U_body t rest locals) (m\<lparr>emitted := emitted m @ [n]\<rparr>)))
      | New_local c b \<Rightarrow>
          res_bind (construct c b (push (U_body t rest (length (tasks m) # locals)) m))
            (\<lambda>m. Inr (ret True m))
      | New_heap c b \<Rightarrow>
          res_bind (construct c b (push (U_body t rest locals) m)) (\<lambda>m. Inr (ret True m))
      | Await_task x \<Rightarrow> await_primitive x (push (U_body t rest locals) m)
      | Start_task x \<Rightarrow> start_primitive x (push (U_body t rest locals) m)
      | Uninterruptable \<Rightarrow>
          Inr (ret True (push (U_body t rest locals)
            (upd_task t (info_update task_set_uninterruptable) m))))"

section \<open>Steps\<close>

definition children_of :: "machine \<Rightarrow> tid \<Rightarrow> tid list" where
  "children_of m t =
     (case task_at m t of
        None \<Rightarrow> []
      | Some x \<Rightarrow> (case task_body x of All_of cs \<Rightarrow> cs | Any_of cs \<Rightarrow> cs | _ \<Rightarrow> []))"

text \<open>A return into the innermost frame.\<close>

fun return_into :: "bool \<Rightarrow> frame \<Rightarrow> machine \<Rightarrow> machine res" where
  "return_into b (R_run t) m = runtime_finish t m"
| "return_into b (R_cancel t) m = runtime_finish t m"
| "return_into b (U_body t [] locals) m =
     res_bind (destruct_all locals m) (\<lambda>m. Inr (ret True m))"
| "return_into b (U_body t (a # rest) locals) m = user_action t a rest locals m"
| "return_into b (A_run parent target) m = await_done parent target m"
| "return_into b (A_cancel parent target level) m = await_rethrow parent target level m"
| "return_into b (Y_swapped cur) m =
     (if signal_canceled m then
        (let m = m\<lparr>signal_canceled := False\<rparr>
         in with_task m cur (\<lambda>x.
              if \<not> status_is x canceled
              then Inr (throw_canceled 0 (set_status cur canceled m))
              else call_cancel cur (push Y_cancel m)))
      else Inr (ret True m))"
| "return_into b Y_cancel m = Inr (ret False m)"
| "return_into b S_swapped m = Inr (ret True m)"
| "return_into b (E_yielded t) m = Inr (ret True m)"
| "return_into b (All_started t i count) m =
     with_task m t (\<lambda>_. all_of_started t (children_of m t) i count m)"
| "return_into b (All_yielded t count) m =
     (if b then all_of_wait t (count - 1) m else Inr (ret True m))"
| "return_into b (Any_started t i) m =
     with_task m t (\<lambda>_. any_of_started t (children_of m t) i m)"
| "return_into b (Any_yielded t) m =
     (if b then with_task m t (\<lambda>_. any_of_yielded t (children_of m t) m)
      else Inr (ret True m))"
| "return_into b (C_swapped cur rest unsupport) m = task_cancel_children cur rest unsupport m"
| "return_into b (C_yielded cur unsupport) m = check b (cancel_wait cur (unsupport - 1) m)"

text \<open>
  An \<open>interrupt_canceled\<close> reaches a frame: \<open>__task_runtime\<close> and \<open>__await\<close> handle it,
  a user's body destroys its local objects, every other frame is left. Nothing catches one that
  leaves the handler of \<open>__task_runtime\<close>.
\<close>

fun throw_into :: "nat \<Rightarrow> frame \<Rightarrow> machine \<Rightarrow> machine res" where
  "throw_into n (R_run t) m = call_cancel t (push (R_cancel t) (set_status t canceled m))"
| "throw_into n (R_cancel t) m = Inl (Fatal ''terminate called after throwing'')"
| "throw_into n (A_run parent target) m =
     call_cancel target (push (A_cancel parent target n) (set_status target canceled m))"
| "throw_into n (U_body t rest locals) m =
     res_bind (destruct_all locals m) (\<lambda>m. Inr (throw_canceled n m))"
| "throw_into n _ m = Inr m"

definition step :: "machine \<Rightarrow> machine res" where
  "step m =
     (case stack m of
        [] \<Rightarrow> runtime_begin m
      | f # fs \<Rightarrow>
          (case control m of
             Ret b \<Rightarrow> return_into b f (m\<lparr>stack := fs\<rparr>)
           | Throw n \<Rightarrow> throw_into n f (m\<lparr>stack := fs\<rparr>)))"

definition idle :: "machine \<Rightarrow> bool" where
  "idle m \<longleftrightarrow> active m = EVENT_LOOP_ID"

text \<open>Running until the event loop has control again; \<open>None\<close> when the fuel does not suffice.\<close>

fun run_until_idle :: "nat \<Rightarrow> machine \<Rightarrow> machine res option" where
  "run_until_idle 0 m = (if idle m then Some (Inr m) else None)"
| "run_until_idle (Suc n) m =
     (if idle m then Some (Inr m)
      else case step m of Inl e \<Rightarrow> Some (Inl e) | Inr m' \<Rightarrow> run_until_idle n m')"

text \<open>
  What the event loop does: it reports an event a task has asked for (\<open>sleep_cb\<close>,
  \<open>udp_send_cb\<close>), which continues the task.
\<close>

definition fire :: "tid \<Rightarrow> machine \<Rightarrow> machine res" where
  "fire t m =
     with_task m t (\<lambda>x. task_stand t (upd_task t (armed_update (\<lambda>_. False)) m))"

text \<open>
  \<open>__cocoflow\<close>: the first switch, to the top task. It may be called once; \<open>call\<close> is the number
  of calls made before.
\<close>

definition cocoflow :: "machine \<Rightarrow> machine res" where
  "cocoflow m =
     with_task m (top_task m) (\<lambda>x.
       Inr (swap_running EVENT_LOOP_ID (unique_id x)
         (upd_task (top_task m) (\<lambda>x. x\<lparr>block_to := EVENT_LOOP_ID, finish_to := EVENT_LOOP_ID\<rparr>) m)))"

definition cocoflow_entry :: "nat \<Rightarrow> tid \<Rightarrow> machine \<Rightarrow> machine res" where
  "cocoflow_entry call tp m = check (call + 1 = 1) (cocoflow (m\<lparr>top_task := tp\<rparr>))"

end
