(* ===== verification/Scheduler_Stacks.thy ===== *)
theory Scheduler_Stacks
  imports Scheduler
begin

text \<open>
  The call stacks of the scheduler are well formed in every reachable state: each frame was
  called from a frame that makes that call, a suspended coroutine waits inside a switch, and the
  loop variables of \<open>all_of\<close>, \<open>any_of\<close> and \<open>__task_cancel_children\<close> stay in range
  (in particular none of the \<open>uint32\<close> counters is ever decremented below zero).
\<close>

section \<open>Well-formed stacks\<close>

text \<open>A frame in which a coroutine can be suspended: the switch was made inside it.\<close>

fun suspended :: "frame \<Rightarrow> bool" where
  "suspended (Y_swapped t) = True"
| "suspended S_swapped = True"
| "suspended (All_started t i count) = True"
| "suspended (Any_started t i) = True"
| "suspended (C_swapped t rest u) = True"
| "suspended _ = False"

text \<open>Who calls the \<open>run()\<close> of a task, its \<open>__task_yield\<close>, its \<open>__task_cancel_children\<close>.\<close>

fun calls_run :: "tid \<Rightarrow> frame list \<Rightarrow> bool" where
  "calls_run t (R_run t' # fs) = (t' = t)"
| "calls_run t (A_run p t' # fs) = (t' = t)"
| "calls_run t _ = False"

fun calls_yield :: "tid \<Rightarrow> frame list \<Rightarrow> bool" where
  "calls_yield t (E_yielded t' # fs) = (t' = t)"
| "calls_yield t (All_yielded t' c # fs) = (t' = t)"
| "calls_yield t (Any_yielded t' # fs) = (t' = t)"
| "calls_yield t (C_yielded t' u # fs) = (t' = t)"
| "calls_yield t _ = False"

fun calls_cancel :: "frame list \<Rightarrow> bool" where
  "calls_cancel (R_cancel t # fs) = True"
| "calls_cancel (A_cancel p t n # fs) = True"
| "calls_cancel (Y_cancel # fs) = True"
| "calls_cancel _ = False"

fun in_user :: "frame list \<Rightarrow> bool" where
  "in_user (U_body t acts ls # fs) = True"
| "in_user _ = False"

fun called_from :: "frame \<Rightarrow> frame list \<Rightarrow> bool" where
  "called_from (R_run t) fs = (fs = [])"
| "called_from (R_cancel t) fs = (fs = [])"
| "called_from (U_body t acts ls) fs = calls_run t fs"
| "called_from (A_run p t) fs = in_user fs"
| "called_from (A_cancel p t n) fs = in_user fs"
| "called_from (Y_swapped t) fs = calls_yield t fs"
| "called_from Y_cancel fs = (\<exists>t. calls_yield t fs)"
| "called_from S_swapped fs = in_user fs"
| "called_from (E_yielded t) fs = calls_run t fs"
| "called_from (All_started t i count) fs = calls_run t fs"
| "called_from (All_yielded t count) fs = calls_run t fs"
| "called_from (Any_started t i) fs = calls_run t fs"
| "called_from (Any_yielded t) fs = calls_run t fs"
| "called_from (C_swapped t rest u) fs = (calls_run t fs \<or> calls_cancel fs)"
| "called_from (C_yielded t u) fs = (calls_run t fs \<or> calls_cancel fs)"

text \<open>The loop variables, against the children of the task object (while it exists).\<close>

definition combinator :: "machine \<Rightarrow> tid \<Rightarrow> (tid list \<Rightarrow> bool) \<Rightarrow> bool" where
  "combinator m t P \<longleftrightarrow>
     t < length (tasks m) \<and>
     (\<forall>x. task_at m t = Some x \<longrightarrow>
        (\<exists>cs. (task_body x = All_of cs \<or> task_body x = Any_of cs) \<and> P cs))"

fun frame_ok :: "machine \<Rightarrow> frame \<Rightarrow> bool" where
  "frame_ok m (All_started t i count) =
     combinator m t (\<lambda>cs. i < length cs \<and> length cs - i \<le> count \<and> count \<le> length cs)"
| "frame_ok m (All_yielded t count) =
     combinator m t (\<lambda>cs. 0 < count \<and> count \<le> length cs)"
| "frame_ok m (Any_started t i) = combinator m t (\<lambda>cs. i < length cs)"
| "frame_ok m (Any_yielded t) = combinator m t (\<lambda>cs. True)"
| "frame_ok m (C_swapped t rest u) = combinator m t (\<lambda>cs. u + length rest < length cs)"
| "frame_ok m (C_yielded t u) = combinator m t (\<lambda>cs. 0 < u \<and> u \<le> length cs)"
| "frame_ok m _ = True"

fun wf_stack :: "machine \<Rightarrow> frame list \<Rightarrow> bool" where
  "wf_stack m [] = True"
| "wf_stack m (f # fs) = (frame_ok m f \<and> called_from f fs \<and> wf_stack m fs)"

definition saved_ok :: "machine \<Rightarrow> frame list \<Rightarrow> bool" where
  "saved_ok m fs \<longleftrightarrow> wf_stack m fs \<and> (fs = [] \<or> suspended (hd fs))"

definition wf_contexts :: "machine \<Rightarrow> bool" where
  "wf_contexts m \<longleftrightarrow> (\<forall>u. saved_ok m (contexts m u))"

definition wf_mid :: "machine \<Rightarrow> bool" where
  "wf_mid m \<longleftrightarrow> wf_contexts m \<and> wf_stack m (stack m)"

fun control_ok :: "control \<Rightarrow> frame list \<Rightarrow> bool" where
  "control_ok (Ret b) fs = True"
| "control_ok (Throw n) fs = (fs \<noteq> [] \<and> \<not> suspended (hd fs))"

definition wf_machine :: "machine \<Rightarrow> bool" where
  "wf_machine m \<longleftrightarrow>
     wf_mid m \<and> control_ok (control m) (stack m) \<and>
     (idle m \<longrightarrow> stack m = [] \<or> suspended (hd (stack m)))"

definition wf_result :: "machine res \<Rightarrow> bool" where
  "wf_result r \<longleftrightarrow> (case r of Inl e \<Rightarrow> True | Inr m \<Rightarrow> wf_machine m)"

section \<open>Task objects only age\<close>

text \<open>Objects are appended, deleted and updated, but the body of an object never changes.\<close>

definition ages :: "machine \<Rightarrow> machine \<Rightarrow> bool" where
  "ages m m' \<longleftrightarrow>
     length (tasks m) \<le> length (tasks m') \<and>
     (\<forall>t x'. t < length (tasks m) \<and> task_at m' t = Some x' \<longrightarrow>
        (\<exists>x. task_at m t = Some x \<and> task_body x = task_body x'))"

lemma ages_refl [simp, intro]: "ages m m"
  by (simp add: ages_def)

lemma agesD:
  assumes "ages m m'" "t < length (tasks m)" "task_at m' t = Some x'"
  obtains x where "task_at m t = Some x" "task_body x = task_body x'"
  using assms unfolding ages_def by blast

lemma ages_length: "ages m m' \<Longrightarrow> length (tasks m) \<le> length (tasks m')"
  by (simp add: ages_def)

lemma ages_trans [trans]:
  assumes "ages m m'" "ages m' m''"
  shows "ages m m''"
  unfolding ages_def
proof (intro conjI allI impI)
  show "length (tasks m) \<le> length (tasks m'')"
    using assms ages_length by (meson order_trans)
next
  fix t z assume z: "t < length (tasks m) \<and> task_at m'' t = Some z"
  then have "t < length (tasks m')"
    using ages_length [OF assms(1)] by simp
  then obtain y where "task_at m' t = Some y" "task_body y = task_body z"
    using agesD [OF assms(2)] z by blast
  then show "\<exists>x. task_at m t = Some x \<and> task_body x = task_body z"
    using agesD [OF assms(1)] z by metis
qed

lemma combinator_ages:
  assumes "combinator m t P" "ages m m'"
  shows "combinator m' t P"
  unfolding combinator_def
proof (intro conjI allI impI)
  have t: "t < length (tasks m)"
    using assms(1) by (simp add: combinator_def)
  then show "t < length (tasks m')"
    using ages_length [OF assms(2)] by simp
  fix x assume "task_at m' t = Some x"
  then obtain y where "task_at m t = Some y" "task_body y = task_body x"
    using agesD [OF assms(2) t] by blast
  then show "\<exists>cs. (task_body x = All_of cs \<or> task_body x = Any_of cs) \<and> P cs"
    using assms(1) unfolding combinator_def by metis
qed

lemma frame_ok_ages: "frame_ok m f \<Longrightarrow> ages m m' \<Longrightarrow> frame_ok m' f"
  by (cases f) (auto intro: combinator_ages)

lemma wf_stack_ages: "wf_stack m fs \<Longrightarrow> ages m m' \<Longrightarrow> wf_stack m' fs"
  by (induction fs) (auto intro: frame_ok_ages)

lemma wf_contexts_ages:
  "wf_contexts m \<Longrightarrow> ages m m' \<Longrightarrow> contexts m' = contexts m \<Longrightarrow> wf_contexts m'"
  by (auto simp: wf_contexts_def saved_ok_def intro: wf_stack_ages)

lemma wf_mid_ages:
  "wf_mid m \<Longrightarrow> ages m m' \<Longrightarrow> contexts m' = contexts m \<Longrightarrow> stack m' = stack m \<Longrightarrow> wf_mid m'"
  by (auto simp: wf_mid_def intro: wf_contexts_ages wf_stack_ages)

lemma ages_same_tasks: "tasks m' = tasks m \<Longrightarrow> ages m m'"
  by (simp add: ages_def task_at_def)

lemma task_at_upd_task:
  "task_at (upd_task t f m) s =
     (if s = t then map_option f (task_at m t) else task_at m s)"
  by (auto simp: upd_task_def task_at_def split: option.splits)

lemma length_tasks_upd [simp]: "length (tasks (upd_task t f m)) = length (tasks m)"
  by (simp add: upd_task_def split: option.splits)

lemma upd_task_fields [simp]:
  "contexts (upd_task t f m) = contexts m" "stack (upd_task t f m) = stack m"
  "manager (upd_task t f m) = manager m" "pools (upd_task t f m) = pools m"
  "current (upd_task t f m) = current m" "active (upd_task t f m) = active m"
  "signal_canceled (upd_task t f m) = signal_canceled m"
  "top_task (upd_task t f m) = top_task m" "control (upd_task t f m) = control m"
  "emitted (upd_task t f m) = emitted m"
  by (simp_all add: upd_task_def split: option.splits)

lemma ages_upd_task: "(\<And>x. task_body (f x) = task_body x) \<Longrightarrow> ages m (upd_task t f m)"
  by (auto simp: ages_def task_at_upd_task split: if_splits)

lemma wf_mid_upd_task:
  "wf_mid m \<Longrightarrow> (\<And>x. task_body (f x) = task_body x) \<Longrightarrow> wf_mid (upd_task t f m)"
  by (rule wf_mid_ages) (auto intro: ages_upd_task)

section \<open>The basic moves\<close>

lemma wf_result_simps [simp]:
  "wf_result (Inl e)" "wf_result (Inr m) = wf_machine m"
  by (simp_all add: wf_result_def)

lemma wf_result_with_task:
  "(\<And>x. task_at m t = Some x \<Longrightarrow> wf_result (k x)) \<Longrightarrow> wf_result (with_task m t k)"
  by (simp add: with_task_def split: option.splits)

lemma wf_result_bind:
  "(\<And>x. r = Inr x \<Longrightarrow> wf_result (k x)) \<Longrightarrow> wf_result (res_bind r k)"
  by (cases r) simp_all

lemma push_fields [simp]:
  "contexts (push f m) = contexts m" "stack (push f m) = f # stack m"
  "manager (push f m) = manager m" "pools (push f m) = pools m"
  "current (push f m) = current m" "active (push f m) = active m"
  "signal_canceled (push f m) = signal_canceled m" "top_task (push f m) = top_task m"
  "control (push f m) = control m" "emitted (push f m) = emitted m" "tasks (push f m) = tasks m"
  "idle (push f m) = idle m"
  by (simp_all add: push_def idle_def)

lemma task_at_push [simp]: "task_at (push f m) t = task_at m t"
  by (simp add: task_at_def)

lemma idle_upd_task [simp]: "idle (upd_task t f m) = idle m"
  by (simp add: idle_def)

lemma wf_mid_same:
  "wf_mid m \<Longrightarrow> tasks m' = tasks m \<Longrightarrow> contexts m' = contexts m \<Longrightarrow> stack m' = stack m \<Longrightarrow> wf_mid m'"
  by (rule wf_mid_ages) (auto intro: ages_same_tasks)

lemma wf_mid_push:
  assumes "wf_mid m" "frame_ok m f" "called_from f (stack m)"
  shows "wf_mid (push f m)"
proof -
  have a: "ages m (push f m)"
    by (simp add: ages_same_tasks)
  show ?thesis
    using assms wf_contexts_ages [OF _ a] wf_stack_ages [OF _ a] frame_ok_ages [OF _ a]
    by (simp add: wf_mid_def)
qed

lemma wf_ret: "wf_mid m \<Longrightarrow> \<not> idle m \<Longrightarrow> wf_machine (ret b m)"
  by (auto simp: wf_machine_def ret_def idle_def intro: wf_mid_same)

lemma wf_throw:
  "wf_mid m \<Longrightarrow> \<not> idle m \<Longrightarrow> stack m \<noteq> [] \<Longrightarrow> \<not> suspended (hd (stack m)) \<Longrightarrow>
   wf_machine (throw_canceled n m)"
  by (auto simp: wf_machine_def throw_canceled_def idle_def intro: wf_mid_same)

lemma wf_swap:
  assumes "wf_mid m" "stack m = [] \<or> suspended (hd (stack m))"
  shows "wf_machine (swap_running a b m)"
proof -
  let ?m = "swap_running a b m"
  have a: "ages m ?m"
    by (rule ages_same_tasks) (simp add: swap_running_def Let_def)
  have saved: "saved_ok ?m (contexts ?m u)" for u
    using assms wf_stack_ages [OF _ a]
    by (auto simp: swap_running_def Let_def wf_mid_def wf_contexts_def saved_ok_def)
  have "stack ?m = contexts ?m b" "control ?m = Ret True"
    by (simp_all add: swap_running_def Let_def)
  then show ?thesis
    using saved [of b] saved by (auto simp: wf_machine_def wf_mid_def wf_contexts_def saved_ok_def)
qed

lemma wf_yield:
  assumes "wf_mid m" "calls_yield t (stack m)"
  shows "wf_result (task_yield t m)"
  unfolding task_yield_def
  by (rule wf_result_with_task)
    (auto intro!: wf_swap wf_mid_push wf_mid_upd_task simp: assms)

lemma wf_start_child:
  "wf_mid m \<Longrightarrow> suspended (hd (stack m)) \<Longrightarrow> wf_result (task_start_child t c m)"
  unfolding task_start_child_def by (intro wf_result_with_task) (auto intro: wf_swap)

lemma combinator_mono:
  "combinator m t P \<Longrightarrow> (\<And>cs. P cs \<Longrightarrow> Q cs) \<Longrightarrow> combinator m t Q"
  unfolding combinator_def by blast

lemma combinator_upd [simp]:
  assumes "\<And>x. task_body (f x) = task_body x"
  shows "combinator (upd_task s f m) t P = combinator m t P"
  using assms by (auto simp: combinator_def task_at_upd_task)

lemma combinator_same:
  "tasks m' = tasks m \<Longrightarrow> combinator m' t P = combinator m t P"
  by (simp add: combinator_def task_at_def)

lemma combinator_push [simp]: "combinator (push f m) t P = combinator m t P"
  by (rule combinator_same) simp

lemma combinator_signal [simp]:
  "combinator (m\<lparr>signal_canceled := b\<rparr>) t P = combinator m t P"
  by (rule combinator_same) simp

section \<open>Canceling, all_of and any_of\<close>

lemma wf_cancel_wait:
  assumes "wf_mid m" "\<not> idle m" "combinator m t (\<lambda>cs. u \<le> length cs)"
    "calls_run t (stack m) \<or> calls_cancel (stack m)"
  shows "wf_result (cancel_wait t u m)"
proof (cases "u > 0")
  case True
  then have "frame_ok m (C_yielded t u)"
    using assms(3) by simp
  then have "wf_mid (push (C_yielded t u) m)"
    using assms by (intro wf_mid_push) simp_all
  then show ?thesis
    using True by (simp add: cancel_wait_def wf_yield)
next
  case False
  then show ?thesis
    using assms by (simp add: cancel_wait_def wf_ret)
qed

lemma wf_cancel_switch:
  assumes "wf_mid m" "combinator m t (\<lambda>cs. u + length (child # rest) \<le> length cs)"
    "calls_run t (stack m) \<or> calls_cancel (stack m)"
  shows "wf_result (task_start_child t child (push (C_swapped t rest u)
    (set_status child canceled (m\<lparr>signal_canceled := True\<rparr>))))"
proof (rule wf_start_child)
  let ?n = "set_status child canceled (m\<lparr>signal_canceled := True\<rparr>)"
  have "combinator m t (\<lambda>cs. u + length rest < length cs)"
    by (intro combinator_mono [OF assms(2)]) simp
  then have "frame_ok ?n (C_swapped t rest u)"
    by simp
  moreover have "wf_mid ?n"
    by (rule wf_mid_upd_task, rule wf_mid_same [OF assms(1)]) simp_all
  ultimately show "wf_mid (push (C_swapped t rest u) ?n)"
    using assms(3) by (intro wf_mid_push) simp_all
qed simp

lemma wf_cancel_children:
  assumes "wf_mid m" "\<not> idle m" "combinator m t (\<lambda>cs. u + length rest \<le> length cs)"
    "calls_run t (stack m) \<or> calls_cancel (stack m)"
  shows "wf_result (task_cancel_children t rest u m)"
  using assms
proof (induction t rest u m rule: task_cancel_children.induct)
  case (1 t u m)
  then show ?case
    by (auto intro!: wf_ret wf_cancel_wait wf_mid_upd_task)
next
  case (2 t child rest u m)
  have mono: "combinator m t (\<lambda>cs. v + length rest \<le> length cs)" if "v \<le> u + 1" for v
    using that by (intro combinator_mono [OF "2.prems"(3)]) simp
  note step = wf_cancel_switch [OF "2.prems"(1,3,4)]
  show ?case
    unfolding task_cancel_children.simps
  proof (rule wf_result_with_task)
    fix y assume y: "task_at m child = Some y"
    have skip: "wf_result (task_cancel_children t rest u m)" if "\<not> status_is y running"
      using "2.IH"(2) [OF that] "2.prems" mono [of u] by simp
    have final: "wf_result (task_cancel_children t rest (u + 1)
        (if fin \<noteq> child then set_status fin canceled m else m))"
      if "status_is y running" for fin
    proof (rule "2.IH"(1) [OF that(1) TrueI])
      show "wf_mid (if fin \<noteq> child then set_status fin canceled m else m)"
        using "2.prems"(1) by (auto intro: wf_mid_upd_task)
      show "combinator (if fin \<noteq> child then set_status fin canceled m else m) t
          (\<lambda>cs. u + 1 + length rest \<le> length cs)"
        using mono [of "u + 1"] by simp
    qed (use "2.prems" in auto)
    show "wf_result (if status_is y running
        then res_bind (find_final (length (tasks m)) m child)
          (\<lambda>(final, unint). if unint
            then task_cancel_children t rest (u + 1)
              (if final \<noteq> child then set_status final canceled m else m)
            else task_start_child t child (push (C_swapped t rest u)
              (set_status child canceled (m\<lparr>signal_canceled := True\<rparr>))))
        else task_cancel_children t rest u m)"
      using skip final step by (auto intro!: wf_result_bind)
  qed
qed

lemma combinator_all:
  "task_at m t = Some x \<Longrightarrow> task_body x = All_of cs \<Longrightarrow> combinator m t P \<longleftrightarrow> P cs"
  by (auto simp: combinator_def task_at_def split: if_splits)

lemma combinator_any:
  "task_at m t = Some x \<Longrightarrow> task_body x = Any_of cs \<Longrightarrow> combinator m t P \<longleftrightarrow> P cs"
  by (auto simp: combinator_def task_at_def split: if_splits)

lemma wf_link_children:
  "link_children i cs m = Inr (ok, m') \<Longrightarrow> wf_mid m \<Longrightarrow>
   wf_mid m' \<and> ages m m' \<and> stack m' = stack m \<and> idle m' = idle m \<and>
   (\<forall>t P. combinator m t P \<longrightarrow> combinator m' t P)"
proof (induction i cs m rule: link_children.induct)
  case (2 i c cs m)
  show ?case
  proof (cases "\<exists>y. task_at m c = Some y \<and> status_is y ready")
    case True
    let ?n = "upd_task c (\<lambda>y. y\<lparr>block_to := i, finish_to := i\<rparr>) m"
    have "link_children i cs ?n = Inr (ok, m')"
      using "2.prems"(1) True by (auto simp: with_task_def)
    moreover have "wf_mid ?n" "ages m ?n"
      using "2.prems"(2) by (auto intro: wf_mid_upd_task ages_upd_task)
    ultimately show ?thesis
      using "2.IH" True by (auto intro: ages_trans)
  next
    case False
    then show ?thesis
      using "2.prems" by (auto simp: with_task_def split: option.splits if_splits)
  qed
qed simp

lemma wf_all_of_wait:
  assumes "wf_mid m" "\<not> idle m" "combinator m t (\<lambda>cs. count \<le> length cs)"
    "calls_run t (stack m)"
  shows "wf_result (all_of_wait t count m)"
proof (cases "count > 0")
  case True
  then have "frame_ok m (All_yielded t count)"
    using assms(3) by simp
  then have "wf_mid (push (All_yielded t count) m)"
    using assms by (intro wf_mid_push) simp_all
  then show ?thesis
    using True by (simp add: all_of_wait_def wf_yield)
next
  case False
  then show ?thesis
    using assms by (simp add: all_of_wait_def wf_ret)
qed

lemma wf_all_of_start:
  assumes "wf_mid m" "\<not> idle m" "calls_run t (stack m)"
    "combinator m t (\<lambda>ds. ds = cs \<and> length cs - i \<le> count \<and> count \<le> length cs)"
  shows "wf_result (all_of_start t cs i count m)"
proof (cases "i < length cs")
  case True
  then have "frame_ok m (All_started t i count)"
    using assms(4) by (auto intro: combinator_mono)
  then have "wf_mid (push (All_started t i count) m)"
    using assms by (intro wf_mid_push) simp_all
  then show ?thesis
    using True by (simp add: all_of_start_def wf_start_child)
next
  case False
  have "combinator m t (\<lambda>cs. count \<le> length cs)"
    using assms(4) by (auto intro: combinator_mono)
  then show ?thesis
    using False assms by (simp add: all_of_start_def wf_all_of_wait)
qed

lemma wf_any_of_wait:
  assumes "wf_mid m" "\<not> idle m" "calls_run t (stack m)" "combinator m t (\<lambda>ds. ds = cs)"
  shows "wf_result (any_of_wait t cs m)"
  unfolding any_of_wait_def
proof (rule wf_result_with_task)
  fix x
  have "frame_ok m (Any_yielded t)"
    using assms(4) by (auto intro: combinator_mono)
  then have "wf_mid (push (Any_yielded t) m)"
    using assms by (intro wf_mid_push) simp_all
  then have 1: "wf_result (task_yield t (push (Any_yielded t) m))"
    by (simp add: wf_yield)
  have "combinator m t (\<lambda>ds. 0 + length cs \<le> length ds)"
    using assms(4) by (auto intro: combinator_mono)
  then have "wf_result (task_cancel_children t cs 0 m)"
    using assms by (intro wf_cancel_children) auto
  with 1 show "wf_result (if completed_id x = - 1 then task_yield t (push (Any_yielded t) m)
      else task_cancel_children t cs 0 m)"
    by simp
qed

lemma wf_any_of_start:
  assumes "wf_mid m" "\<not> idle m" "calls_run t (stack m)" "combinator m t (\<lambda>ds. ds = cs)"
  shows "wf_result (any_of_start t cs i m)"
proof (cases "i < length cs")
  case True
  then have "frame_ok m (Any_started t i)"
    using assms(4) by (auto intro: combinator_mono)
  then have "wf_mid (push (Any_started t i) m)"
    using assms by (intro wf_mid_push) simp_all
  then show ?thesis
    using True by (simp add: any_of_start_def wf_start_child)
next
  case False
  then show ?thesis
    using assms by (simp add: any_of_start_def wf_any_of_wait)
qed

lemma combinator_children:
  assumes "combinator m t P" "task_at m t = Some x"
  shows "P (children_of m t)" "combinator m t (\<lambda>ds. ds = children_of m t)"
  using assms by (auto simp: combinator_def children_of_def)

lemma wf_all_of_started:
  assumes "wf_mid m" "\<not> idle m" "calls_run t (stack m)" "frame_ok m (All_started t i count)"
    "task_at m t = Some x"
  shows "wf_result (all_of_started t (children_of m t) i count m)"
  unfolding all_of_started_def
proof (rule wf_result_with_task)
  let ?cs = "children_of m t"
  fix y
  have count: "i < length ?cs \<and> length ?cs - i \<le> count \<and> count \<le> length ?cs"
    using combinator_children(1) [OF _ assms(5)] assms(4) by simp
  have c: "combinator m t (\<lambda>ds. ds = ?cs \<and> length ?cs - (i + 1) \<le> n \<and> n \<le> length ?cs)"
    if "n = count \<or> n = count - 1" for n
  proof (rule combinator_mono)
    show "combinator m t (\<lambda>ds. ds = ?cs)"
      using combinator_children(2) [OF _ assms(5)] assms(4) by simp
  qed (use that count in auto)
  show "wf_result (if status_is y completed then all_of_start t ?cs (i + 1) (count - 1) m
      else all_of_start t ?cs (i + 1) count (upd_task (?cs ! i) (info_update task_set_all_any) m))"
    using assms(1-3) c by (auto intro!: wf_all_of_start wf_mid_upd_task)
qed

lemma wf_any_of_started:
  assumes "wf_mid m" "\<not> idle m" "calls_run t (stack m)" "frame_ok m (Any_started t i)"
    "task_at m t = Some x"
  shows "wf_result (any_of_started t (children_of m t) i m)"
  unfolding any_of_started_def
  using assms combinator_children(2) [OF _ assms(5)]
  by (auto intro!: wf_result_with_task wf_any_of_start wf_any_of_wait wf_mid_upd_task)

lemma wf_any_of_yielded:
  assumes "wf_mid m" "\<not> idle m" "calls_run t (stack m)" "frame_ok m (Any_yielded t)"
    "task_at m t = Some x"
  shows "wf_result (any_of_yielded t (children_of m t) m)"
proof -
  have "combinator m t (\<lambda>ds. 0 + length (children_of m t) \<le> length ds)"
    using combinator_children(2) [OF _ assms(5)] assms(4) by (auto intro: combinator_mono)
  then show ?thesis
    unfolding any_of_yielded_def using assms(1-3)
    by (auto intro!: wf_result_bind wf_cancel_children wf_mid_upd_task split: option.splits)
qed

lemma wf_all_of_run:
  assumes "wf_mid m" "\<not> idle m" "calls_run t (stack m)" "combinator m t (\<lambda>ds. ds = cs)"
  shows "wf_result (all_of_run t cs m)"
  unfolding all_of_run_def
proof (intro wf_result_with_task wf_result_bind, clarify)
  fix x ok m' assume "link_children (unique_id x) cs m = Inr (ok, m')"
  from wf_link_children [OF this assms(1)] assms(2-4)
  have m': "wf_mid m'" "\<not> idle m'" "calls_run t (stack m')"
    and "combinator m' t (\<lambda>ds. ds = cs)"
    by auto
  then have "combinator m' t (\<lambda>ds. ds = cs \<and> length cs - 0 \<le> length cs \<and> length cs \<le> length cs)"
    by simp
  then show "wf_result (if ok then all_of_start t cs 0 (length cs) m'
      else Inr (ret True (set_status t child_unready m')))"
    using m' by (auto intro!: wf_all_of_start wf_ret wf_mid_upd_task)
qed

lemma wf_any_of_run:
  assumes "wf_mid m" "\<not> idle m" "calls_run t (stack m)" "combinator m t (\<lambda>ds. ds = cs)"
  shows "wf_result (any_of_run t cs m)"
  unfolding any_of_run_def
proof (intro wf_result_with_task wf_result_bind, clarify)
  fix x ok m' assume "link_children (unique_id x) cs m = Inr (ok, m')"
  from wf_link_children [OF this assms(1)] assms(2-4)
  have "wf_mid m'" "\<not> idle m'" "calls_run t (stack m')" "combinator m' t (\<lambda>ds. ds = cs)"
    by auto
  then show "wf_result (if ok then any_of_start t cs 0 m'
      else Inr (ret True (set_status t child_unready m')))"
    by (auto intro!: wf_any_of_start wf_ret wf_mid_upd_task)
qed

section \<open>run, cancel, await, start\<close>

lemma wf_call_run:
  assumes "wf_mid m" "\<not> idle m" "calls_run t (stack m)"
  shows "wf_result (call_run t m)"
  unfolding call_run_def
proof (rule wf_result_with_task)
  fix x assume x: "task_at m t = Some x"
  have event: "wf_result (task_yield t (push (E_yielded t)
      (upd_task t (armed_update (\<lambda>_. True)) m)))"
    using assms by (intro wf_yield wf_mid_push wf_mid_upd_task) simp_all
  have user: "wf_machine (ret True (push (U_body t acts []) m))" for acts
    using assms by (intro wf_ret wf_mid_push) simp_all
  show "wf_result (case task_body x of
      User acts _ \<Rightarrow> Inr (ret True (push (U_body t acts []) m))
    | Sleep \<Rightarrow> task_yield t (push (E_yielded t) (upd_task t (armed_update (\<lambda>_. True)) m))
    | Send \<Rightarrow> task_yield t (push (E_yielded t) (upd_task t (armed_update (\<lambda>_. True)) m))
    | All_of cs \<Rightarrow> all_of_run t cs m
    | Any_of cs \<Rightarrow> any_of_run t cs m)"
    using event user wf_all_of_run [OF assms] wf_any_of_run [OF assms]
      combinator_all [OF x] combinator_any [OF x]
    by (simp split: body.splits)
qed

lemma wf_call_cancel:
  assumes "wf_mid m" "\<not> idle m" "calls_cancel (stack m)"
  shows "wf_result (call_cancel t m)"
  unfolding call_cancel_def
proof (rule wf_result_with_task)
  fix x assume x: "task_at m t = Some x"
  have "wf_machine (ret True (m\<lparr>emitted := out\<rparr>))" for out
    using assms by (intro wf_ret wf_mid_same [OF assms(1)]) (simp_all add: idle_def)
  moreover have "wf_machine (ret True (upd_task t (armed_update (\<lambda>_. False)) m))"
    using assms by (intro wf_ret wf_mid_upd_task) simp_all
  moreover have "wf_result (task_cancel_children t cs 0 m)"
    if "task_body x = All_of cs \<or> task_body x = Any_of cs" for cs
    using that assms combinator_all [OF x] combinator_any [OF x]
    by (intro wf_cancel_children) auto
  ultimately show "wf_result (case task_body x of
      User _ out \<Rightarrow> Inr (ret True (m\<lparr>emitted := emitted m @ out\<rparr>))
    | Sleep \<Rightarrow> Inr (ret True (upd_task t (armed_update (\<lambda>_. False)) m))
    | Send \<Rightarrow> Inl Check_failed
    | All_of cs \<Rightarrow> task_cancel_children t cs 0 m
    | Any_of cs \<Rightarrow> task_cancel_children t cs 0 m)"
    by (simp split: body.splits)
qed

text \<open>Only the tasks of a machine change; the stacks and the running coroutine stay.\<close>

definition keeps_stacks :: "machine \<Rightarrow> machine \<Rightarrow> bool" where
  "keeps_stacks m m' \<longleftrightarrow>
     ages m m' \<and> contexts m' = contexts m \<and> stack m' = stack m \<and> active m' = active m"

lemma keeps_stacks_refl [simp, intro]: "keeps_stacks m m"
  by (simp add: keeps_stacks_def)

lemma keeps_stacks_trans:
  "keeps_stacks m m' \<Longrightarrow> keeps_stacks m' m'' \<Longrightarrow> keeps_stacks m m''"
  by (auto simp: keeps_stacks_def intro: ages_trans)

lemma keeps_stacksD:
  assumes "keeps_stacks m m'"
  shows "wf_mid m \<Longrightarrow> wf_mid m'" "stack m' = stack m" "idle m' = idle m"
  using assms by (auto simp: keeps_stacks_def idle_def intro: wf_mid_ages)

lemma destruct_keeps: "destruct t m = Inr m' \<Longrightarrow> keeps_stacks m m'"
  by (auto simp: destruct_def with_task_def keeps_stacks_def ages_def task_at_def nth_list_update
      res_bind_eq_Inr
      split: option.splits if_splits)

lemma destruct_all_keeps: "destruct_all ts m = Inr m' \<Longrightarrow> keeps_stacks m m'"
proof (induction ts arbitrary: m)
  case (Cons t ts)
  then obtain m1 where "destruct t m = Inr m1" "destruct_all ts m1 = Inr m'"
    by (auto simp: res_bind_eq_Inr)
  then show ?case
    using Cons.IH destruct_keeps keeps_stacks_trans by blast
qed simp

lemma construct_keeps: "construct c b m = Inr m' \<Longrightarrow> keeps_stacks m m'"
  by (auto simp: construct_def Let_def check_eq_Inr keeps_stacks_def ages_def task_at_def nth_append
      split: option.splits if_splits)

lemma wf_await_task:
  assumes "wf_mid m" "\<not> idle m" "in_user (stack m)"
  shows "wf_result (await_task target m)"
proof (cases "current m")
  case None
  then show ?thesis by (simp add: await_task_def)
next
  case (Some parent)
  have run: "wf_result (call_run target (push (A_run parent target)
      ((upd_task parent (\<lambda>x. x\<lparr>reuse := Some target\<rparr>)
        (upd_task target (\<lambda>y. y\<lparr>block_to := b, finish_to := i, unique_id := i,
            info := task_set_status (info y) running\<rparr>)
          (upd_task parent (\<lambda>x. x\<lparr>block_to := EVENT_LOOP_ID\<rparr>) m)))
        \<lparr>current := Some target\<rparr>)))" (is "wf_result (call_run target (push ?f (?n\<lparr>current := _\<rparr>)))")
    for b i
  proof (rule wf_call_run)
    have "wf_mid ?n"
      using assms(1) by (intro wf_mid_upd_task) simp_all
    then have "wf_mid (?n\<lparr>current := Some target\<rparr>)"
      by (rule wf_mid_same) simp_all
    then show "wf_mid (push ?f (?n\<lparr>current := Some target\<rparr>))"
      using assms(3) by (intro wf_mid_push) simp_all
  qed (use assms(2) in \<open>simp_all add: idle_def\<close>)
  show ?thesis
    unfolding await_task_def Some option.case
    using assms(1,2) run by (auto intro!: wf_result_with_task wf_ret)
qed

lemma in_user_not_suspended: "in_user fs \<Longrightarrow> fs \<noteq> [] \<and> \<not> suspended (hd fs)"
  by (cases fs rule: in_user.cases) simp_all

lemma wf_await_done:
  assumes "wf_mid m" "\<not> idle m" "in_user (stack m)"
  shows "wf_result (await_done parent target m)"
proof -
  have 1: "wf_mid (m\<lparr>current := Some parent\<rparr>)"
    by (rule wf_mid_same [OF assms(1)]) simp_all
  have 2: "\<not> idle (m\<lparr>current := Some parent\<rparr>)"
    using assms(2) by (simp add: idle_def)
  show ?thesis
    unfolding await_done_def Let_def
    using in_user_not_suspended [OF assms(3)] 1 2
    by (auto intro!: wf_result_with_task wf_throw wf_ret wf_mid_upd_task)
qed

lemma wf_await_rethrow:
  assumes "wf_mid m" "\<not> idle m" "in_user (stack m)"
  shows "wf_result (await_rethrow parent target level m)"
proof -
  have "wf_mid (m\<lparr>current := Some parent\<rparr>)"
    by (rule wf_mid_same [OF assms(1)]) simp_all
  then show ?thesis
    unfolding await_rethrow_def
    using in_user_not_suspended [OF assms(3)] assms(2)
    by (auto intro!: wf_throw wf_mid_upd_task simp: idle_def)
qed

lemma wf_await_primitive:
  assumes "wf_mid m" "\<not> idle m" "in_user (stack m)"
  shows "wf_result (await_primitive target m)"
  unfolding await_primitive_def
proof (intro wf_result_with_task wf_result_bind, clarify)
  fix y p i
  have "wf_mid (m\<lparr>pools := (pools m)(task_class y := p)\<rparr>)"
    by (rule wf_mid_same [OF assms(1)]) simp_all
  then show "wf_result (await_task target (upd_task target (\<lambda>y. y\<lparr>unique_id := i\<rparr>)
      (m\<lparr>pools := (pools m)(task_class y := p)\<rparr>)))"
    using assms(2,3) by (auto intro!: wf_await_task wf_mid_upd_task simp: idle_def)
qed

lemma wf_start_primitive:
  assumes "wf_mid m" "\<not> idle m" "in_user (stack m)"
  shows "wf_result (start_primitive target m)"
proof (cases "current m")
  case None
  then show ?thesis by (simp add: start_primitive_def)
next
  case (Some parent)
  have "wf_result (res_bind (destruct target m) (\<lambda>m. Inr (ret False m)))"
    using assms by (auto intro!: wf_result_bind wf_ret dest!: destruct_keeps
        intro: keeps_stacksD simp: keeps_stacksD(3))
  moreover have "wf_machine (swap_running i j (push S_swapped (upd_task target
      (\<lambda>y. y\<lparr>block_to := b, finish_to := EVENT_LOOP_ID\<rparr>) m)))" for i j b
    using assms by (intro wf_swap wf_mid_push wf_mid_upd_task) simp_all
  ultimately show ?thesis
    unfolding start_primitive_def Some option.case
    by (auto intro!: wf_result_with_task)
qed

section \<open>The loop of a coroutine, user code\<close>

lemma wf_runtime_begin:
  assumes "wf_mid m" "\<not> idle m" "stack m = []"
  shows "wf_result (runtime_begin m)"
  unfolding runtime_begin_def
  using assms by (auto intro!: wf_result_with_task wf_call_run wf_mid_push wf_mid_upd_task
      split: option.splits)

lemma wf_runtime_finish:
  assumes "wf_mid m" "stack m = []"
  shows "wf_result (runtime_finish t m)"
  unfolding runtime_finish_def Let_def
proof (intro wf_result_with_task wf_result_bind)
  fix x m'
  let ?n = "if status_is x running then set_status t completed m else m"
  let ?o = "?n\<lparr>manager := (manager ?n)(active ?n := None)\<rparr>"
  assume r: "(if finish_to x = EVENT_LOOP_ID \<and> t \<noteq> top_task ?n then destruct t ?o
      else Inr ?n) = Inr m'"
  have n: "wf_mid ?n" "stack ?n = []"
    using assms by (auto intro: wf_mid_upd_task)
  have o: "wf_mid ?o" "stack ?o = []"
    using n(2) by (auto intro: wf_mid_same [OF n(1)])
  have "wf_mid m' \<and> stack m' = []"
  proof (cases "finish_to x = EVENT_LOOP_ID \<and> t \<noteq> top_task ?n")
    case True
    then have "destruct t ?o = Inr m'"
      using r by simp
    from destruct_keeps [OF this] show ?thesis
      using keeps_stacksD o by auto
  next
    case False
    then show ?thesis
      using r n by auto
  qed
  then show "wf_result (Inr (swap_running (active m') (runtime_next x) m'))"
    by (simp add: wf_swap)
qed

lemma wf_user_action:
  assumes "wf_mid m" "\<not> idle m" "calls_run t (stack m)"
  shows "wf_result (user_action t a rest locals m)"
proof -
  have p: "wf_mid (push (U_body t rest ls) m)" for ls
    using assms by (intro wf_mid_push) simp_all
  have new: "wf_result (res_bind (construct c b (push (U_body t rest ls) m)) (\<lambda>m. Inr (ret True m)))"
    for c b ls
  proof (rule wf_result_bind)
    fix m' assume "construct c b (push (U_body t rest ls) m) = Inr m'"
    from keeps_stacksD [OF construct_keeps [OF this]] show "wf_result (Inr (ret True m'))"
      using p assms(2) by (auto intro: wf_ret)
  qed
  have "wf_machine (ret True (push (U_body t rest locals) (m\<lparr>emitted := out\<rparr>)))" for out
    using assms by (intro wf_ret wf_mid_push wf_mid_same [OF assms(1)]) (simp_all add: idle_def)
  moreover have "wf_machine (ret True (push (U_body t rest locals)
      (upd_task t (info_update task_set_uninterruptable) m)))"
    using assms by (intro wf_ret wf_mid_push wf_mid_upd_task) simp_all
  moreover have "wf_result (await_primitive x (push (U_body t rest locals) m))"
    "wf_result (start_primitive x (push (U_body t rest locals) m))" for x
    using assms(2) p by (auto intro!: wf_await_primitive wf_start_primitive)
  ultimately show ?thesis
    using new unfolding user_action_def by (auto split: action.splits)
qed

section \<open>Every step\<close>

lemma calls_run_not_suspended: "calls_run t fs \<Longrightarrow> fs \<noteq> [] \<and> \<not> suspended (hd fs)"
  by (cases "(t, fs)" rule: calls_run.cases) simp_all

lemma calls_yield_not_suspended: "calls_yield t fs \<Longrightarrow> fs \<noteq> [] \<and> \<not> suspended (hd fs)"
  by (cases "(t, fs)" rule: calls_yield.cases) simp_all

lemma calls_cancel_not_suspended: "calls_cancel fs \<Longrightarrow> fs \<noteq> [] \<and> \<not> suspended (hd fs)"
  by (cases fs rule: calls_cancel.cases) simp_all

lemma wf_destruct_locals:
  assumes "wf_mid m" "\<not> idle m" "calls_run t (stack m)"
  shows "wf_result (res_bind (destruct_all ls m) (\<lambda>m. Inr (ret True m)))"
    "wf_result (res_bind (destruct_all ls m) (\<lambda>m. Inr (throw_canceled n m)))"
  using assms calls_run_not_suspended [OF assms(3)]
  by (auto intro!: wf_result_bind wf_ret wf_throw dest!: destruct_all_keeps
      intro: keeps_stacksD simp: keeps_stacksD(2,3))

lemma wf_resumed:
  assumes "wf_mid m" "\<not> idle m" "calls_yield t (stack m)"
  shows "wf_result (return_into b (Y_swapped t) m)"
proof -
  let ?n = "m\<lparr>signal_canceled := False\<rparr>"
  have n: "wf_mid ?n" "\<not> idle ?n"
    using assms(2) by (auto intro: wf_mid_same [OF assms(1)] simp: idle_def)
  have "wf_machine (throw_canceled 0 (set_status t canceled ?n))"
    using n calls_yield_not_suspended [OF assms(3)]
    by (intro wf_throw wf_mid_upd_task) simp_all
  moreover have "wf_result (call_cancel t (push Y_cancel ?n))"
    using n assms(3) by (intro wf_call_cancel wf_mid_push) auto
  ultimately show ?thesis
    using assms by (auto simp: Let_def intro!: wf_result_with_task wf_ret)
qed

lemma wf_return_into:
  assumes "wf_mid m" "\<not> idle m" "frame_ok m f" "called_from f (stack m)"
  shows "wf_result (return_into b f m)"
proof (cases f)
  case (U_body t acts ls)
  then show ?thesis
    using assms wf_destruct_locals(1) wf_user_action by (cases acts) auto
next
  case (Y_swapped t)
  then show ?thesis
    using assms wf_resumed by simp
next
  case (All_yielded t count)
  then have "combinator m t (\<lambda>cs. count - 1 \<le> length cs)"
    using assms(3) by (auto intro: combinator_mono)
  then show ?thesis
    using All_yielded assms by (auto intro: wf_all_of_wait wf_ret)
next
  case (C_yielded t u)
  then have "combinator m t (\<lambda>cs. u - 1 \<le> length cs)"
    using assms(3) by (auto intro: combinator_mono)
  then show ?thesis
    using C_yielded assms by (auto simp: check_def intro: wf_cancel_wait)
next
  case (C_swapped t rest u)
  then have "combinator m t (\<lambda>cs. u + length rest \<le> length cs)"
    using assms(3) by (auto intro: combinator_mono)
  then show ?thesis
    using C_swapped assms by (auto intro: wf_cancel_children)
qed (use assms in \<open>auto intro!: wf_ret wf_runtime_finish wf_await_done wf_await_rethrow
    wf_result_with_task intro: wf_all_of_started wf_any_of_started wf_any_of_yielded\<close>)

lemma wf_throw_into:
  assumes "wf_mid m" "\<not> idle m" "frame_ok m f" "called_from f (stack m)"
    "\<not> suspended f" "control m = Throw n"
  shows "wf_result (throw_into n f m)"
proof -
  have leave: "wf_machine m" if "stack m \<noteq> [] \<and> \<not> suspended (hd (stack m))"
    using that assms(1,2,6) by (simp add: wf_machine_def)
  show ?thesis
    using assms leave calls_run_not_suspended calls_yield_not_suspended
      calls_cancel_not_suspended in_user_not_suspended wf_destruct_locals(2)
    by (cases f) (auto intro!: wf_call_cancel wf_mid_push wf_mid_upd_task)
qed

lemma wf_step:
  assumes "wf_machine m" "\<not> idle m" "step m = Inr m'"
  shows "wf_machine m'"
proof (cases "stack m")
  case Nil
  then have "wf_result (step m)"
    using assms(1,2) by (simp add: step_def wf_runtime_begin wf_machine_def)
  then show ?thesis
    using assms(3) by simp
next
  case (Cons f fs)
  let ?n = "m\<lparr>stack := fs\<rparr>"
  have mid: "wf_contexts m" "wf_stack m (f # fs)"
    using assms(1) Cons by (simp_all add: wf_machine_def wf_mid_def)
  have a: "ages m ?n"
    by (rule ages_same_tasks) simp
  have n: "wf_mid ?n" "\<not> idle ?n" "frame_ok ?n f" "called_from f (stack ?n)"
    using mid assms(2) wf_contexts_ages [OF _ a] wf_stack_ages [OF _ a] frame_ok_ages [OF _ a]
    by (auto simp: wf_mid_def idle_def)
  have "wf_result (step m)"
  proof (cases "control m")
    case (Ret b)
    then show ?thesis
      using Cons wf_return_into [OF n] by (simp add: step_def)
  next
    case (Throw k)
    then have "\<not> suspended f"
      using assms(1) Cons by (simp add: wf_machine_def)
    then show ?thesis
      using Throw Cons wf_throw_into [OF n] by (simp add: step_def)
  qed
  then show ?thesis
    using assms(3) by simp
qed

lemma wf_fire:
  assumes "wf_machine m" "idle m" "fire t m = Inr m'"
  shows "wf_machine m'"
proof -
  have "wf_mid m" "stack m = [] \<or> suspended (hd (stack m))"
    using assms(1,2) by (auto simp: wf_machine_def)
  then have "wf_result (fire t m)"
    unfolding fire_def task_stand_def
    by (intro wf_result_with_task) (auto intro!: wf_swap wf_mid_upd_task)
  then show ?thesis
    using assms(3) by simp
qed

section \<open>Reachable states\<close>

text \<open>
  A machine before \<open>cocoflow\<close> is called: no coroutine has run. From there, \<open>cocoflow\<close>
  switches to the top task, the running coroutine makes its steps, and when the event loop has
  control it may report any event some task has asked for.
\<close>

definition booting :: "machine \<Rightarrow> bool" where
  "booting m \<longleftrightarrow> stack m = [] \<and> active m = EVENT_LOOP_ID \<and> contexts m = (\<lambda>_. [])"

inductive reach :: "machine \<Rightarrow> machine \<Rightarrow> bool" for m\<^sub>0 :: machine where
  reach_boot: "cocoflow m\<^sub>0 = Inr m \<Longrightarrow> reach m\<^sub>0 m"
| reach_step: "reach m\<^sub>0 m \<Longrightarrow> \<not> idle m \<Longrightarrow> step m = Inr m' \<Longrightarrow> reach m\<^sub>0 m'"
| reach_fire: "reach m\<^sub>0 m \<Longrightarrow> idle m \<Longrightarrow> task_at m t = Some x \<Longrightarrow> armed x \<Longrightarrow>
    fire t m = Inr m' \<Longrightarrow> reach m\<^sub>0 m'"

lemma wf_boot:
  assumes "booting m" "cocoflow m = Inr m'"
  shows "wf_machine m'"
proof -
  have "wf_mid m" "stack m = []"
    using assms(1) by (auto simp: booting_def wf_mid_def wf_contexts_def saved_ok_def)
  then have "wf_result (cocoflow m)"
    unfolding cocoflow_def by (intro wf_result_with_task) (auto intro!: wf_swap wf_mid_upd_task)
  then show ?thesis
    using assms(2) by simp
qed

text \<open>
  C1: in every state the scheduler reaches, whatever the user tasks do and in whatever order
  events arrive, every coroutine's call stack is well formed: each frame sits on the call that
  made it, every suspended coroutine is inside a switch, a cancellation exception is never
  thrown into a frame that is suspended or out of a coroutine's stack, and the counters of
  \<open>all_of\<close> and \<open>__task_cancel_children\<close> are within the number of children (so none of them
  wraps below zero).
\<close>

theorem stacks_well_formed:
  assumes "booting m\<^sub>0" "reach m\<^sub>0 m"
  shows "wf_machine m"
  using assms(2)
proof induction
  case (reach_boot m)
  then show ?case using wf_boot assms(1) by blast
next
  case (reach_step m m')
  then show ?case using wf_step by blast
next
  case (reach_fire m t x m')
  then show ?case using wf_fire by blast
qed

end
