(* ===== verification/Scheduler_Runs.thy ===== *)
theory Scheduler_Runs
  imports Scheduler_Stacks
begin

text \<open>
  Executions of the scheduler, and what the combinators guarantee: \<open>all_of\<close> returns when the
  last of its children has completed, in whatever order they do; \<open>any_of\<close> returns when the
  first one has, after it canceled the others.
\<close>

section \<open>Executions\<close>

inductive runs :: "machine \<Rightarrow> machine \<Rightarrow> bool" where
  runs_refl: "runs m m"
| runs_step: "\<not> idle m \<Longrightarrow> step m = Inr m' \<Longrightarrow> runs m' m'' \<Longrightarrow> runs m m''"

lemma runs_trans [trans]: "runs m m' \<Longrightarrow> runs m' m'' \<Longrightarrow> runs m m''"
  by (induction rule: runs.induct) (auto intro: runs.intros)

text \<open>A given number of steps, or fewer if the event loop gets control before.\<close>

fun steps :: "nat \<Rightarrow> machine \<Rightarrow> machine res" where
  "steps 0 m = Inr m"
| "steps (Suc n) m = (if idle m then Inr m else res_bind (step m) (steps n))"

lemma steps_runs: "steps n m = Inr m' \<Longrightarrow> runs m m'"
  by (induction n arbitrary: m) (auto simp: res_bind_eq_Inr intro: runs.intros split: if_splits)

lemma steps_numeral:
  "steps (numeral k) m = (if idle m then Inr m else res_bind (step m) (steps (pred_numeral k)))"
  by (simp only: numeral_eq_Suc steps.simps)

lemma run_until_idle_runs:
  "run_until_idle n m = Some (Inr m') \<Longrightarrow> runs m m' \<and> idle m'"
  by (induction n arbitrary: m)
    (auto intro: runs.intros split: if_splits sum.splits)

lemma reach_runs: "runs m m' \<Longrightarrow> reach m\<^sub>0 m \<Longrightarrow> reach m\<^sub>0 m'"
  by (induction rule: runs.induct) (auto intro: reach.intros)

lemma task_atD: "task_at m t = Some x \<Longrightarrow> t < length (tasks m) \<and> tasks m ! t = Some x"
  by (simp add: task_at_def split: if_splits)

lemma upd_task_at:
  "task_at m t = Some x \<Longrightarrow> upd_task t f m = m\<lparr>tasks := (tasks m)[t := Some (f x)]\<rparr>"
  by (simp add: upd_task_def)

lemma with_task_at: "task_at m t = Some x \<Longrightarrow> with_task m t k = k x"
  by (simp add: with_task_def)

lemma task_at_tasks_update:
  "task_at (m\<lparr>tasks := ts\<rparr>) t = (if t < length ts then ts ! t else None)"
  by (simp add: task_at_def)

lemmas sched_unfold =
  step_def swap_running_def Let_def ret_def push_def idle_def with_task_def upd_task_def
  task_at_def nth_list_update runtime_finish_def runtime_next_def task_yield_def
  task_start_child_def call_run_def runtime_begin_def steps_numeral

section \<open>Sleeping children\<close>

text \<open>
  Child \<open>c\<close> of the task that runs in coroutine \<open>u\<close> sleeps: it waits in its own coroutine for
  the event it asked for, and will switch to \<open>u\<close> when it is done.
\<close>

definition sleeper :: "uid \<Rightarrow> task \<Rightarrow> bool" where
  "sleeper u y \<longleftrightarrow> task_body y = Sleep \<and> reuse y = None \<and>
     \<not> task_is_uninterruptable (info y) \<and> finish_to y = u \<and>
     u \<noteq> EVENT_LOOP_ID \<and> unique_id y \<noteq> EVENT_LOOP_ID \<and> unique_id y \<noteq> u"

definition asleep :: "machine \<Rightarrow> uid \<Rightarrow> tid \<Rightarrow> bool" where
  "asleep m u c \<longleftrightarrow> (\<exists>y. task_at m c = Some y \<and> sleeper u y \<and> status_is y running \<and> armed y \<and>
     contexts m (unique_id y) = [Y_swapped c, E_yielded c, R_run c])"

definition finished :: "machine \<Rightarrow> task_status \<Rightarrow> tid \<Rightarrow> bool" where
  "finished m st c \<longleftrightarrow> (\<exists>y. task_at m c = Some y \<and> status_is y st \<and> \<not> armed y)"

lemma task_at_cong: "tasks m' = tasks m \<Longrightarrow> task_at m' = task_at m"
  by (auto simp: task_at_def)

lemma asleep_keep:
  assumes "asleep m u c" "task_at m' c = task_at m c"
    "\<And>y. task_at m c = Some y \<Longrightarrow> unique_id y \<noteq> u \<Longrightarrow> unique_id y \<noteq> EVENT_LOOP_ID \<Longrightarrow>
       contexts m' (unique_id y) = contexts m (unique_id y)"
  shows "asleep m' u c"
  using assms by (auto simp: asleep_def sleeper_def)

lemma finished_keep: "finished m st c \<Longrightarrow> task_at m' c = task_at m c \<Longrightarrow> finished m' st c"
  by (simp add: finished_def)

text \<open>The event of a sleeping child: it completes and hands over to coroutine \<open>u\<close>.\<close>

lemma fire_sleeper:
  assumes "task_at m c = Some y" "sleeper u y" "status_is y running"
    "contexts m (unique_id y) = [Y_swapped c, E_yielded c, R_run c]" "\<not> signal_canceled m"
  shows "\<exists>m1. fire c m = Inr m1 \<and> runs m1
    (m\<lparr>tasks := (tasks m)[c := Some (info_update (\<lambda>i. task_set_status i completed)
         (y\<lparr>armed := False\<rparr>))],
       contexts := (contexts m)(EVENT_LOOP_ID := stack m, unique_id y := []),
       active := u, stack := contexts m u, control := Ret True, current := manager m u\<rparr>)"
    (is "\<exists>m1. _ \<and> runs m1 ?m'")
proof -
  let ?m1 = "swap_running EVENT_LOOP_ID (unique_id y) (upd_task c (armed_update (\<lambda>_. False)) m)"
  have "steps 3 ?m1 = Inr ?m'"
    using assms task_atD [OF assms(1)] by (auto simp: sched_unfold sleeper_def)
  moreover have "fire c m = Inr ?m1"
    using assms(1) task_atD [OF assms(1)]
    by (simp add: fire_def task_stand_def with_task_def task_at_upd_task)
  ultimately show ?thesis
    using steps_runs by blast
qed

section \<open>Waiting for the children\<close>

text \<open>
  A combinator waits: task \<open>t\<close> of coroutine \<open>u\<close>, with the children \<open>S\<close> still asleep and
  the others completed. In \<open>waits_all_of\<close> it is an \<open>all_of\<close>, called from \<open>rest\<close>.
\<close>

definition ids_apart :: "machine \<Rightarrow> tid set \<Rightarrow> bool" where
  "ids_apart m S \<longleftrightarrow>
     (\<forall>c d x y. c \<in> S \<and> d \<in> S \<and> c \<noteq> d \<and> task_at m c = Some x \<and> task_at m d = Some y \<longrightarrow>
        unique_id x \<noteq> unique_id y)"

definition in_combinator ::
  "machine \<Rightarrow> uid \<Rightarrow> tid \<Rightarrow> body \<Rightarrow> tid list \<Rightarrow> tid set \<Rightarrow> bool" where
  "in_combinator m u t b cs S \<longleftrightarrow>
     \<not> signal_canceled m \<and> b \<noteq> Sleep \<and>
     (\<exists>x. task_at m t = Some x \<and> task_body x = b \<and> unique_id x = u \<and>
        block_to x = EVENT_LOOP_ID) \<and>
     (\<forall>c \<in> S. asleep m u c) \<and> (\<forall>c \<in> set cs - S. finished m completed c) \<and>
     ids_apart m S \<and> S \<subseteq> set cs \<and> contexts m EVENT_LOOP_ID = []"

text \<open>The coroutine of a combinator gets control back because child \<open>c\<close> completed.\<close>

lemma combinator_resumed:
  assumes "in_combinator m u t b cs S" "c \<in> S" "stack m = []"
  obtains m1 m2 where "fire c m = Inr m1" "runs m1 m2" "in_combinator m2 u t b cs (S - {c})"
    "active m2 = u" "control m2 = Ret True" "u \<noteq> EVENT_LOOP_ID" "stack m2 = contexts m u"
    "task_at m2 t = task_at m t"
proof -
  obtain y where y: "task_at m c = Some y" "sleeper u y" "status_is y running"
      "contexts m (unique_id y) = [Y_swapped c, E_yielded c, R_run c]" "\<not> signal_canceled m"
    using assms by (auto simp: in_combinator_def asleep_def)
  define m2 where "m2 = m\<lparr>tasks := (tasks m)[c := Some (info_update
         (\<lambda>i. task_set_status i completed) (y\<lparr>armed := False\<rparr>))],
       contexts := (contexts m)(EVENT_LOOP_ID := stack m, unique_id y := []),
       active := u, stack := contexts m u, control := Ret True, current := manager m u\<rparr>"
  obtain m1 where m1: "fire c m = Inr m1" "runs m1 m2"
    using fire_sleeper [OF y] unfolding m2_def by blast
  have at: "task_at m2 d = (if d = c then Some (info_update (\<lambda>i. task_set_status i completed)
         (y\<lparr>armed := False\<rparr>)) else task_at m d)" for d
    using task_atD [OF y(1)] by (auto simp: task_at_def m2_def)
  have m2: "contexts m2 = (contexts m)(EVENT_LOOP_ID := stack m, unique_id y := [])"
    "active m2 = u" "stack m2 = contexts m u" "control m2 = Ret True"
    "signal_canceled m2 = signal_canceled m"
    by (simp_all add: m2_def)
  have u: "u \<noteq> EVENT_LOOP_ID" "unique_id y \<noteq> EVENT_LOOP_ID"
    using y(2) by (simp_all add: sleeper_def)
  have "asleep m2 u d" if "d \<in> S - {c}" for d
  proof (rule asleep_keep)
    show "asleep m u d"
      using assms(1) that by (simp add: in_combinator_def)
    fix z assume "task_at m d = Some z" "unique_id z \<noteq> EVENT_LOOP_ID"
    moreover from this have "unique_id z \<noteq> unique_id y"
      using assms that y(1) unfolding in_combinator_def ids_apart_def by blast
    ultimately show "contexts m2 (unique_id z) = contexts m (unique_id z)"
      by (simp add: m2)
  qed (use that in \<open>simp add: at\<close>)
  moreover have "finished m2 completed d" if "d \<in> set cs - (S - {c})" for d
    using assms(1) that by (auto simp: in_combinator_def finished_def at)
  moreover have "ids_apart m2 (S - {c})"
    using assms(1) by (auto simp: in_combinator_def ids_apart_def at)
  moreover have t: "t \<noteq> c"
    using assms(1) y(1,2) by (auto simp: in_combinator_def sleeper_def)
  ultimately have "in_combinator m2 u t b cs (S - {c})"
    using assms(1,3) u by (auto simp: in_combinator_def at m2)
  then show ?thesis
    using that m1 t u(1) by (simp add: m2 at)
qed

lemma in_combinator_same:
  assumes "in_combinator m u t b cs S" "tasks m' = tasks m"
    "signal_canceled m' = signal_canceled m" "u \<noteq> EVENT_LOOP_ID"
    "\<And>v. v \<noteq> u \<Longrightarrow> contexts m' v = contexts m v"
  shows "in_combinator m' u t b cs S"
proof -
  have at: "task_at m' = task_at m"
    by (rule task_at_cong [OF assms(2)])
  have "asleep m' u c" if "c \<in> S" for c
  proof (rule asleep_keep)
    show "asleep m u c"
      using assms(1) that by (simp add: in_combinator_def)
  qed (simp_all add: at assms(5))
  then show ?thesis
    using assms by (auto simp: in_combinator_def finished_def ids_apart_def at)
qed

definition waits_all_of ::
  "machine \<Rightarrow> uid \<Rightarrow> tid \<Rightarrow> tid list \<Rightarrow> tid set \<Rightarrow> frame list \<Rightarrow> bool" where
  "waits_all_of m u t cs S rest \<longleftrightarrow>
     in_combinator m u t (All_of cs) cs S \<and> idle m \<and> stack m = [] \<and>
     contexts m u = Y_swapped t # All_yielded t (card S) # rest"

lemma in_combinator_finite: "in_combinator m u t b cs S \<Longrightarrow> finite S"
  unfolding in_combinator_def by (meson List.finite_set finite_subset)

lemma all_of_yield_again:
  assumes "in_combinator m u t (All_of cs) cs S" "active m = u" "u \<noteq> EVENT_LOOP_ID" "S \<noteq> {}"
    "stack m = Y_swapped t # All_yielded t (Suc (card S)) # rest" "control m = Ret b"
  obtains m' where "runs m m'" "waits_all_of m' u t cs S rest"
proof -
  obtain x where x: "task_at m t = Some x" "task_body x = All_of cs" "unique_id x = u"
      "block_to x = EVENT_LOOP_ID" "\<not> signal_canceled m" "contexts m EVENT_LOOP_ID = []"
    using assms(1) by (auto simp: in_combinator_def)
  have "card S > 0"
    using assms(4) in_combinator_finite [OF assms(1)] by (simp add: card_gt_0_iff)
  have x': "x\<lparr>block_to := EVENT_LOOP_ID\<rparr> = x"
    using x(4) by simp
  define m' where "m' = m\<lparr>contexts := (contexts m)(u := Y_swapped t # All_yielded t (card S) # rest),
     active := EVENT_LOOP_ID, stack := [], control := Ret True, current := None\<rparr>"
  have "steps 2 m = Inr m'"
    using assms x task_atD [OF x(1)] \<open>card S > 0\<close> x'
    by (simp add: sched_unfold all_of_wait_def m'_def list_update_same_conv)
  then have "runs m m'"
    by (rule steps_runs)
  moreover have "in_combinator m' u t (All_of cs) cs S"
    by (rule in_combinator_same [OF assms(1)]) (simp_all add: m'_def assms(3))
  then have "waits_all_of m' u t cs S rest"
    by (simp add: waits_all_of_def m'_def idle_def)
  ultimately show ?thesis
    using that by blast
qed

lemma all_of_next:
  assumes "waits_all_of m u t cs S rest" "c \<in> S" "S - {c} \<noteq> {}"
  obtains m1 m2 where "fire c m = Inr m1" "runs m1 m2" "waits_all_of m2 u t cs (S - {c}) rest"
proof -
  have w: "in_combinator m u t (All_of cs) cs S" "stack m = []"
      "contexts m u = Y_swapped t # All_yielded t (card S) # rest"
    using assms(1) by (auto simp: waits_all_of_def)
  obtain m1 m2 where m12: "fire c m = Inr m1" "runs m1 m2"
    "in_combinator m2 u t (All_of cs) cs (S - {c})" "active m2 = u" "control m2 = Ret True"
    "u \<noteq> EVENT_LOOP_ID" "stack m2 = contexts m u"
    by (rule combinator_resumed [OF w(1) assms(2) w(2)])
  then have "stack m2 = Y_swapped t # All_yielded t (Suc (card (S - {c}))) # rest"
    using card_Suc_Diff1 [OF in_combinator_finite [OF w(1)] assms(2)] w(3) by simp
  then obtain m3 where "runs m2 m3" "waits_all_of m3 u t cs (S - {c}) rest"
    using all_of_yield_again [OF m12(3,4,6) assms(3)] m12(5) by metis
  then show ?thesis
    using that m12(1,2) runs_trans by blast
qed

lemma all_of_last:
  assumes "waits_all_of m u t cs {c} rest"
  obtains m1 m2 where "fire c m = Inr m1" "runs m1 m2" "active m2 = u" "stack m2 = rest"
    "control m2 = Ret True" "\<forall>d \<in> set cs. finished m2 completed d"
proof -
  have w: "in_combinator m u t (All_of cs) cs {c}" "stack m = []"
      "contexts m u = [Y_swapped t, All_yielded t 1] @ rest"
    using assms by (auto simp: waits_all_of_def)
  obtain m1 m2 where m12: "fire c m = Inr m1" "runs m1 m2"
    "in_combinator m2 u t (All_of cs) cs ({c} - {c})" "active m2 = u" "control m2 = Ret True"
    "u \<noteq> EVENT_LOOP_ID" "stack m2 = contexts m u"
    by (rule combinator_resumed [OF w(1) _ w(2)]) simp
  let ?m3 = "m2\<lparr>stack := rest, control := Ret True\<rparr>"
  have "steps 2 m2 = Inr ?m3"
    using m12 w(3) by (simp add: sched_unfold all_of_wait_def in_combinator_def)
  then have "runs m1 ?m3"
    using m12(2) runs_trans steps_runs by blast
  moreover have "finished ?m3 completed d" if "d \<in> set cs" for d
  proof (rule finished_keep)
    show "finished m2 completed d"
      using m12(3) that by (simp add: in_combinator_def)
  qed (simp add: task_at_def)
  ultimately show ?thesis
    using that m12(1,4) by simp
qed

section \<open>Starting the children\<close>

text \<open>A child that sleeps when it is started, before and after it was linked to coroutine \<open>u\<close>.\<close>

definition startable :: "machine \<Rightarrow> uid \<Rightarrow> tid \<Rightarrow> bool" where
  "startable m u c \<longleftrightarrow> (\<exists>y. task_at m c = Some y \<and> sleeper u (y\<lparr>finish_to := u\<rparr>) \<and>
     status_is y ready \<and> contexts m (unique_id y) = [] \<and> manager m (unique_id y) = Some c)"

definition linked :: "machine \<Rightarrow> uid \<Rightarrow> tid \<Rightarrow> bool" where
  "linked m u c \<longleftrightarrow> startable m u c \<and>
     (\<exists>y. task_at m c = Some y \<and> finish_to y = u \<and> block_to y = u)"

text \<open>Switching to such a child: it asks for its event and switches back.\<close>

definition child_asleep :: "tid \<Rightarrow> task \<Rightarrow> frame \<Rightarrow> uid \<Rightarrow> machine \<Rightarrow> machine" where
  "child_asleep c y f u m =
     m\<lparr>tasks := (tasks m)[c := Some ((info_update (\<lambda>i. task_set_status i running) y)
          \<lparr>armed := True, block_to := EVENT_LOOP_ID\<rparr>)],
       contexts := (contexts m)(u := f # stack m,
          unique_id y := [Y_swapped c, E_yielded c, R_run c]),
       active := u, stack := f # stack m, control := Ret True, current := manager m u\<rparr>"

lemma start_sleeper:
  assumes "task_at m t = Some x" "unique_id x = u" "active m = u"
    "task_at m c = Some y" "sleeper u y" "status_is y ready" "block_to y = u"
    "contexts m (unique_id y) = []" "manager m (unique_id y) = Some c"
  shows "\<exists>m1. task_start_child t c (push f m) = Inr m1 \<and> runs m1 (child_asleep c y f u m)"
proof -
  note y = assms(5) [unfolded sleeper_def] task_atD [OF assms(4)]
  let ?m1 = "m\<lparr>contexts := (contexts m)(u := f # stack m), active := unique_id y, stack := [],
    control := Ret True, current := Some c\<rparr>"
  have "task_start_child t c (push f m) = Inr ?m1"
    using assms y by (auto simp: task_start_child_def with_task_def swap_running_def Let_def)
  moreover have "steps 1 ?m1 = Inr (child_asleep c y f u m)"
    using assms y by (auto simp: sched_unfold child_asleep_def fun_upd_twist)
  ultimately show ?thesis
    using steps_runs by blast
qed

lemma child_asleep_fields [simp]:
  "active (child_asleep c y f u m) = u" "stack (child_asleep c y f u m) = f # stack m"
  "control (child_asleep c y f u m) = Ret True" "manager (child_asleep c y f u m) = manager m"
  "signal_canceled (child_asleep c y f u m) = signal_canceled m"
  "contexts (child_asleep c y f u m) = (contexts m)(u := f # stack m,
     unique_id y := [Y_swapped c, E_yielded c, R_run c])"
  by (simp_all add: child_asleep_def)

lemma child_asleep_at:
  "task_at m c = Some y \<Longrightarrow> task_at (child_asleep c y f u m) d =
     (if d = c then Some ((info_update (\<lambda>i. task_set_status i running) y)
        \<lparr>armed := True, block_to := EVENT_LOOP_ID\<rparr>) else task_at m d)"
  by (auto simp: child_asleep_def task_at_def split: if_splits)

lemma startable_keep:
  assumes "startable m u c" "task_at m' c = task_at m c" "manager m' = manager m"
    "\<And>y. task_at m c = Some y \<Longrightarrow> unique_id y \<noteq> u \<Longrightarrow> unique_id y \<noteq> EVENT_LOOP_ID \<Longrightarrow>
       contexts m' (unique_id y) = contexts m (unique_id y)"
  shows "startable m' u c"
  using assms by (auto simp: startable_def sleeper_def)

lemma linked_keep:
  assumes "linked m u c" "task_at m' c = task_at m c" "manager m' = manager m"
    "\<And>y. task_at m c = Some y \<Longrightarrow> unique_id y \<noteq> u \<Longrightarrow> unique_id y \<noteq> EVENT_LOOP_ID \<Longrightarrow>
       contexts m' (unique_id y) = contexts m (unique_id y)"
  shows "linked m' u c"
  using assms(1,2) startable_keep [OF _ assms(2-4)] by (auto simp: linked_def)

lemma link_startable:
  assumes "\<forall>c \<in> set cs. startable m u c" "distinct cs" "\<forall>c \<in> set ds. linked m u c"
    "set cs \<inter> set ds = {}"
  obtains m' where "link_children u cs m = Inr (True, m')" "\<forall>c \<in> set cs \<union> set ds. linked m' u c"
    "\<And>d. d \<notin> set cs \<Longrightarrow> task_at m' d = task_at m d"
    "\<And>d. map_option unique_id (task_at m' d) = map_option unique_id (task_at m d)"
    "contexts m' = contexts m" "manager m' = manager m" "stack m' = stack m" "active m' = active m"
    "signal_canceled m' = signal_canceled m"
  using assms
proof (induction cs arbitrary: m ds thesis)
  case Nil
  show ?case
    by (rule Nil(1) [of m]) (use Nil(4) in auto)
next
  case (Cons c cs)
  obtain y where y: "task_at m c = Some y" "sleeper u (y\<lparr>finish_to := u\<rparr>)" "status_is y ready"
      "contexts m (unique_id y) = []" "manager m (unique_id y) = Some c"
    using Cons.prems(2) by (auto simp: startable_def)
  define n where "n = upd_task c (\<lambda>y. y\<lparr>block_to := u, finish_to := u\<rparr>) m"
  have n: "task_at n d = (if d = c then Some (y\<lparr>block_to := u, finish_to := u\<rparr>) else task_at m d)"
      "contexts n = contexts m" "manager n = manager m" "stack n = stack m" "active n = active m"
      "signal_canceled n = signal_canceled m" for d
    using y(1) by (simp_all add: n_def task_at_upd_task)
  have "startable n u d" if "d \<in> set cs" for d
    by (rule startable_keep [of m]) (use Cons.prems(2,3) that n in auto)
  moreover have "linked n u c"
    using y n by (simp add: linked_def startable_def sleeper_def)
  moreover have "linked n u d" if "d \<in> set ds" for d
    by (rule linked_keep [of m]) (use Cons.prems(4,5) that n in auto)
  ultimately obtain m' where m': "link_children u cs n = Inr (True, m')"
      "\<forall>d \<in> set cs \<union> set (c # ds). linked m' u d"
      "\<And>d. d \<notin> set cs \<Longrightarrow> task_at m' d = task_at n d"
      "\<And>d. map_option unique_id (task_at m' d) = map_option unique_id (task_at n d)"
      "contexts m' = contexts n" "manager m' = manager n" "stack m' = stack n"
      "active m' = active n" "signal_canceled m' = signal_canceled n"
    using Cons.prems(3,5) by (elim Cons.IH [of n "c # ds"]) auto
  show ?case
  proof (rule Cons.prems(1) [of m'])
    show "link_children u (c # cs) m = Inr (True, m')"
      using y m'(1) by (simp add: with_task_def n_def)
  qed (use m' n y in auto)
qed

text \<open>
  The second loop of \<open>all_of::run\<close> at child \<open>i\<close>: the ones before it sleep, the others are
  linked and not started.
\<close>

definition starting ::
  "machine \<Rightarrow> uid \<Rightarrow> tid \<Rightarrow> body \<Rightarrow> tid list \<Rightarrow> nat \<Rightarrow> frame list \<Rightarrow> bool" where
  "starting m u t b cs i rest \<longleftrightarrow>
     active m = u \<and> u \<noteq> EVENT_LOOP_ID \<and> stack m = rest \<and> \<not> signal_canceled m \<and>
     contexts m EVENT_LOOP_ID = [] \<and> distinct cs \<and> ids_apart m (set cs) \<and>
     (\<exists>x. task_at m t = Some x \<and> task_body x = b \<and> b \<noteq> Sleep \<and> unique_id x = u \<and>
        block_to x = EVENT_LOOP_ID) \<and>
     (\<forall>c \<in> set (take i cs). asleep m u c) \<and> (\<forall>c \<in> set (drop i cs). linked m u c)"

lemma starting_not_child:
  assumes "starting m u t b cs i rest" "c \<in> set cs"
  shows "c \<noteq> t"
proof -
  have "c \<in> set (take i cs) \<or> c \<in> set (drop i cs)"
    using assms(2) by (metis Un_iff append_take_drop_id set_append)
  then show ?thesis
    using assms(1) by (auto simp: starting_def asleep_def linked_def startable_def sleeper_def)
qed

lemma ids_apart_upd:
  "ids_apart m S \<Longrightarrow> (\<And>d. map_option unique_id (task_at m' d) = map_option unique_id (task_at m d))
    \<Longrightarrow> ids_apart m' S"
  unfolding ids_apart_def
proof (intro allI impI)
  fix c d x y
  assume apart: "\<forall>c d x y. c \<in> S \<and> d \<in> S \<and> c \<noteq> d \<and> task_at m c = Some x \<and> task_at m d = Some y \<longrightarrow>
      unique_id x \<noteq> unique_id y"
    and same: "\<And>d. map_option unique_id (task_at m' d) = map_option unique_id (task_at m d)"
    and cd: "c \<in> S \<and> d \<in> S \<and> c \<noteq> d \<and> task_at m' c = Some x \<and> task_at m' d = Some y"
  obtain x' y' where "task_at m c = Some x'" "unique_id x' = unique_id x"
      "task_at m d = Some y'" "unique_id y' = unique_id y"
    using same [of c] same [of d] cd by (cases "task_at m c"; cases "task_at m d") auto
  then show "unique_id x \<noteq> unique_id y"
    using apart cd by metis
qed

text \<open>One round of the loop: the child goes to sleep, and gets its flag.\<close>

text \<open>Child \<open>i\<close> has been started and sleeps; the children before it still sleep, those after it still wait to be started.\<close>

lemma starting_child_asleep:
  assumes "starting m u t b cs i rest" "i < length cs" "task_at m (cs ! i) = Some y" "sleeper u y"
  shows "starting (upd_task (cs ! i) (info_update task_set_all_any) ((child_asleep (cs ! i) y f u m)\<lparr>stack := rest\<rparr>)) u t b cs
    (Suc i) rest" (is "starting ?m u t b cs (Suc i) rest")
proof -
  let ?c = "cs ! i" and ?m2 = "child_asleep (cs ! i) y f u m"
  have at: "task_at ?m e = (if e = ?c then Some (info_update task_set_all_any
      ((info_update (\<lambda>i. task_set_status i running) y)\<lparr>armed := True, block_to := EVENT_LOOP_ID\<rparr>))
      else task_at m e)" for e
    using child_asleep_at [OF assms(3)] by (simp add: task_at_upd_task task_at_cong [of "?m2\<lparr>stack := rest\<rparr>" ?m2])
  have fields: "active ?m = u" "stack ?m = rest" "signal_canceled ?m = signal_canceled m" "manager ?m = manager m"
      "contexts ?m = (contexts m)(u := f # stack m, unique_id y := [Y_swapped ?c, E_yielded ?c, R_run ?c])"
    by simp_all
  have others: "task_at ?m e = task_at m e" "task_at m e = Some z \<Longrightarrow> unique_id z \<noteq> u \<Longrightarrow>
      contexts ?m (unique_id z) = contexts m (unique_id z)" if "e \<in> set cs" "e \<noteq> ?c" for e z
  proof -
    have "unique_id z \<noteq> unique_id y" if "task_at m e = Some z"
      using assms(1-3) \<open>e \<in> set cs\<close> \<open>e \<noteq> ?c\<close> that unfolding starting_def ids_apart_def by (meson nth_mem)
    then show "task_at ?m e = task_at m e" "task_at m e = Some z \<Longrightarrow> unique_id z \<noteq> u \<Longrightarrow>
        contexts ?m (unique_id z) = contexts m (unique_id z)"
      using that(2) by (simp_all add: at fields(5))
  qed
  have before: "e \<in> set cs" "e \<noteq> ?c" if "e \<in> set (take i cs)" for e
    using that assms(1,2) by (auto simp: starting_def set_conv_nth nth_eq_iff_index_eq dest: in_set_takeD)
  have after: "e \<in> set cs" "e \<noteq> ?c" if "e \<in> set (drop (Suc i) cs)" for e
    using that assms(1,2) by (auto simp: starting_def set_conv_nth nth_eq_iff_index_eq dest: in_set_dropD)
  have d: "drop i cs = ?c # drop (Suc i) cs"
    using assms(2) by (simp add: Cons_nth_drop_Suc)
  have "asleep ?m u ?c"
    using assms(4) by (auto simp: asleep_def at fields(5) sleeper_def)
  moreover have "asleep ?m u e" if "e \<in> set (take i cs)" for e
    using asleep_keep [of m u e ?m] assms(1) that others [OF before [OF that]] by (auto simp: starting_def)
  moreover have "linked ?m u e" if "e \<in> set (drop (Suc i) cs)" for e
    using linked_keep [of m u e ?m] assms(1) that d others [OF after [OF that]] by (auto simp: starting_def)
  moreover have "ids_apart ?m (set cs)"
  proof (rule ids_apart_upd [of m])
    show "ids_apart m (set cs)"
      using assms(1) by (simp add: starting_def)
  qed (use assms(3) in \<open>simp add: at\<close>)
  moreover have "t \<noteq> ?c"
    using starting_not_child [OF assms(1)] assms(2) nth_mem by metis
  ultimately show ?thesis
    using assms d by (auto simp: starting_def at fields sleeper_def take_Suc_conv_app_nth)
qed

lemma starting_next:
  assumes "starting m u t b cs i rest" "i < length cs"
  obtains m1 m2 where "task_start_child t (cs ! i) (push f m) = Inr m1" "runs m1 m2"
    "active m2 = u" "stack m2 = f # rest" "control m2 = Ret True"
    "\<exists>y. task_at m2 (cs ! i) = Some y \<and> status_is y running"
    "task_at m2 t = task_at m t"
    "starting (upd_task (cs ! i) (info_update task_set_all_any) (m2\<lparr>stack := rest\<rparr>)) u t b cs
       (Suc i) rest"
proof -
  let ?c = "cs ! i"
  obtain x where x: "task_at m t = Some x" "unique_id x = u" "active m = u"
    using assms(1) by (auto simp: starting_def)
  have "drop i cs = ?c # drop (Suc i) cs"
    using assms(2) by (simp add: Cons_nth_drop_Suc)
  then obtain y where y: "task_at m ?c = Some y" "sleeper u y" "status_is y ready" "block_to y = u"
      "contexts m (unique_id y) = []" "manager m (unique_id y) = Some ?c"
    using assms(1) by (auto simp: starting_def linked_def startable_def sleeper_def)
  obtain m1 where m1: "task_start_child t ?c (push f m) = Inr m1" "runs m1 (child_asleep ?c y f u m)"
    using start_sleeper [OF x y] by blast
  have "t \<noteq> ?c"
    using starting_not_child [OF assms(1)] assms(2) nth_mem by metis
  then show ?thesis
    using that [of m1 "child_asleep ?c y f u m"] m1 assms(1) child_asleep_at [OF y(1)]
      starting_child_asleep [OF assms y(1,2)] by (auto simp: starting_def)
qed

text \<open>After the loop: the combinator yields for the first time, inside frame \<open>f\<close>.\<close>

lemma started_yield:
  assumes "starting m u t b cs (length cs) rest"
  obtains m2 where "task_yield t (push f m) = Inr m2" "in_combinator m2 u t b cs (set cs)"
    "idle m2" "stack m2 = []" "contexts m2 u = Y_swapped t # f # rest" "task_at m2 = task_at m"
proof -
  define n where "n = push (Y_swapped t) (push f m)"
  obtain x where x: "task_at m t = Some x" "task_body x = b" "unique_id x = u"
      "block_to x = EVENT_LOOP_ID" "b \<noteq> Sleep"
    using assms by (auto simp: starting_def)
  have xs: "(tasks m)[t := Some (x\<lparr>block_to := EVENT_LOOP_ID\<rparr>)] = tasks m"
    using x task_atD [OF x(1)] by (simp add: list_update_same_conv)
  define m2 where "m2 = swap_running u EVENT_LOOP_ID n"
  have "task_yield t (push f m) = Inr m2"
    using x xs by (simp add: task_yield_def with_task_def m2_def n_def
        upd_task_def push_def task_at_def split: if_splits)
  moreover have at: "task_at m2 = task_at m"
    by (rule task_at_cong) (simp add: m2_def n_def swap_running_def)
  moreover have m2: "idle m2" "stack m2 = []" "signal_canceled m2 = signal_canceled m"
      "contexts m2 = (contexts m)(u := Y_swapped t # f # rest)"
    using assms by (auto simp: m2_def n_def swap_running_def idle_def starting_def)
  moreover have "asleep m2 u c" if "c \<in> set cs" for c
  proof (rule asleep_keep [of m])
    show "asleep m u c"
      using assms that by (simp add: starting_def)
  qed (simp_all add: at m2)
  then have "in_combinator m2 u t b cs (set cs)"
    using assms x m2 by (auto simp: in_combinator_def at starting_def ids_apart_def)
  ultimately show ?thesis
    using that by simp
qed

lemma all_of_starts:
  assumes "starting m u t (All_of cs) cs i rest" "i \<le> length cs" "cs \<noteq> []"
  shows "\<exists>m1 m2. all_of_start t cs i (length cs) m = Inr m1 \<and> runs m1 m2 \<and>
    waits_all_of m2 u t cs (set cs) rest"
  using assms
proof (induction "length cs - i" arbitrary: i m)
  case 0
  then have i: "i = length cs" by simp
  obtain m2 where m2: "task_yield t (push (All_yielded t (length cs)) m) = Inr m2"
      "in_combinator m2 u t (All_of cs) cs (set cs)" "idle m2" "stack m2 = []"
      "contexts m2 u = Y_swapped t # All_yielded t (length cs) # rest"
    using started_yield "0.prems"(1) unfolding i by blast
  then have "waits_all_of m2 u t cs (set cs) rest"
    using "0.prems"(1) by (simp add: waits_all_of_def starting_def distinct_card)
  then show ?case
    using m2(1) i "0.prems"(3) runs_refl by (auto simp: all_of_start_def all_of_wait_def)
next
  case (Suc k)
  then have i: "i < length cs" by simp
  obtain m1 m2 where m: "task_start_child t (cs ! i) (push (All_started t i (length cs)) m) = Inr m1"
    "runs m1 m2" "active m2 = u" "stack m2 = All_started t i (length cs) # rest"
    "control m2 = Ret True" "\<exists>y. task_at m2 (cs ! i) = Some y \<and> status_is y running"
    "task_at m2 t = task_at m t"
    "starting (upd_task (cs ! i) (info_update task_set_all_any) (m2\<lparr>stack := rest\<rparr>)) u t
       (All_of cs) cs (Suc i) rest"
    by (rule starting_next [OF Suc.prems(1) i])
  let ?n = "upd_task (cs ! i) (info_update task_set_all_any) (m2\<lparr>stack := rest\<rparr>)"
  have u: "u \<noteq> EVENT_LOOP_ID" "\<exists>x. task_at m2 t = Some x \<and> task_body x = All_of cs"
    using Suc.prems(1) m(7) by (auto simp: starting_def)
  obtain m3 m4 where IH: "all_of_start t cs (Suc i) (length cs) ?n = Inr m3" "runs m3 m4"
      "waits_all_of m4 u t cs (set cs) rest"
    using Suc.hyps(1) [OF _ m(8)] Suc.hyps(2) i Suc.prems(3) by fastforce
  have at: "task_at (m2\<lparr>stack := rest\<rparr>) = task_at m2"
    by (rule task_at_cong) simp
  have "step m2 = Inr m3"
    using m(3-6) u(2) IH(1)
    by (auto simp: step_def with_task_def all_of_started_def children_of_def at)
  then have "runs m1 m4"
    using m(2,3) u(1) IH(2) runs_step runs_trans by (metis idle_def)
  then show ?case
    using m(1) i IH(3) by (auto simp: all_of_start_def)
qed

text \<open>Events that arrive one after the other, each when the event loop has control.\<close>

inductive deliver :: "tid list \<Rightarrow> machine \<Rightarrow> machine \<Rightarrow> bool" where
  deliver_Nil: "deliver [] m m"
| deliver_Cons: "idle m \<Longrightarrow> fire c m = Inr m1 \<Longrightarrow> runs m1 m2 \<Longrightarrow> idle m2 \<Longrightarrow> deliver cs m2 m3 \<Longrightarrow>
    deliver (c # cs) m m3"

lemma all_of_prefix:
  assumes "waits_all_of m u t cs S rest" "distinct ys" "set ys \<subset> S"
  shows "\<exists>m'. deliver ys m m' \<and> waits_all_of m' u t cs (S - set ys) rest"
  using assms
proof (induction ys arbitrary: m S)
  case Nil
  then show ?case using deliver_Nil by auto
next
  case (Cons c ys)
  then have "c \<in> S" "S - {c} \<noteq> {}"
    by auto
  then obtain m1 m2 where m: "fire c m = Inr m1" "runs m1 m2"
      "waits_all_of m2 u t cs (S - {c}) rest"
    using all_of_next [OF Cons.prems(1)] by blast
  have "set ys \<subset> S - {c}"
    using Cons.prems(2,3) by auto
  then obtain m' where "deliver ys m2 m'" "waits_all_of m' u t cs (S - {c} - set ys) rest"
    using Cons.IH [OF m(3)] Cons.prems(2) by auto
  moreover have "S - {c} - set ys = S - set (c # ys)"
    by auto
  ultimately show ?case
    using m Cons.prems(1) deliver_Cons [of m c m1 m2 ys m'] by (auto simp: waits_all_of_def)
qed

text \<open>
  A combinator \<open>t\<close> about to run in coroutine \<open>u\<close>: nobody waits for it to block, and its
  children are distinct objects with coroutines of their own that have not been started.
\<close>

definition may_run :: "machine \<Rightarrow> tid \<Rightarrow> body \<Rightarrow> tid list \<Rightarrow> bool" where
  "may_run m t b cs \<longleftrightarrow>
     (\<exists>x. task_at m t = Some x \<and> task_body x = b \<and> unique_id x = active m \<and>
        block_to x = EVENT_LOOP_ID) \<and>
     \<not> idle m \<and> \<not> signal_canceled m \<and> contexts m EVENT_LOOP_ID = [] \<and>
     cs \<noteq> [] \<and> distinct cs \<and> ids_apart m (set cs) \<and> (\<forall>c \<in> set cs. startable m (active m) c)"

lemma may_run_starting:
  assumes "may_run m t b cs" "b \<noteq> Sleep"
  obtains m' where "link_children (active m) cs m = Inr (True, m')"
    "starting m' (active m) t b cs 0 (stack m)" "task_at m' t = task_at m t"
proof -
  have t: "t \<notin> set cs"
    using assms by (auto simp: may_run_def startable_def sleeper_def)
  obtain m' where m': "link_children (active m) cs m = Inr (True, m')"
      "\<forall>c \<in> set cs \<union> set []. linked m' (active m) c"
      "\<And>d. d \<notin> set cs \<Longrightarrow> task_at m' d = task_at m d"
      "\<And>d. map_option unique_id (task_at m' d) = map_option unique_id (task_at m d)"
      "contexts m' = contexts m" "manager m' = manager m" "stack m' = stack m"
      "active m' = active m" "signal_canceled m' = signal_canceled m"
    using assms(1) by (elim link_startable [of cs m "active m" "[]", rotated -1])
      (auto simp: may_run_def)
  moreover have "ids_apart m' (set cs)"
    using assms(1) m'(4) ids_apart_upd by (auto simp: may_run_def)
  ultimately show ?thesis
    using that [of m'] assms t by (auto simp: starting_def may_run_def idle_def)
qed

text \<open>
  C2: an \<open>all_of\<close> over any number of sleeping children starts them all and then waits; when
  their events arrive, in any order \<open>es\<close>, it is still waiting after every proper part of them,
  for exactly as many children as are left, and after the last one \<open>all_of::run\<close> returns to
  its caller, with every child completed.
\<close>

theorem all_of_returns_after_last:
  assumes "may_run m t (All_of cs) cs" "distinct es" "set es = set cs"
  shows "\<exists>m1 m2 m3. call_run t m = Inr m1 \<and> runs m1 m2 \<and>
    (\<forall>k < length es. \<exists>m'. deliver (take k es) m2 m' \<and> idle m' \<and>
       contexts m' (active m) = Y_swapped t # All_yielded t (length cs - k) # stack m) \<and>
    (\<exists>m' m''. deliver (butlast es) m2 m' \<and> fire (last es) m' = Inr m'' \<and> runs m'' m3) \<and>
    active m3 = active m \<and> stack m3 = stack m \<and> control m3 = Ret True \<and>
    (\<forall>c \<in> set cs. finished m3 completed c)"
proof -
  let ?u = "active m"
  obtain m' where m': "link_children ?u cs m = Inr (True, m')"
      "starting m' ?u t (All_of cs) cs 0 (stack m)" "task_at m' t = task_at m t"
    by (rule may_run_starting [OF assms(1)]) simp
  have cs: "cs \<noteq> []" "distinct cs"
    using assms(1) by (auto simp: may_run_def)
  obtain m1 m2 where m12: "all_of_start t cs 0 (length cs) m' = Inr m1" "runs m1 m2"
      "waits_all_of m2 ?u t cs (set cs) (stack m)"
    using all_of_starts [OF m'(2) _ cs(1)] by auto
  have run: "call_run t m = Inr m1"
    using assms(1) m'(1) m12(1) by (auto simp: may_run_def call_run_def all_of_run_def with_task_def)
  have len: "length es = length cs"
    using assms(2,3) cs(2) distinct_card by metis
  have part: "\<exists>m'. deliver (take k es) m2 m' \<and>
      waits_all_of m' ?u t cs (set cs - set (take k es)) (stack m)" if "k < length es" for k
  proof (rule all_of_prefix [OF m12(3)])
    have "card (set (take k es)) < card (set cs)"
      using that assms(2) cs(2) len by (simp add: distinct_card)
    then show "set (take k es) \<subset> set cs"
      using assms(3) set_take_subset [of k es] by auto
  qed (use assms(2) in simp)
  have left: "card (set cs - set (take k es)) = length cs - k" if "k < length es" for k
    using that assms(2,3) cs(2) len set_take_subset [of k es]
    by (simp add: card_Diff_subset distinct_card)
  have es: "es \<noteq> []"
    using cs(1) len by auto
  have "set cs - set (butlast es) = {last es}"
    using set_minus_butlast [OF assms(2) es] assms(3) by simp
  then obtain n where n: "deliver (butlast es) m2 n" "waits_all_of n ?u t cs {last es} (stack m)"
    using part [of "length es - 1"] es by (auto simp: butlast_conv_take)
  obtain n1 m3 where "fire (last es) n = Inr n1" "runs n1 m3" "active m3 = ?u"
      "stack m3 = stack m" "control m3 = Ret True" "\<forall>d \<in> set cs. finished m3 completed d"
    by (rule all_of_last [OF n(2)])
  moreover have "\<exists>m'. deliver (take k es) m2 m' \<and> idle m' \<and>
       contexts m' ?u = Y_swapped t # All_yielded t (length cs - k) # stack m" if "k < length es" for k
    using part [OF that] left [OF that] by (auto simp: waits_all_of_def)
  ultimately show ?thesis
    using run m12(2) n(1) by blast
qed

end
