(* ===== verification/Scheduler_Any.thy ===== *)
theory Scheduler_Any
  imports Scheduler_Runs
begin

text \<open>
  \<open>any_of\<close>: the first of its children to complete wins, and the others are canceled one after
  the other (\<open>__task_cancel_children\<close>) before \<open>any_of::run\<close> returns.
\<close>

section \<open>Canceling a sleeping child\<close>

text \<open>What is left of a sleeping child that was canceled.\<close>

definition child_canceled :: "tid \<Rightarrow> task \<Rightarrow> frame \<Rightarrow> uid \<Rightarrow> machine \<Rightarrow> machine" where
  "child_canceled c y f u m =
     m\<lparr>tasks := (tasks m)[c := Some ((info_update (\<lambda>i. task_set_status i canceled) y)
          \<lparr>armed := False\<rparr>)],
       contexts := (contexts m)(u := f # stack m, unique_id y := []),
       signal_canceled := False,
       active := u, stack := f # stack m, control := Ret True, current := manager m u\<rparr>"

lemma cancel_sleeper:
  assumes "task_at m t = Some x" "unique_id x = u" "active m = u"
    "task_at m c = Some y" "sleeper u y" "c \<noteq> t" "\<not> signal_canceled m"
    "contexts m (unique_id y) = [Y_swapped c, E_yielded c, R_run c]"
  shows "\<exists>m1. task_start_child t c (push f (set_status c canceled (m\<lparr>signal_canceled := True\<rparr>)))
      = Inr m1 \<and> runs m1 (child_canceled c y f u m)"
proof -
  note y = assms(5) [unfolded sleeper_def] task_atD [OF assms(4)] task_atD [OF assms(1)]
  let ?y = "info_update (\<lambda>i. task_set_status i canceled) y"
  define m1 where "m1 = m\<lparr>tasks := (tasks m)[c := Some ?y], signal_canceled := True,
    contexts := (contexts m)(u := f # stack m), active := unique_id y,
    stack := [Y_swapped c, E_yielded c, R_run c],
    control := Ret True, current := manager m (unique_id y)\<rparr>"
  define m2 where "m2 = m\<lparr>tasks := (tasks m)[c := Some (?y\<lparr>armed := False\<rparr>)], signal_canceled := False,
    contexts := (contexts m)(u := f # stack m), active := unique_id y,
    stack := [Y_cancel, E_yielded c, R_run c],
    control := Ret True, current := manager m (unique_id y)\<rparr>"
  have "task_start_child t c (push f (set_status c canceled (m\<lparr>signal_canceled := True\<rparr>))) = Inr m1"
    using assms y by (auto simp: task_start_child_def with_task_def swap_running_def Let_def
        upd_task_def task_at_def m1_def push_def)
  moreover have "steps 1 m1 = Inr m2"
    using assms y by (simp add: m1_def m2_def steps_numeral idle_def step_def Let_def with_task_def
        task_at_def call_cancel_def push_def ret_def upd_task_def)
  moreover have "steps 3 m2 = Inr (child_canceled c y f u m)"
  proof -
    have "c < length (tasks m)" "unique_id y \<noteq> EVENT_LOOP_ID" "unique_id y \<noteq> u"
        "u \<noteq> unique_id y" "finish_to y = u" "u \<noteq> EVENT_LOOP_ID"
      using y by auto
    then show ?thesis
      by (simp add: m2_def child_canceled_def steps_numeral idle_def step_def ret_def
          runtime_finish_def with_task_def task_at_def runtime_next_def swap_running_def Let_def)
  qed
  ultimately show ?thesis
    using steps_runs runs_trans by blast
qed

lemma find_final_sleeper:
  assumes "task_at m c = Some y" "sleeper u y"
  shows "find_final (length (tasks m)) m c = Inr (c, False)"
proof -
  obtain n where "length (tasks m) = Suc n"
    using task_atD [OF assms(1)] by (cases "length (tasks m)") auto
  then show ?thesis
    using assms by (simp add: with_task_def sleeper_def)
qed

text \<open>
  \<open>__task_cancel_children\<close> over children of which \<open>S\<close> sleep and the others have finished:
  it cancels exactly \<open>S\<close>, and returns.
\<close>

definition canceling :: "machine \<Rightarrow> uid \<Rightarrow> tid \<Rightarrow> tid list \<Rightarrow> tid set \<Rightarrow> bool" where
  "canceling m u t ds S \<longleftrightarrow>
     active m = u \<and> u \<noteq> EVENT_LOOP_ID \<and> \<not> signal_canceled m \<and> distinct ds \<and> S \<subseteq> set ds \<and>
     t \<notin> S \<and> (\<exists>x. task_at m t = Some x \<and> unique_id x = u) \<and>
     (\<forall>c \<in> S. asleep m u c) \<and> ids_apart m S \<and>
     (\<forall>c \<in> set ds - S. \<exists>y. task_at m c = Some y \<and> \<not> status_is y running)"

lemma canceling_next:
  assumes "canceling m u t (c # ds) S" "c \<in> S"
  obtains m1 m2 where "task_cancel_children t (c # ds) 0 m = Inr m1" "runs m1 m2"
    "active m2 = u" "control m2 = Ret True" "stack m2 = C_swapped t ds 0 # stack m"
    "canceling (m2\<lparr>stack := stack m\<rparr>) u t ds (S - {c})" "finished m2 canceled c"
    "\<And>d. d \<noteq> c \<Longrightarrow> task_at m2 d = task_at m d"
proof -
  let ?f = "C_swapped t ds 0"
  obtain y where y: "task_at m c = Some y" "sleeper u y" "status_is y running"
      "contexts m (unique_id y) = [Y_swapped c, E_yielded c, R_run c]"
    using assms by (auto simp: canceling_def asleep_def)
  obtain x where x: "task_at m t = Some x" "unique_id x = u" "active m = u" "c \<noteq> t"
      "\<not> signal_canceled m"
    using assms by (auto simp: canceling_def)
  obtain m1 where m1: "task_start_child t c (push ?f (set_status c canceled
      (m\<lparr>signal_canceled := True\<rparr>))) = Inr m1" "runs m1 (child_canceled c y ?f u m)"
    using cancel_sleeper [OF x(1-3) y(1,2) x(4,5) y(4)] by blast
  define m2 where "m2 = child_canceled c y ?f u m"
  have at: "task_at m2 d = (if d = c then Some ((info_update (\<lambda>i. task_set_status i canceled) y)
          \<lparr>armed := False\<rparr>) else task_at m d)" for d
    using task_atD [OF y(1)] by (auto simp: m2_def child_canceled_def task_at_def)
  have at': "task_at (m2\<lparr>stack := stack m\<rparr>) = task_at m2"
    by (rule task_at_cong) simp
  have m2: "contexts m2 = (contexts m)(u := ?f # stack m, unique_id y := [])"
      "active m2 = u" "control m2 = Ret True" "stack m2 = ?f # stack m" "\<not> signal_canceled m2"
    by (simp_all add: m2_def child_canceled_def)
  have "asleep (m2\<lparr>stack := stack m\<rparr>) u d" if "d \<in> S - {c}" for d
  proof (rule asleep_keep)
    show "asleep m u d"
      using assms(1) that by (simp add: canceling_def)
    fix z assume "task_at m d = Some z" "unique_id z \<noteq> u"
    moreover from this have "unique_id z \<noteq> unique_id y"
      using assms that y(1) unfolding canceling_def ids_apart_def by blast
    ultimately show "contexts (m2\<lparr>stack := stack m\<rparr>) (unique_id z) = contexts m (unique_id z)"
      by (simp add: m2)
  qed (use that in \<open>simp add: at at'\<close>)
  moreover have "ids_apart (m2\<lparr>stack := stack m\<rparr>) (S - {c})"
    using assms(1) by (auto simp: canceling_def ids_apart_def at at')
  ultimately have "canceling (m2\<lparr>stack := stack m\<rparr>) u t ds (S - {c})"
    using assms m2(2,5) x(1,2,4) by (auto simp: canceling_def at at')
  moreover have "task_cancel_children t (c # ds) 0 m = Inr m1"
    using y(3) m1(1) find_final_sleeper [OF y(1,2)] by (simp add: with_task_at [OF y(1)])
  moreover have "finished m2 canceled c"
    by (simp add: finished_def at)
  ultimately show ?thesis
    using that [of m1 m2] m1(2) m2 at by (simp add: m2_def)
qed

lemma cancel_children_returns:
  assumes "canceling m u t ds S"
  shows "\<exists>m1 m2. task_cancel_children t ds 0 m = Inr m1 \<and> runs m1 m2 \<and> active m2 = u \<and>
    stack m2 = stack m \<and> control m2 = Ret True \<and> (\<forall>c \<in> S. finished m2 canceled c) \<and>
    (\<forall>d. d \<notin> S \<longrightarrow> task_at m2 d = task_at m d)"
  using assms
proof (induction ds arbitrary: m S)
  case Nil
  then have "task_cancel_children t [] 0 m = Inr (ret True m)" "S = {}" "active (ret True m) = u"
    by (auto simp: canceling_def ret_def)
  moreover have "task_at (ret True m) = task_at m"
    by (rule task_at_cong) (simp add: ret_def)
  ultimately show ?case
    by (intro exI [of _ "ret True m"]) (simp add: runs_refl, simp add: ret_def)
next
  case (Cons c ds)
  show ?case
  proof (cases "c \<in> S")
    case True
    obtain m1 m2 where m: "task_cancel_children t (c # ds) 0 m = Inr m1" "runs m1 m2"
      "active m2 = u" "control m2 = Ret True" "stack m2 = C_swapped t ds 0 # stack m"
      "canceling (m2\<lparr>stack := stack m\<rparr>) u t ds (S - {c})" "finished m2 canceled c"
      "\<And>d. d \<noteq> c \<Longrightarrow> task_at m2 d = task_at m d"
      using canceling_next [OF Cons.prems True] by blast
    have at: "task_at (m2\<lparr>stack := stack m\<rparr>) = task_at m2"
      by (rule task_at_cong) simp
    obtain m3 m4 where IH: "task_cancel_children t ds 0 (m2\<lparr>stack := stack m\<rparr>) = Inr m3"
        "runs m3 m4" "active m4 = u" "stack m4 = stack m" "control m4 = Ret True"
        "\<forall>c \<in> S - {c}. finished m4 canceled c"
        "\<forall>d. d \<notin> S - {c} \<longrightarrow> task_at m4 d = task_at m2 d"
      using Cons.IH [OF m(6)] at by auto
    have "step m2 = Inr m3" "\<not> idle m2"
      using m(3-5) IH(1) Cons.prems by (auto simp: step_def idle_def canceling_def)
    then have "runs m1 m4"
      using m(2) IH(2) runs_step runs_trans by metis
    moreover have "finished m4 canceled c"
      using m(7) IH(7) by (intro finished_keep [OF m(7)]) simp
    moreover have "finished m4 canceled d" if "d \<in> S" for d
      using that IH(6) \<open>finished m4 canceled c\<close> by (cases "d = c") auto
    moreover have "task_at m4 d = task_at m d" if "d \<notin> S" for d
      using that IH(7) m(8) True by (metis DiffD1)
    ultimately show ?thesis
      using m(1) IH(3-5) by blast
  next
    case False
    then obtain y where "task_at m c = Some y" "\<not> status_is y running"
      using Cons.prems unfolding canceling_def by (metis DiffI list.set_intros(1))
    moreover have "canceling m u t ds S"
      using Cons.prems False by (auto simp: canceling_def)
    ultimately show ?thesis
      using Cons.IH [of m S] by (simp add: with_task_at)
  qed
qed

section \<open>any_of\<close>

lemma any_of_starts:
  assumes "starting m u t (Any_of cs) cs i rest" "i \<le> length cs"
    "\<exists>x. task_at m t = Some x \<and> completed_id x = - 1"
  shows "\<exists>m1 m2. any_of_start t cs i m = Inr m1 \<and> runs m1 m2 \<and>
    in_combinator m2 u t (Any_of cs) cs (set cs) \<and> idle m2 \<and> stack m2 = [] \<and>
    contexts m2 u = Y_swapped t # Any_yielded t # rest"
  using assms
proof (induction "length cs - i" arbitrary: i m)
  case 0
  then have i: "i = length cs" by simp
  obtain m2 where m2: "task_yield t (push (Any_yielded t) m) = Inr m2"
      "in_combinator m2 u t (Any_of cs) cs (set cs)" "idle m2" "stack m2 = []"
      "contexts m2 u = Y_swapped t # Any_yielded t # rest"
    using started_yield "0.prems"(1) unfolding i by blast
  then show ?case
    using i "0.prems"(3) runs_refl [of m2]
    by (intro exI [of _ m2]) (auto simp: any_of_start_def any_of_wait_def with_task_def)
next
  case (Suc k)
  then have i: "i < length cs" by simp
  obtain m1 m2 where m: "task_start_child t (cs ! i) (push (Any_started t i) m) = Inr m1"
    "runs m1 m2" "active m2 = u" "stack m2 = Any_started t i # rest"
    "control m2 = Ret True" "\<exists>y. task_at m2 (cs ! i) = Some y \<and> status_is y running"
    "task_at m2 t = task_at m t"
    "starting (upd_task (cs ! i) (info_update task_set_all_any) (m2\<lparr>stack := rest\<rparr>)) u t
       (Any_of cs) cs (Suc i) rest"
    by (rule starting_next [OF Suc.prems(1) i])
  let ?n = "upd_task (cs ! i) (info_update task_set_all_any) (m2\<lparr>stack := rest\<rparr>)"
  have u: "u \<noteq> EVENT_LOOP_ID" "\<exists>x. task_at m2 t = Some x \<and> task_body x = Any_of cs"
    using Suc.prems(1) m(7) by (auto simp: starting_def)
  have at: "task_at (m2\<lparr>stack := rest\<rparr>) = task_at m2"
    by (rule task_at_cong) simp
  have "cs ! i \<noteq> t"
    using starting_not_child [OF Suc.prems(1)] i nth_mem by metis
  then have "\<exists>x. task_at ?n t = Some x \<and> completed_id x = - 1"
    using Suc.prems(3) m(7) by (simp add: task_at_upd_task at)
  then obtain m3 m4 where IH: "any_of_start t cs (Suc i) ?n = Inr m3" "runs m3 m4"
      "in_combinator m4 u t (Any_of cs) cs (set cs)" "idle m4" "stack m4 = []"
      "contexts m4 u = Y_swapped t # Any_yielded t # rest"
    using Suc.hyps(1) [OF _ m(8)] Suc.hyps(2) i by fastforce
  have "step m2 = Inr m3"
    using m(3-6) u(2) IH(1)
    by (auto simp: step_def with_task_def any_of_started_def children_of_def at)
  then have "runs m1 m4"
    using m(2,3) u(1) IH(2) runs_step runs_trans by (metis idle_def)
  then show ?case
    using m(1) i IH(3-6) by (auto simp: any_of_start_def)
qed

lemma first_completed_index:
  assumes "k < length cs" "distinct cs"
    "\<forall>c \<in> set cs - {cs ! k}. \<exists>y. task_at m c = Some y \<and> \<not> status_is y completed"
    "\<exists>y. task_at m (cs ! k) = Some y \<and> status_is y completed"
  shows "first_completed m i cs = Inr (Some (i + k))"
  using assms
proof (induction cs arbitrary: i k)
  case (Cons c cs)
  show ?case
  proof (cases k)
    case 0
    then show ?thesis
      using Cons.prems(4) by (auto simp: with_task_at)
  next
    case (Suc j)
    have "c \<noteq> cs ! j"
      using Cons.prems(1,2) Suc by auto
    then obtain y where "task_at m c = Some y" "\<not> status_is y completed"
      using Cons.prems(3) Suc by auto
    then show ?thesis
      using Cons.IH [of j "Suc i"] Cons.prems Suc by (auto simp: with_task_at)
  qed
qed simp

text \<open>
  The children that are still asleep, when the combinator has noted which child completed.
\<close>

lemma noted_canceling:
  assumes "in_combinator m u t b cs S" "active m = u" "u \<noteq> EVENT_LOOP_ID" "distinct cs" "t \<notin> set cs"
    and "task_at m t = Some x" "unique_id x = u"
    and n: "n = upd_task t (completed_id_update (\<lambda>_. int k)) (m\<lparr>control := Ret True, stack := fs\<rparr>)"
  shows "canceling n u t cs S" "\<And>d. task_at n d = (if d = t then Some (x\<lparr>completed_id := int k\<rparr>) else task_at m d)"
proof -
  have "task_at (m\<lparr>control := Ret True, stack := fs\<rparr>) = task_at m"
    by (rule task_at_cong) simp
  then show at: "task_at n d = (if d = t then Some (x\<lparr>completed_id := int k\<rparr>) else task_at m d)" for d
    using assms(6) by (simp add: n task_at_upd_task)
  have comb: "S \<subseteq> set cs" "\<forall>c \<in> S. asleep m u c" "\<forall>c \<in> set cs - S. finished m completed c" "ids_apart m S" "\<not> signal_canceled m"
    using assms(1) by (auto simp: in_combinator_def)
  have "asleep n u d" if "d \<in> S" for d
  proof (rule asleep_keep [of m])
    show "asleep m u d" "task_at n d = task_at m d"
      using comb(1,2) that assms(5) at by auto
  qed (simp add: n)
  moreover have "\<exists>y. task_at n d = Some y \<and> \<not> status_is y running" if "d \<in> set cs - S" for d
    using comb(3) that assms(5) at by (force simp: finished_def)
  moreover have "ids_apart n S"
    using comb(1,4) assms(5) at by (auto simp: ids_apart_def)
  moreover have "active n = u" "\<not> signal_canceled n" "\<exists>x. task_at n t = Some x \<and> unique_id x = u"
    using assms(2,7) comb(5) at by (auto simp: n)
  ultimately show "canceling n u t cs S"
    using assms(3-5) comb(1) unfolding canceling_def by blast
qed

text \<open>The \<open>any_of\<close> is continued by child \<open>k\<close>: it notes the child and cancels the others.\<close>

lemma any_of_continued:
  assumes comb: "in_combinator m u t (Any_of cs) cs (set cs - {cs ! k})" and "k < length cs" "distinct cs" "t \<notin> set cs"
    and m: "active m = u" "u \<noteq> EVENT_LOOP_ID" "control m = Ret True" "stack m = Y_swapped t # Any_yielded t # fs"
  shows "\<exists>m'. runs m m' \<and> active m' = u \<and> stack m' = fs \<and> control m' = Ret True \<and>
    finished m' completed (cs ! k) \<and> (\<forall>c \<in> set cs - {cs ! k}. finished m' canceled c) \<and>
    (\<exists>x. task_at m' t = Some x \<and> completed_id x = int k)"
proof -
  let ?S = "set cs - {cs ! k}" and ?m = "m\<lparr>control := Ret True, stack := fs\<rparr>"
  define n where "n = upd_task t (completed_id_update (\<lambda>_. int k)) ?m"
  obtain x where x: "task_at m t = Some x" "task_body x = Any_of cs" "unique_id x = u" "\<not> signal_canceled m"
    using comb by (auto simp: in_combinator_def)
  note can = noted_canceling [OF comb m(1,2) assms(3,4) x(1,3) n_def]
  obtain n1 n2 where n12: "task_cancel_children t cs 0 n = Inr n1" "runs n1 n2"
      "active n2 = u" "stack n2 = stack n" "control n2 = Ret True"
      "\<forall>c \<in> ?S. finished n2 canceled c" "\<forall>d. d \<notin> ?S \<longrightarrow> task_at n2 d = task_at n d"
    using cancel_children_returns [OF can(1)] by blast
  have at: "task_at ?m = task_at m"
    by (rule task_at_cong) simp
  have won: "cs ! k \<in> set cs" "finished m completed (cs ! k)"
    using comb assms(2) by (auto simp: in_combinator_def)
  have "\<exists>y. task_at m d = Some y \<and> \<not> status_is y completed" if "d \<in> ?S" for d
    using comb that by (force simp: in_combinator_def asleep_def)
  then have "first_completed ?m 0 cs = Inr (Some (0 + k))"
    using won(2) assms(2,3) by (intro first_completed_index) (auto simp: at finished_def)
  then have "steps 2 m = Inr n1"
    using m x n12(1) by (simp add: steps_numeral step_def idle_def ret_def any_of_yielded_def
        children_of_def with_task_def at n_def)
  then have "runs m n2"
    using n12(2) runs_trans steps_runs by blast
  moreover have "task_at n2 t = Some (x\<lparr>completed_id := int k\<rparr>)" "task_at n2 (cs ! k) = task_at m (cs ! k)"
    using n12(7) assms(4) can(2) won(1) by auto
  moreover have "stack n = fs"
    using x(1) at by (simp add: n_def upd_task_def)
  ultimately show ?thesis
    using n12(3-6) won(2) finished_keep by (intro exI [of _ n2]) auto
qed

text \<open>
  C3: an \<open>any_of\<close> over any number of sleeping children starts them all and waits; when the
  event of child \<open>k\<close> arrives first, child \<open>k\<close> completes, every other child is canceled (its
  \<open>cancel()\<close> withdraws its event), \<open>any_of::run\<close> returns to its caller and
  \<open>who_completed()\<close> is \<open>k\<close>.
\<close>

theorem any_of_returns_first:
  assumes "may_run m t (Any_of cs) cs" "k < length cs"
    and "\<exists>x. task_at m t = Some x \<and> completed_id x = - 1"
  shows "\<exists>m1 m2 m3 m4. call_run t m = Inr m1 \<and> runs m1 m2 \<and> idle m2 \<and>
    contexts m2 (active m) = Y_swapped t # Any_yielded t # stack m \<and>
    fire (cs ! k) m2 = Inr m3 \<and> runs m3 m4 \<and>
    active m4 = active m \<and> stack m4 = stack m \<and> control m4 = Ret True \<and>
    finished m4 completed (cs ! k) \<and> (\<forall>c \<in> set cs - {cs ! k}. finished m4 canceled c) \<and>
    (\<exists>x. task_at m4 t = Some x \<and> completed_id x = int k)"
proof -
  let ?u = "active m" and ?c = "cs ! k"
  obtain m' where m': "link_children ?u cs m = Inr (True, m')"
      "starting m' ?u t (Any_of cs) cs 0 (stack m)" "task_at m' t = task_at m t"
    by (rule may_run_starting [OF assms(1)]) simp
  have cs: "distinct cs" "?c \<in> set cs" "t \<notin> set cs"
    using assms(1,2) starting_not_child [OF m'(2)] by (auto simp: may_run_def)
  obtain m1 m2 where m12: "any_of_start t cs 0 m' = Inr m1" "runs m1 m2"
      "in_combinator m2 ?u t (Any_of cs) cs (set cs)" "idle m2" "stack m2 = []"
      "contexts m2 ?u = Y_swapped t # Any_yielded t # stack m"
    using any_of_starts [OF m'(2)] assms(3) m'(3) by auto
  have run: "call_run t m = Inr m1"
    using assms(1) m'(1) m12(1) by (auto simp: may_run_def call_run_def any_of_run_def with_task_def)
  obtain m3 m4 where m34: "fire ?c m2 = Inr m3" "runs m3 m4"
      "in_combinator m4 ?u t (Any_of cs) cs (set cs - {?c})" "active m4 = ?u" "control m4 = Ret True"
      "?u \<noteq> EVENT_LOOP_ID" "stack m4 = contexts m2 ?u"
    by (rule combinator_resumed [OF m12(3) cs(2) m12(5)])
  from any_of_continued [OF m34(3) assms(2) cs(1,3) m34(4,6,5)] obtain m5 where "runs m4 m5" "active m5 = ?u"
      "stack m5 = stack m" "control m5 = Ret True" "finished m5 completed ?c"
      "\<forall>c \<in> set cs - {?c}. finished m5 canceled c" "\<exists>x. task_at m5 t = Some x \<and> completed_id x = int k"
    using m34(7) m12(6) by auto
  then show ?thesis
    using run m12(2,4,6) m34(1) runs_trans [OF m34(2)] by blast
qed

end
