(* ===== verification/Scheduler_Programs.thy ===== *)
theory Scheduler_Programs
  imports Scheduler_Any
begin

text \<open>
  Whole programs on the scheduler: the objects that exist before \<open>cocoflow(top)\<close> is called, the
  run of the program under a given sequence of events, and the places where the scheduler does
  not do what its callers rely on.
\<close>

section \<open>Programs\<close>

text \<open>One class of tasks with eight coroutines, and a machine with no task.\<close>

definition pool8 :: tpl where
  "pool8 = tpl_after globals0 (fresh_tpl 4 1) 8"

definition machine0 :: machine where
  "machine0 = \<lparr>tasks = [], manager = (\<lambda>_. None), pools = (\<lambda>_. pool8), current = None,
     signal_canceled = False, top_task = 0, contexts = (\<lambda>_. []), active = EVENT_LOOP_ID,
     stack = [], control = Ret True, emitted = []\<rparr>"

fun construct_all :: "body list \<Rightarrow> machine \<Rightarrow> machine res" where
  "construct_all [] m = Inr m"
| "construct_all (b # bs) m = res_bind (construct 0 b m) (construct_all bs)"

text \<open>The objects of \<open>bs\<close> are constructed in order; the last one is the top task.\<close>

definition boot :: "body list \<Rightarrow> machine res" where
  "boot bs = res_bind (construct_all bs machine0) (cocoflow_entry 0 (length bs - 1))"

fun events :: "nat \<Rightarrow> tid list \<Rightarrow> machine \<Rightarrow> machine res option" where
  "events n [] m = run_until_idle n m"
| "events n (t # ts) m =
     (case run_until_idle n m of
        Some (Inr m) \<Rightarrow> (case fire t m of Inl e \<Rightarrow> Some (Inl e) | Inr m \<Rightarrow> events n ts m)
      | r \<Rightarrow> r)"

definition session :: "nat \<Rightarrow> body list \<Rightarrow> tid list \<Rightarrow> machine res option" where
  "session n bs ts = (case boot bs of Inl e \<Rightarrow> Some (Inl e) | Inr m \<Rightarrow> events n ts m)"

text \<open>What can be seen of the end of a run: the output and the status of every object.\<close>

definition outcome ::
  "machine res option \<Rightarrow> (nat list \<times> (task_status option \<times> bool) option list) res option" where
  "outcome r = map_option (map_sum id (\<lambda>m.
     (emitted m, map (map_option (\<lambda>x. (status (info x), armed x))) (tasks m)))) r"

fun returned :: "machine res option \<Rightarrow> bool" where
  "returned (Some (Inr m)) = True"
| "returned _ = False"

lemma returnedE: "returned r \<Longrightarrow> (\<And>m. r = Some (Inr m) \<Longrightarrow> P) \<Longrightarrow> P"
  by (cases r rule: returned.cases) auto

lemma construct_all_booting:
  "construct_all bs m = Inr m' \<Longrightarrow> booting m \<Longrightarrow> booting m'"
proof (induction bs arbitrary: m)
  case (Cons b bs)
  then obtain m1 where m1: "construct 0 b m = Inr m1" "construct_all bs m1 = Inr m'"
    by (auto simp: res_bind_eq_Inr)
  from construct_keeps [OF m1(1)] have "booting m1"
    using Cons.prems(2) by (simp add: booting_def keeps_stacks_def)
  then show ?case
    using Cons.IH m1(2) by blast
qed simp

lemma boot_booting:
  assumes "boot bs = Inr m'"
  obtains m\<^sub>0 where "booting m\<^sub>0" "cocoflow m\<^sub>0 = Inr m'"
proof -
  obtain m where m: "construct_all bs machine0 = Inr m" "cocoflow (m\<lparr>top_task := length bs - 1\<rparr>) = Inr m'"
    using assms by (auto simp: boot_def cocoflow_entry_def res_bind_eq_Inr)
  have "booting machine0"
    by (simp add: booting_def machine0_def)
  from construct_all_booting [OF m(1) this] have "booting (m\<lparr>top_task := length bs - 1\<rparr>)"
    by (simp add: booting_def)
  then show ?thesis
    using that m(2) by blast
qed

theorem stacks_well_formed_witness:
  "\<exists>m m'. boot [Sleep, User [Emit 7, Await_task 0] []] = Inr m \<and>
     run_until_idle 9 m = Some (Inr m') \<and> wf_machine m'"
proof -
  let ?bs = "[Sleep, User [Emit 7, Await_task 0] []]"
  have "case boot ?bs of Inl _ \<Rightarrow> False
      | Inr m \<Rightarrow> returned (run_until_idle 9 m)"
    by code_simp
  then obtain m m' where m: "boot ?bs = Inr m" "run_until_idle 9 m = Some (Inr m')"
    by (auto split: sum.splits elim: returnedE)
  obtain m\<^sub>0 where "booting m\<^sub>0" "cocoflow m\<^sub>0 = Inr m"
    by (rule boot_booting [OF m(1)])
  moreover from this have "reach m\<^sub>0 m'"
    using run_until_idle_runs [OF m(2)] reach_runs reach_boot by blast
  ultimately show ?thesis
    using stacks_well_formed m by blast
qed

section \<open>Two sleeping children\<close>

definition two_sleepers :: "body \<Rightarrow> machine" where
  "two_sleepers b = machine0\<lparr>
     tasks := [Some (new_task 0 Sleep 0 ready), Some (new_task 0 Sleep 1 ready),
       Some (new_task 0 b 2 running)],
     manager := [0 \<mapsto> 0, 1 \<mapsto> 1, 2 \<mapsto> 2], active := 2, stack := [R_run 2], current := Some 2\<rparr>"

lemma two_sleepers_may_run:
  assumes "b \<noteq> Send"
  shows "may_run (two_sleepers b) 2 b [0, 1]"
proof -
  have "\<not> task_is_uninterruptable (task_set_status 0 ready)"
    by code_simp
  then have "startable (two_sleepers b) 2 c" if "c = 0 \<or> c = 1" for c
    using that by (auto simp: startable_def two_sleepers_def task_at_def machine0_def new_task_def
        sleeper_def EVENT_LOOP_ID_def)
  then show ?thesis
    by (auto simp: may_run_def two_sleepers_def task_at_def machine0_def new_task_def idle_def
        EVENT_LOOP_ID_def ids_apart_def split: if_splits)
qed

lemma two_sleepers_fields [simp]:
  "active (two_sleepers b) = 2" "stack (two_sleepers b) = [R_run 2]"
  by (simp_all add: two_sleepers_def)

theorem all_of_returns_after_last_witness:
  "\<exists>m1 m2 m3. call_run 2 (two_sleepers (All_of [0, 1])) = Inr m1 \<and> runs m1 m2 \<and>
    (\<exists>m' m''. deliver [1] m2 m' \<and> fire 0 m' = Inr m'' \<and> runs m'' m3) \<and>
    active m3 = 2 \<and> stack m3 = [R_run 2] \<and> finished m3 completed 0 \<and> finished m3 completed 1"
proof -
  have "set [1, 0] = set [0, 1 :: nat]" "distinct [1, 0 :: nat]"
    by auto
  from all_of_returns_after_last [OF two_sleepers_may_run this(2,1)]
  show ?thesis
    by simp blast
qed

theorem any_of_returns_first_witness:
  "\<exists>m1 m2 m3 m4 x. call_run 2 (two_sleepers (Any_of [0, 1])) = Inr m1 \<and> runs m1 m2 \<and>
    fire 1 m2 = Inr m3 \<and> runs m3 m4 \<and> active m4 = 2 \<and> stack m4 = [R_run 2] \<and>
    finished m4 completed 1 \<and> finished m4 canceled 0 \<and>
    task_at m4 2 = Some x \<and> completed_id x = 1"
proof -
  have x: "\<exists>x. task_at (two_sleepers (Any_of [0, 1])) 2 = Some x \<and> completed_id x = - 1"
    by (simp add: two_sleepers_def task_at_def new_task_def)
  have "0 \<in> set [0, 1] - {[0, 1] ! 1 :: nat}"
    by simp
  with any_of_returns_first [OF two_sleepers_may_run _ x, of 1] show ?thesis
    by fastforce
qed

section \<open>Awaiting a task that does not block\<close>

lemma emit_all:
  assumes "\<not> idle m" "stack m = U_body t (map Emit ns @ acts) ls # fs" "control m = Ret b"
  shows "\<exists>b'. runs m (m\<lparr>stack := U_body t acts ls # fs, emitted := emitted m @ ns, control := Ret b'\<rparr>)"
  using assms
proof (induction ns arbitrary: m b)
  case Nil
  then have "m = m\<lparr>stack := U_body t acts ls # fs, emitted := emitted m @ [], control := Ret b\<rparr>"
    by simp
  then show ?case
    using runs_refl [of m] by metis
next
  case (Cons n ns)
  let ?m1 = "m\<lparr>stack := U_body t (map Emit ns @ acts) ls # fs, emitted := emitted m @ [n], control := Ret True\<rparr>"
  have "step m = Inr ?m1"
    using Cons.prems by (simp add: step_def user_action_def ret_def push_def)
  moreover have "\<not> idle ?m1"
    using Cons.prems(1) by (simp add: idle_def)
  ultimately show ?case
    using Cons.IH [of ?m1 True] Cons.prems(1) runs_step by fastforce
qed



section \<open>Where the scheduler falls short\<close>

text \<open>
  C40: \<open>await\<close> of a task that is already running (in its own coroutine) is refused with
  \<open>-1\<close>, but only after the template gave the task's id back to its class and erased it: the
  next task of the class is constructed with the id, and the stack, of the running one.
\<close>

theorem refused_await_frees_running_id:
  assumes "task_at m t = Some y" "status_is y running" "unique_id y \<noteq> EVENT_LOOP_ID"
    and "current m = Some p" "free_list_front (pools m (task_class y)) \<noteq> 0"
    and "free_list_front (pools m (task_class y)) \<le> length (free_list (pools m (task_class y)))"
  shows "\<exists>m' y'. await_primitive t m = Inr m' \<and> control m' = Ret False \<and>
    task_at m' t = Some y' \<and> status_is y' running \<and> unique_id y' = EVENT_LOOP_ID \<and>
    (\<exists>q. take_id (pools m' (task_class y)) = Some (unique_id y, q))"
proof -
  let ?p = "pools m (task_class y)"
  define q where "q = ?p\<lparr>free_list := (free_list ?p)[free_list_front ?p - 1 := unique_id y],
    free_list_front := free_list_front ?p - 1\<rparr>"
  define m' where "m' = upd_task t (\<lambda>y. y\<lparr>unique_id := EVENT_LOOP_ID\<rparr>)
    (m\<lparr>pools := (pools m)(task_class y := q)\<rparr>)"
  have at: "task_at (m\<lparr>pools := (pools m)(task_class y := q)\<rparr>) = task_at m"
    by (rule task_at_cong) simp
  have y': "task_at m' t = Some (y\<lparr>unique_id := EVENT_LOOP_ID\<rparr>)"
    using assms(1) by (simp add: m'_def task_at_upd_task at)
  have "await_release ?p (unique_id y) = Inr (q, EVENT_LOOP_ID)"
    using assms by (simp add: await_release_def give_id_def q_def)
  then have "await_primitive t m = await_task t m'"
    using assms(1) by (simp add: await_primitive_def with_task_def m'_def)
  also have "\<dots> = Inr (ret False m')"
    using assms(2,4) y' by (simp add: await_task_def with_task_def m'_def)
  finally have "await_primitive t m = Inr (ret False m')" .
  moreover have "take_id q = Some (unique_id y, q\<lparr>free_list_front := free_list_front q + 1\<rparr>)"
    using assms(5,6) by (auto simp: take_id_def q_def)
  moreover have "task_at (ret False m') t = task_at m' t"
    by (rule fun_cong [OF task_at_cong]) (simp add: ret_def)
  ultimately show ?thesis
    using assms(2) y' by (auto simp: ret_def m'_def)
qed

theorem refused_await_frees_running_id_witness:
  "\<exists>m' y'. await_primitive 2 ((two_sleepers Sleep)\<lparr>pools := (\<lambda>_. pool8\<lparr>free_list_front := 3\<rparr>)\<rparr>)
       = Inr m' \<and> control m' = Ret False \<and> task_at m' 2 = Some y' \<and> status_is y' running \<and>
     unique_id y' = EVENT_LOOP_ID \<and> (\<exists>q. take_id (pools m' 0) = Some (2, q))"
proof -
  let ?m = "(two_sleepers Sleep)\<lparr>pools := (\<lambda>_. pool8\<lparr>free_list_front := 3\<rparr>)\<rparr>"
  have "task_at ?m 2 = Some (new_task 0 Sleep 2 running)" "current ?m = Some 2"
    by (simp_all add: two_sleepers_def task_at_def)
  moreover have "length (free_list pool8) = 8"
    by (simp add: pool8_def tpl_after_def)
  ultimately show ?thesis
    using refused_await_frees_running_id [of ?m 2 "new_task 0 Sleep 2 running" 2]
    by (simp add: new_task_def EVENT_LOOP_ID_def)
qed

text \<open>
  An \<open>any_of\<close> can return while one of its children is still at work. The program has
  the children \<open>all_of(send)\<close> and two sleeps. When the second sleep ends, the
  \<open>any_of\<close> cancels the \<open>all_of\<close>, which has to wait for its uninterruptable \<open>send\<close>;
  when the first sleep ends meanwhile, it switches into the waiting \<open>any_of\<close>, which takes that
  for the end of the canceled child. The top task is completed, and the \<open>send\<close> (whose objects
  the caller may now destroy) still waits for its event.
\<close>

theorem any_of_returns_before_canceled_child:
  "outcome (session 50 [Send, All_of [0], Sleep, Sleep, Any_of [1, 2, 3]] [3, 2]) =
     Some (Inr ([], [Some (Some running, True), Some (Some canceled, False),
       Some (Some completed, False), Some (Some completed, False),
       Some (Some completed, False)]))"
  by code_simp

text \<open>
  A child that ends with \<open>child_unready\<close> without blocking is not counted by the
  \<open>all_of\<close> above it, which then waits although no event is pending: the top task never ends.
\<close>

theorem all_of_waits_for_unready_child:
  "outcome (session 50 [User [] [], All_of [0], All_of [1],
      User [Await_task 0, Await_task 2, Emit 9] []] []) =
     Some (Inr ([], [Some (Some completed, False), Some (Some child_unready, False),
       Some (Some running, False), Some (Some running, False)]))"
  by code_simp

text \<open>
  A task that is being awaited and calls \<open>start\<close> continues as if it were the task
  that awaits it (\<open>swap_running\<close> restores \<open>global_current_task\<close> from the table of
  coroutines). The token that says who waits for the first block is then lost: the caller of
  \<open>start\<close> is continued (output 3) when the started task blocks in the first program, and only
  when it has ended (after 5 and 6) in the second, where the inner task made a \<open>start\<close> of its
  own before it blocked.
\<close>

theorem start_in_awaited_task_loses_caller:
  "outcome (session 60 [Sleep, User [Emit 2, Await_task 0, Emit 5] [],
      User [Await_task 1, Emit 6] [], User [Start_task 2, Emit 3] []] [0]) =
     Some (Inr ([2, 3, 5, 6], [Some (Some completed, False), Some (Some completed, False), None,
       Some (Some completed, False)])) \<and>
   outcome (session 60 [Sleep, User [New_heap 0 (User [] []), Start_task 4, Emit 2, Await_task 0, Emit 5] [],
      User [Await_task 1, Emit 6] [], User [Start_task 2, Emit 3] []] [0]) =
     Some (Inr ([2, 5, 6, 3], [Some (Some completed, False), Some (Some completed, False), None,
       Some (Some completed, False), None]))"
  by code_simp

end
