(* ===== verification/Scheduler_Scripts.thy ===== *)
theory Scheduler_Scripts
  imports Scheduler_Programs
begin

text \<open>
  Tasks that do one thing after the other. A user's \<open>run()\<close> that outputs and awaits events in turn is written as
  if each \<open>await\<close> were a call that blocks; the theory shows that it executes that way, although at
  every \<open>await\<close> the coroutine is left and the event loop runs.
\<close>

section \<open>One event awaited\<close>

text \<open>
  Task \<open>p\<close> of the coroutine that runs has come to its list of actions \<open>acts\<close>: nobody waits for it to block, and
  no cancelation is under way.
\<close>

definition acting :: "machine \<Rightarrow> tid \<Rightarrow> action list \<Rightarrow> tid list \<Rightarrow> frame list \<Rightarrow> bool" where
  "acting m p acts ls fs \<longleftrightarrow>
     \<not> idle m \<and> current m = Some p \<and> stack m = U_body p acts ls # fs \<and> (\<exists>b. control m = Ret b) \<and>
     \<not> signal_canceled m \<and> contexts m EVENT_LOOP_ID = [] \<and>
     (\<exists>x. task_at m p = Some x \<and> unique_id x = active m \<and> block_to x = EVENT_LOOP_ID)"

text \<open>An event that has not been awaited yet, of a class that can take its id back.\<close>

definition awaitable :: "machine \<Rightarrow> tid \<Rightarrow> bool" where
  "awaitable m s \<longleftrightarrow>
     (\<exists>y. task_at m s = Some y \<and> task_body y = Sleep \<and> (status_is y ready \<or> status_is y limited))"

text \<open>Task \<open>p\<close> awaits event \<open>s\<close>; when it returns, the actions \<open>acts\<close> are next.\<close>

definition awaiting :: "machine \<Rightarrow> uid \<Rightarrow> tid \<Rightarrow> tid \<Rightarrow> action list \<Rightarrow> tid list \<Rightarrow> frame list \<Rightarrow> bool" where
  "awaiting m u p s acts ls fs \<longleftrightarrow>
     idle m \<and> stack m = [] \<and> u \<noteq> EVENT_LOOP_ID \<and> p \<noteq> s \<and> \<not> signal_canceled m \<and>
     contexts m u = Y_swapped s # E_yielded s # A_run p s # U_body p acts ls # fs \<and>
     (\<exists>x. task_at m p = Some x \<and> unique_id x = u \<and> block_to x = EVENT_LOOP_ID) \<and>
     (\<exists>y. task_at m s = Some y \<and> task_body y = Sleep \<and> unique_id y = u \<and> block_to y = EVENT_LOOP_ID \<and>
        status_is y running \<and> armed y)"

lemma overwritten: "i \<noteq> j \<Longrightarrow> xs[i := a, j := b, i := c] = xs[j := b, i := c]"
  by (metis list_update_overwrite list_update_swap)

lemma await_sleep:
  assumes "acting m p (Await_task s # acts) ls fs" "awaitable m s" "p \<noteq> s"
    and "\<And>c. 0 < free_list_front (pools m c)"
  shows "\<exists>m'. step m = Inr m' \<and> awaiting m' (active m) p s acts ls fs \<and> emitted m' = emitted m \<and>
    (\<forall>d. d \<noteq> p \<and> d \<noteq> s \<longrightarrow> task_at m' d = task_at m d) \<and>
    (\<forall>c. free_list_front (pools m c) \<le> Suc (free_list_front (pools m' c)))"
proof -
  obtain x y where x: "task_at m p = Some x" "unique_id x = active m" "block_to x = EVENT_LOOP_ID"
    and y: "task_at m s = Some y" "task_body y = Sleep" "status_is y ready \<or> status_is y limited"
    using assms(1,2) by (auto simp: acting_def awaitable_def)
  note p = task_atD [OF x(1)] and s = task_atD [OF y(1)]
  obtain q where q: "await_release (pools m (task_class y)) (unique_id y) = Inr (q, EVENT_LOOP_ID)"
      "free_list_front (pools m (task_class y)) \<le> Suc (free_list_front q)"
  proof (cases "unique_id y = EVENT_LOOP_ID")
    case True
    then show thesis
      using that [of "pools m (task_class y)"] by (simp add: await_release_def)
  next
    case False
    then show thesis
      using that assms(4) [of "task_class y"] by (simp add: await_release_def give_id_def)
  qed
  let ?y = "y\<lparr>block_to := EVENT_LOOP_ID, finish_to := active m, unique_id := active m,
    info := task_set_status (info y) running, armed := True\<rparr>"
  let ?x = "x\<lparr>reuse := Some s\<rparr>"
  define m' where "m' = m\<lparr>pools := (pools m)(task_class y := q), tasks := (tasks m)[p := Some ?x, s := Some ?y],
    contexts := (contexts m)(active m := Y_swapped s # E_yielded s # A_run p s # U_body p acts ls # fs),
    active := EVENT_LOOP_ID, stack := [], control := Ret True, current := None\<rparr>"
  have "step m = await_primitive s (m\<lparr>stack := U_body p acts ls # fs\<rparr>)"
    using assms(1) by (auto simp: acting_def step_def user_action_def push_def)
  also have "\<dots> = Inr m'"
    using assms(1,3) p s x y q(1)
    by (cases x; cases y)
      (auto simp: acting_def idle_def await_primitive_def await_task_def with_task_def upd_task_def task_at_def
        call_run_def push_def task_yield_def swap_running_def Let_def m'_def nth_list_update overwritten)
  finally have "step m = Inr m'" .
  moreover have "awaiting m' (active m) p s acts ls fs"
    using assms(1,3) p s x y by (simp add: m'_def awaiting_def acting_def idle_def task_at_def)
  moreover have "task_at m' d = task_at m d" if "d \<noteq> p" "d \<noteq> s" for d
    using that by (simp add: m'_def task_at_def)
  ultimately show ?thesis
    using q(2) by (intro exI [of _ m']) (auto simp: m'_def)
qed

lemma sleep_resumes:
  assumes "awaiting m u p s acts ls fs"
  shows "\<exists>m1 m2. fire s m = Inr m1 \<and> runs m1 m2 \<and> acting m2 p acts ls fs \<and> active m2 = u \<and> emitted m2 = emitted m \<and>
    finished m2 completed s \<and> (\<forall>d. d \<noteq> p \<and> d \<noteq> s \<longrightarrow> task_at m2 d = task_at m d) \<and> pools m2 = pools m"
proof -
  obtain x y where x: "task_at m p = Some x" "unique_id x = u" "block_to x = EVENT_LOOP_ID"
    and y: "task_at m s = Some y" "task_body y = Sleep" "unique_id y = u" "block_to y = EVENT_LOOP_ID"
      "status_is y running"
    using assms by (auto simp: awaiting_def)
  note p = task_atD [OF x(1)] and s = task_atD [OF y(1)] and a = assms [unfolded awaiting_def]
  define m1 where "m1 = swap_running EVENT_LOOP_ID u (upd_task s (armed_update (\<lambda>_. False)) m)"
  define m2 where "m2 = m\<lparr>tasks := (tasks m)[p := Some (x\<lparr>reuse := None\<rparr>),
      s := Some (y\<lparr>armed := False, unique_id := EVENT_LOOP_ID, info := task_set_status (info y) completed\<rparr>)],
    contexts := (contexts m)(EVENT_LOOP_ID := []), active := u, stack := U_body p acts ls # fs,
    control := Ret True, current := Some p\<rparr>"
  have "fire s m = Inr m1"
    using y(1,3) s by (simp add: fire_def task_stand_def with_task_def task_at_upd_task m1_def)
  moreover have "steps 3 m1 = Inr m2"
    using a p s x y
    by (cases x; cases y)
      (auto simp: m1_def m2_def steps_numeral idle_def step_def swap_running_def Let_def ret_def await_done_def
        with_task_def upd_task_def task_at_def nth_list_update list_update_swap)
  then have "runs m1 m2"
    by (rule steps_runs)
  moreover have "acting m2 p acts ls fs"
    using a p s x by (auto simp: m2_def acting_def idle_def task_at_def)
  moreover have "finished m2 completed s"
    using s p a by (simp add: m2_def finished_def task_at_def)
  moreover have "task_at m2 d = task_at m d" if "d \<noteq> p" "d \<noteq> s" for d
    using that by (simp add: m2_def task_at_def)
  ultimately show ?thesis
    by (intro exI [of _ m1] exI [of _ m2]) (auto simp: m2_def)
qed

section \<open>One action after the other\<close>

lemma emit_prefix:
  assumes "acting m p (map Emit ns @ acts) ls fs"
  shows "\<exists>m'. runs m m' \<and> acting m' p acts ls fs \<and> emitted m' = emitted m @ ns \<and> active m' = active m \<and>
    tasks m' = tasks m \<and> pools m' = pools m"
proof -
  obtain b where "runs m (m\<lparr>stack := U_body p acts ls # fs, emitted := emitted m @ ns, control := Ret b\<rparr>)"
      (is "runs m ?m'")
    using emit_all [of m p ns acts ls fs] assms unfolding acting_def by blast
  moreover have "task_at ?m' = task_at m"
    by (rule task_at_cong) simp
  then have "acting ?m' p acts ls fs"
    using assms by (auto simp: acting_def idle_def)
  ultimately show ?thesis
    by (intro exI [of _ ?m']) simp
qed

text \<open>A body that outputs and awaits an event, several times, and ends with an output.\<close>

fun script :: "(nat list \<times> tid) list \<Rightarrow> nat list \<Rightarrow> action list" where
  "script [] ns = map Emit ns"
| "script ((os, s) # ps) ns = map Emit os @ Await_task s # script ps ns"

definition scripted :: "machine \<Rightarrow> tid \<Rightarrow> (nat list \<times> tid) list \<Rightarrow> nat list \<Rightarrow> tid list \<Rightarrow> frame list \<Rightarrow> bool" where
  "scripted m p ps ns ls fs \<longleftrightarrow>
     acting m p (script ps ns) ls fs \<and> distinct (p # map snd ps) \<and> (\<forall>s \<in> snd ` set ps. awaitable m s) \<and>
     (\<forall>c. length ps \<le> free_list_front (pools m c))"

text \<open>The execution, with the events that arrive while the event loop has control.\<close>

inductive plays :: "tid list \<Rightarrow> machine \<Rightarrow> machine \<Rightarrow> bool" where
  plays_Nil: "runs m m' \<Longrightarrow> plays [] m m'"
| plays_Cons: "runs m m1 \<Longrightarrow> idle m1 \<Longrightarrow> fire s m1 = Inr m2 \<Longrightarrow> plays ss m2 m' \<Longrightarrow> plays (s # ss) m m'"

lemma plays_after_runs: "plays ss m1 m' \<Longrightarrow> runs m m1 \<Longrightarrow> plays ss m m'"
  by (cases rule: plays.cases) (auto intro: plays.intros runs_trans)

lemma awaitable_keep: "awaitable m s \<Longrightarrow> task_at m' s = task_at m s \<Longrightarrow> awaitable m' s"
  by (simp add: awaitable_def)

lemma script_waits:
  assumes "scripted m p ((os, s) # ps) ns ls fs"
  shows "\<exists>m1. runs m m1 \<and> awaiting m1 (active m) p s (script ps ns) ls fs \<and> emitted m1 = emitted m @ os \<and>
    (\<forall>d. d \<noteq> p \<and> d \<noteq> s \<longrightarrow> task_at m1 d = task_at m d) \<and> (\<forall>c. length ps \<le> free_list_front (pools m1 c))"
proof -
  have "acting m p (map Emit os @ Await_task s # script ps ns) ls fs"
    using assms by (simp add: scripted_def)
  from emit_prefix [OF this] obtain m0 where m0: "runs m m0" "acting m0 p (Await_task s # script ps ns) ls fs"
      "emitted m0 = emitted m @ os" "active m0 = active m" "tasks m0 = tasks m" "pools m0 = pools m"
    by blast
  have "awaitable m0 s" "p \<noteq> s" "\<And>c. 0 < free_list_front (pools m0 c)"
    using assms m0(5,6) by (auto simp: scripted_def awaitable_def task_at_def intro: less_le_trans)
  from await_sleep [OF m0(2) this] obtain m1 where m1: "step m0 = Inr m1" "awaiting m1 (active m0) p s (script ps ns) ls fs"
      "emitted m1 = emitted m0" "\<forall>d. d \<noteq> p \<and> d \<noteq> s \<longrightarrow> task_at m1 d = task_at m0 d"
      "\<forall>c. free_list_front (pools m0 c) \<le> Suc (free_list_front (pools m1 c))"
    by blast
  have "runs m m1"
    using runs_trans [OF m0(1) runs_step [OF _ m1(1) runs_refl]] m0(2) by (simp add: acting_def)
  moreover have "length ps \<le> free_list_front (pools m1 c)" for c
  proof -
    have "Suc (length ps) \<le> free_list_front (pools m0 c)"
      using assms m0(6) by (simp add: scripted_def)
    then show ?thesis
      using m1(5) by (meson Suc_le_mono le_trans)
  qed
  ultimately show ?thesis
    using m1 m0(3-5) task_at_cong [OF m0(5)] by auto
qed

lemma script_continues:
  assumes "scripted m p ((os, s) # ps) ns ls fs"
  shows "\<exists>m1 m2 m3. runs m m1 \<and> awaiting m1 (active m) p s (script ps ns) ls fs \<and> fire s m1 = Inr m2 \<and> runs m2 m3 \<and>
    scripted m3 p ps ns ls fs \<and> active m3 = active m \<and> emitted m3 = emitted m @ os \<and> finished m3 completed s \<and>
    (\<forall>d. d \<noteq> p \<and> d \<noteq> s \<longrightarrow> task_at m3 d = task_at m d)"
proof -
  obtain m1 where m1: "runs m m1" "awaiting m1 (active m) p s (script ps ns) ls fs" "emitted m1 = emitted m @ os"
      "\<forall>d. d \<noteq> p \<and> d \<noteq> s \<longrightarrow> task_at m1 d = task_at m d" "\<forall>c. length ps \<le> free_list_front (pools m1 c)"
    using script_waits [OF assms] by blast
  obtain m2 m3 where m3: "fire s m1 = Inr m2" "runs m2 m3" "acting m3 p (script ps ns) ls fs" "active m3 = active m"
      "emitted m3 = emitted m1" "finished m3 completed s" "\<forall>d. d \<noteq> p \<and> d \<noteq> s \<longrightarrow> task_at m3 d = task_at m1 d" "pools m3 = pools m1"
    using sleep_resumes [OF m1(2)] by blast
  have same: "task_at m3 d = task_at m d" if "d \<noteq> p" "d \<noteq> s" for d
    using m1(4) m3(7) that by simp
  have "awaitable m3 d" if "d \<in> snd ` set ps" for d
  proof -
    have "awaitable m d" "d \<noteq> p" "d \<noteq> s"
      using assms that by (auto simp: scripted_def)
    then show ?thesis
      using awaitable_keep same by blast
  qed
  then have "scripted m3 p ps ns ls fs"
    using assms m3(3,8) m1(5) by (auto simp: scripted_def)
  then show ?thesis
    using m1(1-3) m3 same by metis
qed

lemma script_played:
  assumes "scripted m p ps ns ls fs"
  shows "\<exists>m'. plays (map snd ps) m m' \<and> acting m' p [] ls fs \<and> emitted m' = emitted m @ concat (map fst ps) @ ns \<and>
    (\<forall>s \<in> snd ` set ps. finished m' completed s) \<and>
    (\<forall>d. d \<noteq> p \<and> d \<notin> snd ` set ps \<longrightarrow> task_at m' d = task_at m d)"
  using assms
proof (induction ps arbitrary: m)
  case Nil
  then have "acting m p (map Emit ns @ []) ls fs"
    by (simp add: scripted_def)
  from emit_prefix [OF this] obtain m' where m': "runs m m'" "acting m' p [] ls fs" "emitted m' = emitted m @ ns"
      "tasks m' = tasks m"
    by blast
  then show ?case
    using plays_Nil task_at_cong [OF m'(4)] by (intro exI [of _ m']) simp
next
  case (Cons q ps)
  obtain os s where q: "q = (os, s)"
    by fastforce
  obtain m1 m2 m3 where m: "runs m m1" "awaiting m1 (active m) p s (script ps ns) ls fs" "fire s m1 = Inr m2" "runs m2 m3"
      "scripted m3 p ps ns ls fs" "emitted m3 = emitted m @ os" "finished m3 completed s"
      "\<forall>d. d \<noteq> p \<and> d \<noteq> s \<longrightarrow> task_at m3 d = task_at m d"
    using script_continues [of m p os s ps] Cons.prems unfolding q by blast
  from Cons.IH [OF m(5)] obtain m' where m': "plays (map snd ps) m3 m'" "acting m' p [] ls fs"
      "emitted m' = emitted m3 @ concat (map fst ps) @ ns" "\<forall>s \<in> snd ` set ps. finished m' completed s"
      "\<forall>d. d \<noteq> p \<and> d \<notin> snd ` set ps \<longrightarrow> task_at m' d = task_at m3 d"
    by blast
  have "plays (map snd (q # ps)) m m'"
    using plays_Cons [OF m(1) _ m(3) plays_after_runs [OF m'(1) m(4)]] m(2) by (simp add: q awaiting_def)
  moreover have "s \<noteq> p" "s \<notin> snd ` set ps"
    using Cons.prems by (auto simp: scripted_def q image_iff)
  then have "finished m' completed s"
    using m'(5) m(7) finished_keep by blast
  ultimately show ?case
    using m' m(6,8) by (intro exI [of _ m']) (auto simp: q)
qed

lemma script_waiting:
  assumes "scripted m p ps ns ls fs" "k < length ps"
  shows "\<exists>m'. plays (map snd (take k ps)) m m' \<and>
    awaiting m' (active m) p (snd (ps ! k)) (script (drop (Suc k) ps) ns) ls fs \<and>
    emitted m' = emitted m @ concat (map fst (take (Suc k) ps))"
  using assms
proof (induction ps arbitrary: m k)
  case (Cons q ps)
  obtain os s where q: "q = (os, s)"
    by fastforce
  obtain m1 m2 m3 where m: "runs m m1" "awaiting m1 (active m) p s (script ps ns) ls fs" "fire s m1 = Inr m2" "runs m2 m3"
      "scripted m3 p ps ns ls fs" "active m3 = active m" "emitted m3 = emitted m @ os"
    using script_continues [of m p os s ps] Cons.prems(1) unfolding q by blast
  show ?case
  proof (cases k)
    case 0
    obtain m1 where "runs m m1" "awaiting m1 (active m) p s (script ps ns) ls fs" "emitted m1 = emitted m @ os"
      using script_waits [of m p os s ps] Cons.prems(1) unfolding q by blast
    then show ?thesis
      using plays_Nil by (intro exI [of _ m1]) (simp add: 0 q)
  next
    case (Suc j)
    then obtain m' where m': "plays (map snd (take j ps)) m3 m'"
        "awaiting m' (active m3) p (snd (ps ! j)) (script (drop (Suc j) ps) ns) ls fs"
        "emitted m' = emitted m3 @ concat (map fst (take (Suc j) ps))"
      using Cons.IH [OF m(5), of j] Cons.prems(2) by auto
    have "plays (map snd (take k (q # ps))) m m'"
      using plays_Cons [OF m(1) _ m(3) plays_after_runs [OF m'(1) m(4)]] m(2) by (simp add: q Suc awaiting_def)
    then show ?thesis
      using m' m(6,7) by (intro exI [of _ m']) (simp add: q Suc)
  qed
qed simp

text \<open>
  C5: a task reads like the program it is. Let a task output, await an event, output, await the next event and so
  on, any number of times. While \<open>k\<close> of the events have arrived, it waits for event number \<open>k\<close>, the
  event loop has control, and the output is what the body outputs up to there; when the last has
  arrived, the body is at its end, everything has been output in order, every event is completed and no other
  task has been touched.
\<close>

theorem awaits_run_in_order:
  assumes "scripted m p ps ns ls fs"
  shows "(\<forall>k < length ps. \<exists>m'. plays (map snd (take k ps)) m m' \<and>
      awaiting m' (active m) p (snd (ps ! k)) (script (drop (Suc k) ps) ns) ls fs \<and>
      emitted m' = emitted m @ concat (map fst (take (Suc k) ps))) \<and>
    (\<exists>m'. plays (map snd ps) m m' \<and> acting m' p [] ls fs \<and> emitted m' = emitted m @ concat (map fst ps) @ ns \<and>
      (\<forall>s \<in> snd ` set ps. finished m' completed s) \<and>
      (\<forall>d. d \<noteq> p \<and> d \<notin> snd ` set ps \<longrightarrow> task_at m' d = task_at m d))"
  using script_waiting [OF assms] script_played [OF assms] by blast

theorem awaits_run_in_order_witness:
  "\<exists>m m'. plays [0, 1] m m' \<and> emitted m = [] \<and> emitted m' = [7, 8, 9]"
proof -
  let ?m = "(two_sleepers (User (script [([7], 0), ([8], 1)] [9]) []))
    \<lparr>stack := [U_body 2 (script [([7], 0), ([8], 1)] [9]) [], R_run 2], current := Some 2,
     pools := (\<lambda>_. pool8\<lparr>free_list_front := 3\<rparr>)\<rparr>"
  have "scripted ?m 2 [([7], 0), ([8], 1)] [9] [] [R_run 2]"
    by (auto simp: scripted_def acting_def awaitable_def idle_def two_sleepers_def machine0_def task_at_def new_task_def
        EVENT_LOOP_ID_def)
  from awaits_run_in_order [OF this] show ?thesis
    by (fastforce simp: two_sleepers_def machine0_def)
qed

end
