(* ===== verification/Sockaddr.thy ===== *)
theory Sockaddr
  imports Ccf_Prelude
begin

text \<open>
  Socket addresses (\<open>src/tools.cc\<close>): IPv4 addresses are kept in the larger IPv6 structure by way
  of a union. A structure is its family and the bytes behind it.
\<close>

section \<open>Structures\<close>

record sockaddr =
  sa_family :: u16
  sa_data :: "u8 list"

definition AF_INET :: u16 where "AF_INET = 2"

definition AF_INET6 :: u16 where "AF_INET6 = 10"

text \<open>The bytes behind the family in \<open>sockaddr_in\<close> (16 bytes) and \<open>sockaddr_in6\<close> (28 bytes).\<close>

definition sockaddr_in_len :: nat where "sockaddr_in_len = 14"

definition sockaddr_in6_len :: nat where "sockaddr_in6_len = 26"

text \<open>
  The union conversions. The bytes of the IPv6 structure that the IPv4 one does not cover are
  whatever was in memory: an argument.
\<close>

definition sockaddr_in_into_sockaddr_in6 :: "u8 list \<Rightarrow> sockaddr \<Rightarrow> sockaddr" where
  "sockaddr_in_into_sockaddr_in6 garbage a =
     a\<lparr>sa_data := sa_data a @ take (sockaddr_in6_len - length (sa_data a)) garbage\<rparr>"

definition sockaddr_in_outof_sockaddr_in6 :: "sockaddr \<Rightarrow> sockaddr" where
  "sockaddr_in_outof_sockaddr_in6 a = a\<lparr>sa_data := take sockaddr_in_len (sa_data a)\<rparr>"

text \<open>\<open>ip_to_str\<close>, with the name functions of the event library as arguments.\<close>

definition sin_port :: "sockaddr \<Rightarrow> nat" where
  "sin_port a = unat (sa_data a ! 0) * 256 + unat (sa_data a ! 1)"

fun decimal_digits :: "nat \<Rightarrow> nat \<Rightarrow> string" where
  "decimal_digits 0 n = []"
| "decimal_digits (Suc k) n =
     (if n < 10 then [char_of (48 + n)] else decimal_digits k (n div 10) @ [char_of (48 + n mod 10)])"

definition print_u16 :: "nat \<Rightarrow> string" where
  "print_u16 n = decimal_digits 5 n"

definition ip4_to_str :: "(sockaddr \<Rightarrow> string option) \<Rightarrow> sockaddr \<Rightarrow> string" where
  "ip4_to_str ip4_name a =
     (case ip4_name a of
        Some s \<Rightarrow> s @ '':'' @ print_u16 (sin_port a)
      | None \<Rightarrow> ''Illegal IPv4 Address'')"

definition ip6_to_str :: "(sockaddr \<Rightarrow> string option) \<Rightarrow> sockaddr \<Rightarrow> string" where
  "ip6_to_str ip6_name a =
     (case ip6_name a of
        Some s \<Rightarrow> ''['' @ s @ '']:'' @ print_u16 (sin_port a)
      | None \<Rightarrow> ''Illegal IPv6 Address'')"

definition ip_to_str ::
  "(sockaddr \<Rightarrow> string option) \<Rightarrow> (sockaddr \<Rightarrow> string option) \<Rightarrow> sockaddr \<Rightarrow> string" where
  "ip_to_str ip4_name ip6_name a =
     (if sa_family a = AF_INET then ip4_to_str ip4_name a
      else if sa_family a = AF_INET6 then ip6_to_str ip6_name a
      else ''Not IP Address'')"

section \<open>Nothing is lost\<close>

lemma into_family [simp]: "sa_family (sockaddr_in_into_sockaddr_in6 g a) = sa_family a"
  by (simp add: sockaddr_in_into_sockaddr_in6_def)

lemma outof_into:
  "length (sa_data a) = sockaddr_in_len \<Longrightarrow>
     sockaddr_in_outof_sockaddr_in6 (sockaddr_in_into_sockaddr_in6 g a) = a"
  by (simp add: sockaddr_in_outof_sockaddr_in6_def sockaddr_in_into_sockaddr_in6_def)

lemma into_length:
  "length (sa_data a) = sockaddr_in_len \<Longrightarrow> length g = sockaddr_in6_len \<Longrightarrow>
     length (sa_data (sockaddr_in_into_sockaddr_in6 g a)) = sockaddr_in6_len"
  by (simp add: sockaddr_in_into_sockaddr_in6_def sockaddr_in_len_def sockaddr_in6_len_def)

section \<open>Printed addresses\<close>

text \<open>The number a string of decimal digits denotes.\<close>

definition digits_value :: "string \<Rightarrow> nat" where
  "digits_value = foldl (\<lambda>v c. 10 * v + (of_char c - 48)) 0"

lemma of_char_digit: "d < 10 \<Longrightarrow> of_char (char_of (48 + d) :: char) = 48 + (d :: nat)"
  by simp

lemma digits_value_decimal: "n < 10 ^ k \<Longrightarrow> digits_value (decimal_digits k n) = n"
proof (induction k n rule: decimal_digits.induct)
  case (2 k n)
  have "of_char (char_of (48 + n) :: char) = 48 + n" if "n < 10"
    using that by (rule of_char_digit)
  moreover have "of_char (char_of (48 + n mod 10) :: char) = 48 + n mod 10"
    by (rule of_char_digit) simp
  ultimately show ?case
    using 2 by (auto simp: digits_value_def)
qed (simp add: digits_value_def)

lemma digit_chars: "c \<in> set (decimal_digits k n) \<Longrightarrow> of_char c < (58 :: nat)"
proof (induction k n rule: decimal_digits.induct)
  case (2 k n)
  then show ?case
    using of_char_digit [of n] of_char_digit [of "n mod 10"] by (auto split: if_splits)
qed simp

lemma unat_u8_less: "unat (x :: u8) < 256"
  using unsigned_less [of x, where ?'a = nat] by simp

lemma sin_port_bound: "sin_port a < 65536"
  using unat_u8_less [of "sa_data a ! 0"] unat_u8_less [of "sa_data a ! 1"] by (simp add: sin_port_def)

lemma print_sin_port: "digits_value (print_u16 (sin_port a)) = sin_port a"
  using sin_port_bound [of a] by (simp add: print_u16_def digits_value_decimal)

lemma no_separator [simp]:
  "CHR '':'' \<notin> set (print_u16 n)" "CHR '']'' \<notin> set (print_u16 n)" "CHR ''['' \<notin> set (print_u16 n)"
  using digit_chars by (force simp: print_u16_def)+

text \<open>
  C23: the text of an address tells the host and the port. If the library's name of an IPv4 host
  holds no colon (it is in dotted form) and its name of an IPv6 host no bracket, then two
  addresses of the same family with the same text have the same host name and the same port.
\<close>

theorem ip_to_str_tells_apart:
  assumes "sa_family a \<in> {AF_INET, AF_INET6}" "sa_family b = sa_family a"
    and "\<And>x s. ip4_name x = Some s \<Longrightarrow> CHR '':'' \<notin> set s"
    and "\<And>x s. ip6_name x = Some s \<Longrightarrow> CHR '']'' \<notin> set s"
    and "(if sa_family a = AF_INET then ip4_name else ip6_name) a = Some s"
    and "(if sa_family a = AF_INET then ip4_name else ip6_name) b = Some s'"
    and "ip_to_str ip4_name ip6_name a = ip_to_str ip4_name ip6_name b"
  shows "s = s' \<and> sin_port a = sin_port b"
proof (cases "sa_family a = AF_INET")
  case True
  then have "s @ CHR '':'' # print_u16 (sin_port a) = s' @ CHR '':'' # print_u16 (sin_port b)"
    using assms(2,5-7) by (simp add: ip_to_str_def ip4_to_str_def)
  moreover have "CHR '':'' \<notin> set s"
    using True assms(3,5) by simp
  ultimately have "s = s' \<and> print_u16 (sin_port a) = print_u16 (sin_port b)"
    by (simp add: append_Cons_eq_iff)
  then show ?thesis
    by (metis print_sin_port)
next
  case False
  then have "s @ CHR '']'' # '':'' @ print_u16 (sin_port a) = s' @ CHR '']'' # '':'' @ print_u16 (sin_port b)"
    using assms(1,2,5-7) by (simp add: ip_to_str_def ip6_to_str_def AF_INET_def AF_INET6_def)
  moreover have "CHR '']'' \<notin> set s"
    using False assms(4,5) by simp
  ultimately have "s = s' \<and> print_u16 (sin_port a) = print_u16 (sin_port b)"
    by (simp add: append_Cons_eq_iff)
  then show ?thesis
    by (metis print_sin_port)
qed

text \<open>A name function that gives every host the same name.\<close>

theorem ip_to_str_tells_apart_witness:
  "ip_to_str (\<lambda>_. Some ''1.2.3.4'') (\<lambda>_. None) \<lparr>sa_family = 2, sa_data = [0, 80]\<rparr> = ''1.2.3.4:80'' \<and>
   ip_to_str (\<lambda>_. Some ''1.2.3.4'') (\<lambda>_. None) \<lparr>sa_family = 2, sa_data = [0, 22]\<rparr> \<noteq> ''1.2.3.4:80''"
proof -
  let ?a = "\<lparr>sa_family = 2, sa_data = [0, 80]\<rparr>"
  let ?b = "\<lparr>sa_family = 2, sa_data = [0, 22]\<rparr>"
  have "ip_to_str (\<lambda>_. Some ''1.2.3.4'') (\<lambda>_. None) ?a = ''1.2.3.4:80''"
    by code_simp
  moreover have "ip_to_str (\<lambda>_. Some ''1.2.3.4'') (\<lambda>_. None) ?a \<noteq>
      ip_to_str (\<lambda>_. Some ''1.2.3.4'') (\<lambda>_. None) ?b"
  proof
    assume "ip_to_str (\<lambda>_. Some ''1.2.3.4'') (\<lambda>_. None) ?a =
      ip_to_str (\<lambda>_. Some ''1.2.3.4'') (\<lambda>_. None) ?b"
    then have "sin_port ?a = sin_port ?b"
      using ip_to_str_tells_apart [of ?a ?b "\<lambda>_. Some ''1.2.3.4''" "\<lambda>_. None" "''1.2.3.4''" "''1.2.3.4''"]
      by (auto simp: AF_INET_def)
    then show False
      by (simp add: sin_port_def)
  qed
  ultimately show ?thesis
    by simp
qed

end
