(* ===== verification/Scheduler_Debug.thy ===== *)
theory Scheduler_Debug
  imports Scheduler_Runs Sockaddr
begin

text \<open>
  What the scheduler does in addition when \<open>set_debug\<close> has been called: the texts that name tasks
  (\<open>__task_to_tips\<close>, \<open>src/cocoflow-comm.h\<close>), the line for a switch, and the search of
  \<open>__task_runtime\<close> for the combinator a child belongs to, which aborts when it finds none. The
  readable names of the classes come from the C++ library and are a parameter.
\<close>

section \<open>The name of a task\<close>

definition CLASS_TIPS_MAX_LEN :: nat where
  "CLASS_TIPS_MAX_LEN = 2048"

text \<open>Writing a text with its final zero into one of the two static buffers.\<close>

definition into_tips :: "string \<Rightarrow> string res" where
  "into_tips s = (if length s < CLASS_TIPS_MAX_LEN then Inr s else Inl Out_of_bounds)"

text \<open>The loop \<open>while (p->reuse) p = p->reuse\<close>, with a round for every task there is.\<close>

fun reuse_end :: "nat \<Rightarrow> machine \<Rightarrow> tid \<Rightarrow> tid res" where
  "reuse_end 0 m t = Inl Diverges"
| "reuse_end (Suc n) m t =
     with_task m t (\<lambda>x. case reuse x of None \<Rightarrow> Inr t | Some t' \<Rightarrow> reuse_end n m t')"

definition task_to_tips :: "(tid \<Rightarrow> string) \<Rightarrow> machine \<Rightarrow> tid option \<Rightarrow> bool \<Rightarrow> string res" where
  "task_to_tips name m et show_reuse =
     (case et of
        None \<Rightarrow> Inr ''???''
      | Some t \<Rightarrow>
          with_task m t (\<lambda>x.
            case reuse x of
              None \<Rightarrow> into_tips (name t)
            | Some t' \<Rightarrow>
                if show_reuse
                then res_bind (reuse_end (length (tasks m)) m t') (\<lambda>r. into_tips (name t @ ''|'' @ name r))
                else into_tips (name t)))"

section \<open>The line for a switch\<close>

definition uid_text :: "uid \<Rightarrow> string" where
  "uid_text u = decimal_digits 10 (unat u)"

definition side_text :: "(tid \<Rightarrow> string) \<Rightarrow> machine \<Rightarrow> uid \<Rightarrow> string res" where
  "side_text name m u =
     res_bind (task_to_tips name m (manager m u) True) (\<lambda>s. Inr (uid_text u @ ''-<'' @ s @ ''>''))"

definition switch_line :: "(tid \<Rightarrow> string) \<Rightarrow> machine \<Rightarrow> uid \<Rightarrow> uid \<Rightarrow> string res" where
  "switch_line name m cur nxt =
     (if cur = EVENT_LOOP_ID
      then res_bind (side_text name m nxt) (\<lambda>t. Inr (''[Switch]          EventLoop -> '' @ t))
      else if nxt = EVENT_LOOP_ID
      then res_bind (side_text name m cur) (\<lambda>s. Inr (''[Switch]          '' @ s @ '' -> EventLoop''))
      else res_bind (side_text name m cur) (\<lambda>s.
        res_bind (side_text name m nxt) (\<lambda>t. Inr (''[Switch]          '' @ s @ '' -> '' @ t))))"

section \<open>The combinator of a child that has ended\<close>

definition child_report :: "(tid \<Rightarrow> string) \<Rightarrow> machine \<Rightarrow> uid \<Rightarrow> tid \<Rightarrow> string option res" where
  "child_report name m u t =
     with_task m t (\<lambda>x.
       if \<not> task_is_all_any (info x) then Inr None
       else
         (let line = (\<lambda>combinator. res_bind (task_to_tips name m (Some t) False) (\<lambda>s.
                Inr (Some (''[Logic] ['' @ combinator @ '']  '' @ uid_text u @ ''-<'' @ s @ ''> is '' @
                  (if status_is x canceled then ''canceled'' else ''completed'')))))
          in if finish_to x = EVENT_LOOP_ID then Inl Out_of_bounds
             else case manager m (finish_to x) of
               None \<Rightarrow> Inl Null_pointer
             | Some parent \<Rightarrow>
                 res_bind (reuse_end (length (tasks m)) m parent) (\<lambda>parent.
                   with_task m parent (\<lambda>p.
                     case task_body p of
                       Any_of _ \<Rightarrow> line ''any_of''
                     | All_of _ \<Rightarrow> line ''all_of''
                     | _ \<Rightarrow> Inl Check_failed))))"

section \<open>Chains of awaits\<close>

text \<open>The tasks from \<open>t\<close> on, each of which awaits the next.\<close>

inductive awaits_chain :: "machine \<Rightarrow> tid \<Rightarrow> tid list \<Rightarrow> tid \<Rightarrow> bool" for m where
  chain_end: "task_at m t = Some x \<Longrightarrow> reuse x = None \<Longrightarrow> awaits_chain m t [t] t"
| chain_next: "task_at m t = Some x \<Longrightarrow> reuse x = Some t' \<Longrightarrow> awaits_chain m t' ts r \<Longrightarrow>
    awaits_chain m t (t # ts) r"

lemma chain_exists: "awaits_chain m t ts r \<Longrightarrow> set ts \<subseteq> {..<length (tasks m)} \<and> r \<in> set ts \<and> ts \<noteq> []"
  by (induction rule: awaits_chain.induct) (auto dest: task_atD(1))

text \<open>Chains are determined by where they begin, so none meets a task twice.\<close>

lemma chain_unique: "awaits_chain m t ts r \<Longrightarrow> awaits_chain m t ts' r' \<Longrightarrow> ts' = ts \<and> r' = r"
proof (induction arbitrary: ts' r' rule: awaits_chain.induct)
  case (chain_end t x)
  from chain_end.prems show ?case
    by (cases rule: awaits_chain.cases) (use chain_end.hyps in auto)
next
  case first: (chain_next t x t' ts r)
  from first.prems show ?case
  proof (cases rule: awaits_chain.cases)
    case (chain_end y)
    then show ?thesis
      using first.hyps(1,2) by simp
  next
    case (chain_next y s us)
    then have "s = t'"
      using first.hyps(1,2) by simp
    then show ?thesis
      using chain_next(1,4) first.IH [of us r'] by blast
  qed
qed

lemma chain_from: "awaits_chain m t ts r \<Longrightarrow> s \<in> set ts \<Longrightarrow> \<exists>us. awaits_chain m s us r \<and> length us \<le> length ts"
proof (induction rule: awaits_chain.induct)
  case (chain_next t x t' ts r)
  then show ?case
    by (cases "s = t") (force intro: awaits_chain.chain_next)+
qed (auto intro: awaits_chain.intros)

lemma chain_distinct: "awaits_chain m t ts r \<Longrightarrow> distinct ts"
proof (induction rule: awaits_chain.induct)
  case (chain_next t x t' ts r)
  have "t \<notin> set ts"
  proof
    assume "t \<in> set ts"
    from chain_from [OF chain_next.hyps(3) this] obtain us where us: "awaits_chain m t us r" "length us \<le> length ts"
      by blast
    from chain_unique [OF awaits_chain.chain_next [OF chain_next.hyps(1-3)] us(1)] us(2) show False
      by simp
  qed
  then show ?case
    using chain_next.IH by simp
qed simp

lemma chain_length: "awaits_chain m t ts r \<Longrightarrow> length ts \<le> length (tasks m)"
proof -
  assume a: "awaits_chain m t ts r"
  then have "card (set ts) \<le> card {..<length (tasks m)}"
    using chain_exists by (intro card_mono) auto
  then show ?thesis
    using distinct_card [OF chain_distinct [OF a]] by simp
qed

text \<open>A round for every task is enough, whatever the chain.\<close>

lemma reuse_end_chain: "awaits_chain m t ts r \<Longrightarrow> length ts \<le> n \<Longrightarrow> reuse_end n m t = Inr r"
proof (induction arbitrary: n rule: awaits_chain.induct)
  case (chain_end t x)
  then show ?case
    by (cases n) (simp_all add: with_task_def)
next
  case (chain_next t x t' ts r)
  then show ?case
    by (cases n) (simp_all add: with_task_def)
qed

lemma reuse_end_last: "awaits_chain m t ts r \<Longrightarrow> reuse_end (length (tasks m)) m t = Inr r"
  using reuse_end_chain chain_length by blast

text \<open>
  It is the loop of \<open>__task_cancel_children\<close> on a chain in which every task can be
  interrupted: both come to the same task.
\<close>

lemma find_final_chain:
  "awaits_chain m t ts r \<Longrightarrow> length ts \<le> n \<Longrightarrow>
    (\<And>s x. s \<in> set ts \<Longrightarrow> task_at m s = Some x \<Longrightarrow> \<not> task_is_uninterruptable (info x)) \<Longrightarrow>
    find_final n m t = Inr (r, False)"
proof (induction arbitrary: n rule: awaits_chain.induct)
  case (chain_end t x)
  then show ?case
    by (cases n) (auto simp: with_task_def)
next
  case (chain_next t x t' ts r)
  then show ?case
    by (cases n) (auto simp: with_task_def)
qed

section \<open>Names fit or overflow the buffer\<close>

lemma tips_of_chain:
  assumes "awaits_chain m t ts r"
  shows "task_to_tips name m (Some t) True = into_tips (if r = t then name t else name t @ ''|'' @ name r)"
  using assms
proof (cases rule: awaits_chain.cases)
  case (chain_end x)
  then show ?thesis
    by (simp add: task_to_tips_def with_task_def)
next
  case (chain_next x t' us)
  have "r \<noteq> t"
    using chain_distinct [OF assms] chain_exists [OF chain_next(4)] chain_next(1) by auto
  then show ?thesis
    using chain_next(2,3) reuse_end_last [OF chain_next(4)] by (simp add: task_to_tips_def with_task_def)
qed

text \<open>
  With names of less than 1023 characters a switch is always reported, on every
  side that has no task or a task whose chain of awaits ends.
\<close>

definition nameable :: "machine \<Rightarrow> uid \<Rightarrow> bool" where
  "nameable m u \<longleftrightarrow> (\<forall>t. manager m u = Some t \<longrightarrow> (\<exists>ts r. awaits_chain m t ts r))"

lemma side_text_returns:
  assumes "nameable m u" "\<And>t. length (name t) < 1023"
  shows "\<exists>s. side_text name m u = Inr s"
proof (cases "manager m u")
  case None
  then show ?thesis
    by (simp add: side_text_def task_to_tips_def)
next
  case (Some t)
  then obtain ts r where "awaits_chain m t ts r"
    using assms(1) by (auto simp: nameable_def)
  moreover have "length (if r = t then name t else name t @ ''|'' @ name r) < CLASS_TIPS_MAX_LEN"
    using assms(2) [of t] assms(2) [of r] by (simp add: CLASS_TIPS_MAX_LEN_def)
  ultimately show ?thesis
    using Some tips_of_chain by (simp add: side_text_def into_tips_def)
qed

lemma switch_line_returns:
  assumes "cur \<noteq> EVENT_LOOP_ID \<Longrightarrow> nameable m cur" "nxt \<noteq> EVENT_LOOP_ID \<Longrightarrow> nameable m nxt"
    and "cur \<noteq> EVENT_LOOP_ID \<or> nxt \<noteq> EVENT_LOOP_ID" "\<And>t. length (name t) < 1023"
  shows "\<exists>s. switch_line name m cur nxt = Inr s"
proof -
  have reported: "\<exists>s. side_text name m u = Inr s" if "nameable m u" for u
    using side_text_returns [OF that] assms(4) by blast
  obtain s where "cur \<noteq> EVENT_LOOP_ID \<Longrightarrow> side_text name m cur = Inr s"
    using reported assms(1) by blast
  moreover obtain t where "nxt \<noteq> EVENT_LOOP_ID \<Longrightarrow> side_text name m nxt = Inr t"
    using reported assms(2) by blast
  ultimately show ?thesis
    using assms(3) by (simp add: switch_line_def)
qed

text \<open>Two names of 1024 characters, as templates have them, are written past the end of the buffer.\<close>

lemma long_names_overflow:
  assumes "awaits_chain m t ts r" "r \<noteq> t" "1024 \<le> length (name t)" "1024 \<le> length (name r)"
    "manager m u = Some t"
  shows "side_text name m u = Inl Out_of_bounds"
  using assms tips_of_chain [OF assms(1)]
  by (simp add: side_text_def into_tips_def CLASS_TIPS_MAX_LEN_def)

text \<open>
  The search for the combinator succeeds when child \<open>c\<close> of a combinator ends that is run by
  its coroutine or awaited there.
\<close>

lemma child_report_found:
  assumes "task_at m c = Some x" "task_is_all_any (info x)" "finish_to x \<noteq> EVENT_LOOP_ID"
    "manager m (finish_to x) = Some t" "awaits_chain m t ts r" "task_at m r = Some y"
    "task_body y = All_of cs \<or> task_body y = Any_of cs" "length (name c) < CLASS_TIPS_MAX_LEN"
  shows "\<exists>line. child_report name m u c = Inr (Some line)"
  using assms reuse_end_last [OF assms(5)]
  by (auto simp: child_report_def with_task_def task_to_tips_def into_tips_def Let_def split: option.splits)

end
