(* ===== verification/Seqer.thy ===== *)
theory Seqer
  imports Ccf_Prelude
begin

text \<open>
  The table of receivers that wait for a packet with a given sequence (\<open>seqer_wrapper\<close> in
  \<open>include/cocoflow.h\<close>, shared by \<open>udp::recv_by_seq\<close> and \<open>tcp::recv_by_seq\<close>). It is a
  \<open>std::multimap\<close> ordered by a comparison the user gives. Among equivalent keys an insertion
  goes behind the others, and \<open>find\<close> yields the first one (as the library the makefiles build
  with does).
\<close>

section \<open>The multimap\<close>

type_synonym 'q multimap = "('q \<times> tid) list"

text \<open>Two keys are equivalent when neither comes before the other.\<close>

definition equiv_key :: "('q \<Rightarrow> 'q \<Rightarrow> bool) \<Rightarrow> 'q \<Rightarrow> 'q \<Rightarrow> bool" where
  "equiv_key lt a b \<longleftrightarrow> \<not> lt a b \<and> \<not> lt b a"

fun mm_insert :: "('q \<Rightarrow> 'q \<Rightarrow> bool) \<Rightarrow> 'q \<Rightarrow> tid \<Rightarrow> 'q multimap \<Rightarrow> 'q multimap" where
  "mm_insert lt q t [] = [(q, t)]"
| "mm_insert lt q t ((k, v) # m) =
     (if lt q k then (q, t) # (k, v) # m else (k, v) # mm_insert lt q t m)"

definition mm_erase :: "('q \<Rightarrow> 'q \<Rightarrow> bool) \<Rightarrow> 'q \<Rightarrow> 'q multimap \<Rightarrow> 'q multimap" where
  "mm_erase lt q m = filter (\<lambda>(k, _). \<not> equiv_key lt k q) m"

text \<open>\<open>find\<close> and, if there is an element, its removal.\<close>

fun mm_take :: "('q \<Rightarrow> 'q \<Rightarrow> bool) \<Rightarrow> 'q \<Rightarrow> 'q multimap \<Rightarrow> (tid \<times> 'q multimap) option" where
  "mm_take lt q [] = None"
| "mm_take lt q ((k, v) # m) =
     (if lt k q then map_option (\<lambda>(t, m'). (t, (k, v) # m')) (mm_take lt q m)
      else if lt q k then None
      else Some (v, m))"

section \<open>The wrapper\<close>

text \<open>
  The getter is the user's: it reads the sequence of a packet into \<open>cur_seq\<close> and returns a
  negative number when the packet has none.
\<close>

record 'q seqer =
  seq_mapping :: "'q multimap"
  cur_seq :: 'q

type_synonym 'q getter = "u8 list \<Rightarrow> 'q \<Rightarrow> int \<times> 'q"

definition seqer_insert :: "('q \<Rightarrow> 'q \<Rightarrow> bool) \<Rightarrow> 'q \<Rightarrow> tid \<Rightarrow> 'q seqer \<Rightarrow> 'q seqer" where
  "seqer_insert lt q t s = s\<lparr>seq_mapping := mm_insert lt q t (seq_mapping s)\<rparr>"

definition seqer_erase :: "('q \<Rightarrow> 'q \<Rightarrow> bool) \<Rightarrow> 'q \<Rightarrow> 'q seqer \<Rightarrow> 'q seqer" where
  "seqer_erase lt q s = s\<lparr>seq_mapping := mm_erase lt q (seq_mapping s)\<rparr>"

definition unwrap ::
  "('q \<Rightarrow> 'q \<Rightarrow> bool) \<Rightarrow> 'q getter \<Rightarrow> u8 list \<Rightarrow> 'q seqer \<Rightarrow> int \<times> tid option \<times> 'q seqer" where
  "unwrap lt getter buf s =
     (let (ret, q) = getter buf (cur_seq s); s = s\<lparr>cur_seq := q\<rparr>
      in if ret \<ge> 0 then
           (case mm_take lt q (seq_mapping s) of
              Some (t, m') \<Rightarrow> (ret, Some t, s\<lparr>seq_mapping := m'\<rparr>)
            | None \<Rightarrow> (ret, None, s))
         else (ret, None, s))"

section \<open>A registry of waiters by key\<close>

text \<open>A history: receivers start to wait, packets arrive. The result lists who got a packet.\<close>

datatype 'q seq_event = Wait_for 'q tid | Packet 'q

fun serve :: "('q \<Rightarrow> tid \<Rightarrow> 'm \<Rightarrow> 'm) \<Rightarrow> ('q \<Rightarrow> 'm \<Rightarrow> (tid \<times> 'm) option) \<Rightarrow>
    'q seq_event list \<Rightarrow> 'm \<Rightarrow> ('q \<times> tid) list \<times> 'm" where
  "serve put pop [] m = ([], m)"
| "serve put pop (Wait_for q t # es) m = serve put pop es (put q t m)"
| "serve put pop (Packet q # es) m =
     (case pop q m of
        None \<Rightarrow> serve put pop es m
      | Some (t, m') \<Rightarrow> (case serve put pop es m' of (ds, m'') \<Rightarrow> ((q, t) # ds, m'')))"

fun waits_for :: "('q \<Rightarrow> 'q \<Rightarrow> bool) \<Rightarrow> 'q \<Rightarrow> 'q seq_event list \<Rightarrow> tid list" where
  "waits_for same p [] = []"
| "waits_for same p (Wait_for q t # es) =
     (if same q p then t # waits_for same p es else waits_for same p es)"
| "waits_for same p (Packet q # es) = waits_for same p es"

definition served :: "('q \<Rightarrow> 'q \<Rightarrow> bool) \<Rightarrow> 'q \<Rightarrow> ('q \<times> tid) list \<Rightarrow> tid list" where
  "served same p ds = map snd (filter (\<lambda>(q, _). same q p) ds)"

text \<open>
  What the receivers rely on: the waiters for a key form a queue. A new waiter goes to the end
  of the queue of its key, taking one for a key removes the first, and both leave the queues of
  other keys alone; erasing a key empties its queue.
\<close>

locale waiter_queues =
  fixes same :: "'q \<Rightarrow> 'q \<Rightarrow> bool"
    and waiting :: "'m \<Rightarrow> 'q \<Rightarrow> tid list"
    and invar :: "'m \<Rightarrow> bool"
    and put :: "'q \<Rightarrow> tid \<Rightarrow> 'm \<Rightarrow> 'm"
    and pop :: "'q \<Rightarrow> 'm \<Rightarrow> (tid \<times> 'm) option"
    and drop_key :: "'q \<Rightarrow> 'm \<Rightarrow> 'm"
  assumes same_refl: "same q q"
    and put_invar: "invar m \<Longrightarrow> invar (put q t m)"
    and put_waiting: "invar m \<Longrightarrow>
      waiting (put q t m) p = (if same q p then waiting m p @ [t] else waiting m p)"
    and pop_None: "invar m \<Longrightarrow> pop q m = None \<longleftrightarrow> waiting m q = []"
    and pop_Some: "invar m \<Longrightarrow> pop q m = Some (t, m') \<Longrightarrow> invar m' \<and>
      (\<forall>p. waiting m p = (if same q p then t # waiting m' p else waiting m' p))"
    and drop_invar: "invar m \<Longrightarrow> invar (drop_key q m)"
    and drop_waiting: "invar m \<Longrightarrow>
      waiting (drop_key q m) p = (if same q p then [] else waiting m p)"
begin

lemma pop_after_put:
  assumes "invar m" "waiting m q = []"
  shows "\<exists>m'. pop q (put q t m) = Some (t, m') \<and> invar m' \<and> waiting m' q = []"
proof -
  have w: "waiting (put q t m) q = [t]" "invar (put q t m)"
    using assms put_waiting put_invar same_refl by auto
  then obtain t' m' where p: "pop q (put q t m) = Some (t', m')"
    using pop_None [of "put q t m" q] by (cases "pop q (put q t m)") auto
  then show ?thesis
    using pop_Some [OF w(2) p] w(1) same_refl [of q] by auto
qed

lemma serve_fifo:
  "invar m \<Longrightarrow> serve put pop es m = (ds, m') \<Longrightarrow>
     waiting m p @ waits_for same p es = served same p ds @ waiting m' p"
proof (induction es arbitrary: m ds)
  case Nil
  then show ?case by (simp add: served_def)
next
  case (Cons e es)
  show ?case
  proof (cases e)
    case (Wait_for q t)
    then have "serve put pop es (put q t m) = (ds, m')"
      using Cons.prems(2) by simp
    from Cons.IH [OF put_invar [OF Cons.prems(1)] this] show ?thesis
      using put_waiting [OF Cons.prems(1), of q t p] Wait_for by (simp split: if_splits)
  next
    case (Packet q)
    show ?thesis
    proof (cases "pop q m")
      case None
      then show ?thesis
        using Packet Cons by simp
    next
      case (Some r)
      obtain t m1 where r: "r = (t, m1)" by (cases r)
      obtain ds1 where ds: "serve put pop es m1 = (ds1, m')" "ds = (q, t) # ds1"
        using Cons.prems(2) Packet Some r by (auto split: prod.splits)
      from pop_Some [OF Cons.prems(1)] Some r
      have "invar m1" "waiting m p = (if same q p then t # waiting m1 p else waiting m1 p)"
        by auto
      then show ?thesis
        using Cons.IH [OF _ ds(1)] ds(2) Packet by (auto simp: served_def)
    qed
  qed
qed

end

section \<open>The multimap is such a registry\<close>

text \<open>What \<open>std::multimap\<close> requires of its comparison.\<close>

locale strict_weak =
  fixes lt :: "'q \<Rightarrow> 'q \<Rightarrow> bool"
  assumes lt_irrefl: "\<not> lt a a"
    and lt_trans: "lt a b \<Longrightarrow> lt b c \<Longrightarrow> lt a c"
    and equiv_trans: "equiv_key lt a b \<Longrightarrow> equiv_key lt b c \<Longrightarrow> equiv_key lt a c"
begin

definition mm_waiting :: "'q multimap \<Rightarrow> 'q \<Rightarrow> tid list" where
  "mm_waiting m q = map snd (filter (\<lambda>(k, _). equiv_key lt q k) m)"

definition mm_sorted :: "'q multimap \<Rightarrow> bool" where
  "mm_sorted m \<longleftrightarrow> sorted_wrt (\<lambda>(a, _) (b, _). \<not> lt b a) m"

lemma equiv_refl: "equiv_key lt a a"
  by (simp add: equiv_key_def lt_irrefl)

lemma equiv_sym: "equiv_key lt a b \<Longrightarrow> equiv_key lt b a"
  by (simp add: equiv_key_def)

lemma lt_equiv_left: "lt a b \<Longrightarrow> equiv_key lt a c \<Longrightarrow> lt c b"
  using lt_trans equiv_trans unfolding equiv_key_def by blast

lemma lt_equiv_right: "lt a b \<Longrightarrow> equiv_key lt b c \<Longrightarrow> lt a c"
  using lt_trans equiv_trans unfolding equiv_key_def by blast

lemma not_lt_trans: "\<not> lt b a \<Longrightarrow> \<not> lt c b \<Longrightarrow> \<not> lt c a"
  using lt_trans lt_equiv_left lt_equiv_right unfolding equiv_key_def by blast

lemma set_mm_insert: "set (mm_insert lt q t m) = insert (q, t) (set m)"
proof (induction m)
  case (Cons a m)
  then show ?case by (cases a) auto
qed simp

lemma mm_sorted_Cons:
  "mm_sorted ((k, v) # m) \<longleftrightarrow> (\<forall>(b, _) \<in> set m. \<not> lt b k) \<and> mm_sorted m"
  by (auto simp: mm_sorted_def)

lemma mm_insert_sorted: "mm_sorted m \<Longrightarrow> mm_sorted (mm_insert lt q t m)"
proof (induction m)
  case (Cons a m)
  obtain k v where a: "a = (k, v)" by (cases a)
  show ?case
  proof (cases "lt q k")
    case True
    then have "\<not> lt k q"
      using lt_irrefl lt_trans by blast
    then show ?thesis
      using Cons.prems True not_lt_trans unfolding a by (fastforce simp: mm_sorted_Cons)
  next
    case False
    then show ?thesis
      using Cons unfolding a by (auto simp: mm_sorted_Cons set_mm_insert)
  qed
qed (simp add: mm_sorted_def)

lemma not_equiv_above:
  assumes "lt q k" "mm_sorted ((k, v) # m)" "equiv_key lt q p"
  shows "mm_waiting ((k, v) # m) p = []"
proof -
  have "\<not> equiv_key lt p b" if "\<not> lt b k" for b
    using assms(1,3) that lt_equiv_left [of q k p] not_lt_trans [of b k] unfolding equiv_key_def by blast
  then show ?thesis
    using assms(2) lt_irrefl by (fastforce simp: mm_sorted_Cons mm_waiting_def filter_empty_conv)
qed

lemma mm_insert_waiting:
  "mm_sorted m \<Longrightarrow>
     mm_waiting (mm_insert lt q t m) p = (if equiv_key lt q p then mm_waiting m p @ [t]
       else mm_waiting m p)"
proof (induction m)
  case Nil
  then show ?case
    using equiv_sym by (auto simp: mm_waiting_def)
next
  case (Cons a m)
  obtain k v where a: "a = (k, v)" by (cases a)
  have "mm_waiting (mm_insert lt q t m) p = (if equiv_key lt q p then mm_waiting m p @ [t]
       else mm_waiting m p)"
    using Cons a by (simp add: mm_sorted_Cons)
  moreover have "mm_waiting ((k, v) # m) p = []" if "lt q k" "equiv_key lt q p"
    using not_equiv_above that Cons.prems a by blast
  ultimately show ?case
    using equiv_sym unfolding a by (auto simp: mm_waiting_def split: if_splits)
qed

lemma mm_take_None: "mm_sorted m \<Longrightarrow> mm_take lt q m = None \<longleftrightarrow> mm_waiting m q = []"
proof (induction m)
  case (Cons a m)
  obtain k v where a: "a = (k, v)" by (cases a)
  have "mm_waiting ((k, v) # m) q = []" if "lt q k"
    using not_equiv_above that Cons.prems a equiv_refl by blast
  moreover have "\<not> equiv_key lt q k" if "lt k q"
    using that by (simp add: equiv_key_def)
  ultimately show ?case
    using Cons unfolding a by (auto simp: mm_waiting_def mm_sorted_Cons equiv_key_def)
qed (simp add: mm_waiting_def)

lemma set_mm_take: "mm_take lt q m = Some (t, m') \<Longrightarrow> set m' \<subseteq> set m"
proof (induction m arbitrary: m')
  case (Cons a m)
  obtain k v where "a = (k, v)" by (cases a)
  then show ?case
    using Cons by (force split: if_splits)
qed simp

lemma mm_take_Some:
  assumes "mm_sorted m" "mm_take lt q m = Some (t, m')"
  shows "mm_sorted m' \<and>
    mm_waiting m p = (if equiv_key lt q p then t # mm_waiting m' p else mm_waiting m' p)"
  using assms
proof (induction m arbitrary: m')
  case (Cons a m)
  obtain k v where a: "a = (k, v)" by (cases a)
  show ?case
  proof (cases "lt k q")
    case True
    obtain m1 where m1: "mm_take lt q m = Some (t, m1)" "m' = (k, v) # m1"
      using Cons.prems(2) True a by auto
    have "\<not> equiv_key lt p k" if "equiv_key lt q p"
      using lt_equiv_right [OF True that] by (simp add: equiv_key_def)
    moreover have "mm_sorted m" "mm_sorted m'"
      using Cons.prems(1) Cons.IH [OF _ m1(1)] m1(2) set_mm_take [OF m1(1)] unfolding a
      by (auto simp: mm_sorted_Cons)
    ultimately show ?thesis
      using Cons.IH [OF _ m1(1)] m1(2) a by (auto simp: mm_waiting_def)
  next
    case False
    then have "\<not> lt q k" "t = v" "m' = m"
      using Cons.prems(2) a by (auto split: if_splits)
    then have "equiv_key lt q k"
      using False by (simp add: equiv_key_def)
    then have "equiv_key lt p k \<longleftrightarrow> equiv_key lt q p"
      using equiv_trans equiv_sym by blast
    then show ?thesis
      using Cons.prems(1) a \<open>t = v\<close> \<open>m' = m\<close> by (auto simp: mm_waiting_def mm_sorted_Cons)
  qed
qed simp

lemma mm_erase_waiting:
  "mm_waiting (mm_erase lt q m) p = (if equiv_key lt q p then [] else mm_waiting m p)"
proof -
  have iff: "\<not> equiv_key lt k q \<and> equiv_key lt p k \<longleftrightarrow>
      (\<not> equiv_key lt q p \<and> equiv_key lt p k)" for k
    using equiv_trans equiv_sym by blast
  show ?thesis
    by (auto simp: mm_waiting_def mm_erase_def filter_filter case_prod_unfold iff)
qed

lemma mm_erase_sorted: "mm_sorted m \<Longrightarrow> mm_sorted (mm_erase lt q m)"
  by (simp add: mm_sorted_def mm_erase_def sorted_wrt_filter)

end

sublocale strict_weak \<subseteq> waiter_queues "equiv_key lt" mm_waiting mm_sorted "mm_insert lt" "mm_take lt"
  "mm_erase lt"
  using mm_take_Some
  by unfold_locales (simp_all add: equiv_refl mm_insert_sorted mm_insert_waiting mm_take_None
      mm_erase_sorted mm_erase_waiting)

text \<open>The default, \<open>std::less\<close> on \<open>uint32\<close> sequences.\<close>

definition less_u32 :: "u32 \<Rightarrow> u32 \<Rightarrow> bool" where
  "less_u32 a b \<longleftrightarrow> a < b"

interpretation u32_waiters: strict_weak less_u32
  by unfold_locales (auto simp: less_u32_def equiv_key_def)

lemma equiv_less_u32 [simp]: "equiv_key less_u32 a b \<longleftrightarrow> a = b"
  by (auto simp: equiv_key_def less_u32_def)

lemma mm_sorted_u32_Nil [simp]: "u32_waiters.mm_sorted []"
  by (simp add: u32_waiters.mm_sorted_def)



text \<open>
  Canceling one receiver removes every receiver of its sequence from the table
  (\<open>multimap::erase\<close> of a key). Two receivers \<open>t1\<close> and \<open>t2\<close> wait for sequence \<open>q\<close>
  and \<open>t1\<close> is canceled: the next packet with that sequence finds no receiver, although \<open>t2\<close>
  still waits.
\<close>

theorem cancel_drops_equal_receivers:
  assumes "u32_waiters.mm_sorted (seq_mapping s)" "getter buf (cur_seq s) = (ret, q)" "ret \<ge> 0"
  shows "fst (snd (unwrap less_u32 getter buf
    (seqer_erase less_u32 q (seqer_insert less_u32 q t2 (seqer_insert less_u32 q t1 s))))) = None"
proof -
  let ?m = "mm_insert less_u32 q t2 (mm_insert less_u32 q t1 (seq_mapping s))"
  have "u32_waiters.mm_sorted (mm_erase less_u32 q ?m)"
    using assms(1) u32_waiters.put_invar u32_waiters.drop_invar by blast
  moreover have "u32_waiters.mm_waiting (mm_erase less_u32 q ?m) q = []"
    using assms(1) u32_waiters.put_invar u32_waiters.drop_waiting by simp
  ultimately have "mm_take less_u32 q (mm_erase less_u32 q ?m) = None"
    using u32_waiters.pop_None by blast
  then show ?thesis
    using assms by (simp add: unwrap_def seqer_erase_def seqer_insert_def)
qed

theorem cancel_drops_equal_receivers_witness:
  "fst (snd (unwrap less_u32 (\<lambda>b q. (0, ucast (hd b))) [7]
    (seqer_erase less_u32 7 (seqer_insert less_u32 7 2 (seqer_insert less_u32 7 1
      \<lparr>seq_mapping = [(5, 3)], cur_seq = 0\<rparr>))))) = None"
  by (rule cancel_drops_equal_receivers [where ret = 0])
     (simp_all add: u32_waiters.mm_sorted_def less_u32_def)

end
