(* ===== verification/Udp.thy ===== *)
theory Udp
  imports Seqer Sockaddr
begin

text \<open>
  UDP sockets (\<open>src/udp.cc\<close> and the templates \<open>udp::bind\<close> and \<open>udp::recv_by_seq\<close> in
  \<open>include/cocoflow.h\<close>).

  A world holds one socket, the receiver objects that use it, the static routing buffer, and what
  can be observed: the tasks that were continued (each with the length \<open>internal_buffer\<close>
  reported to it) and the packets reported to the user's callbacks.
  The answers of the event library to starting, stopping and sending are fields of the world.
  \<open>__task_stand\<close> continues a task: user code then runs until it blocks again, and on the way
  may use the socket. What it does is an argument \<open>react\<close>: the operations it performs, which may
  depend on everything in the world.
\<close>

section \<open>State\<close>

datatype udp_receiving =
    udp_receiving_ready
  | udp_receiving_recv
  | udp_receiving_recv_by_seq
  | udp_receiving_ignore

datatype udp_callbacks = Cb0 | Cb1 | Cb2

record 'q udp =
  receiving :: udp_receiving
  cur_alloc :: "tid option"
  seqer :: "'q seqer option"
  ignored :: bool
  c_unrecv :: u64
  c_failed :: u64
  c_ignored :: u64
  recv_queue :: "tid list"

text \<open>A \<open>recv\<close> or \<open>recv_by_seq\<close> object: the user's buffer (or \<open>NULL\<close>) and length.\<close>

record udp_recv =
  buf :: "u8 list option"
  len :: nat
  addr :: sockaddr

datatype 'q report = Unrecv "u8 list" 'q | Failed "u8 list" int | Ignored "u8 list" sockaddr

text \<open>\<open>handle_data\<close> is the object \<open>uv_udp_t::data\<close> points to: none once it is destroyed.\<close>

record 'q udp_world =
  handle_data :: "'q udp option"
  reading :: "udp_callbacks option"
  uv_ok :: bool
  recvs :: "tid \<Rightarrow> udp_recv option"
  routing_buf :: "u8 list"
  routing_len :: nat
  garbage :: "u8 list"
  sent :: "(sockaddr \<times> u8 list) list"
  resumed :: "(tid \<times> nat) list"
  reported :: "'q report list"

definition ROUTING_BUF_SIZE :: nat where
  "ROUTING_BUF_SIZE = 65536"

text \<open>\<open>uv_buf_init\<close> takes an \<open>unsigned int\<close>.\<close>

definition uv_buf_len :: "nat \<Rightarrow> nat" where
  "uv_buf_len n = n mod 2 ^ 32"

definition with_udp :: "'q udp_world \<Rightarrow> ('q udp \<Rightarrow> 'a res) \<Rightarrow> 'a res" where
  "with_udp w k = (case handle_data w of None \<Rightarrow> Inl Use_after_free | Some u \<Rightarrow> k u)"

definition with_recv :: "'q udp_world \<Rightarrow> tid \<Rightarrow> (udp_recv \<Rightarrow> 'a res) \<Rightarrow> 'a res" where
  "with_recv w t k = (case recvs w t of None \<Rightarrow> Inl Use_after_free | Some r \<Rightarrow> k r)"

definition set_udp :: "'q udp \<Rightarrow> 'q udp_world \<Rightarrow> 'q udp_world" where
  "set_udp u w = w\<lparr>handle_data := Some u\<rparr>"

definition set_recv :: "tid \<Rightarrow> udp_recv \<Rightarrow> 'q udp_world \<Rightarrow> 'q udp_world" where
  "set_recv t r w = w\<lparr>recvs := (recvs w)(t := Some r)\<rparr>"

section \<open>Operations of user code\<close>

definition new_udp :: "'q udp" where
  "new_udp = \<lparr>receiving = udp_receiving_ready, cur_alloc = None, seqer = None, ignored = False,
     c_unrecv = 0, c_failed = 0, c_ignored = 0, recv_queue = []\<rparr>"

text \<open>\<open>udp::bind(addr)\<close>: allowed before any receiving; the library binds the socket.\<close>

definition udp_bind_addr :: "'q udp_world \<Rightarrow> 'q udp_world res" where
  "udp_bind_addr w = with_udp w (\<lambda>u. check (receiving u = udp_receiving_ready) (Inr w))"

text \<open>The template \<open>udp::bind(getter, ...)\<close>; \<open>False\<close> is the result \<open>-1\<close>.\<close>

definition udp_bind_seq :: "'q \<Rightarrow> 'q udp_world \<Rightarrow> (bool \<times> 'q udp_world) res" where
  "udp_bind_seq q0 w =
     with_udp w (\<lambda>u.
       case seqer u of
         Some _ \<Rightarrow> Inr (False, w)
       | None \<Rightarrow> Inr (True, set_udp (u\<lparr>seqer := Some \<lparr>seq_mapping = [], cur_seq = q0\<rparr>\<rparr>) w))"

definition ignore_recv :: "bool \<Rightarrow> 'q udp_world \<Rightarrow> 'q udp_world res" where
  "ignore_recv cb w =
     with_udp w (\<lambda>u. check (receiving u = udp_receiving_ready) (check (uv_ok w)
       (Inr ((set_udp (u\<lparr>ignored := cb, receiving := udp_receiving_ignore\<rparr>) w)
         \<lparr>reading := Some Cb2\<rparr>))))"

definition internal_buffer :: "'q udp_world \<Rightarrow> u8 list" where
  "internal_buffer w = take (routing_len w) (routing_buf w)"

definition count_unrecv :: "'q udp_world \<Rightarrow> u64 res" where
  "count_unrecv w = with_udp w (\<lambda>u. Inr (c_unrecv u))"

definition count_failed :: "'q udp_world \<Rightarrow> u64 res" where
  "count_failed w = with_udp w (\<lambda>u. Inr (c_failed u))"

definition count_ignored :: "'q udp_world \<Rightarrow> u64 res" where
  "count_ignored w = with_udp w (\<lambda>u. Inr (c_ignored u))"

definition udp_destroy :: "'q udp_world \<Rightarrow> 'q udp_world res" where
  "udp_destroy w =
     with_udp w (\<lambda>u. check (receiving u \<noteq> udp_receiving_ready \<longrightarrow> uv_ok w)
       (Inr (w\<lparr>handle_data := None, reading := None\<rparr>)))"

text \<open>The constructor of \<open>recv\<close> and of \<open>recv_by_seq_if\<close> (which needs a sequencer).\<close>

definition new_recv :: "tid \<Rightarrow> u8 list option \<Rightarrow> nat \<Rightarrow> 'q udp_world \<Rightarrow> 'q udp_world res" where
  "new_recv t b n w =
     Inr (set_recv t \<lparr>buf = b, len = n, addr = \<lparr>sa_family = 0xffff, sa_data = []\<rparr>\<rparr> w)"

definition new_recv_by_seq :: "tid \<Rightarrow> u8 list option \<Rightarrow> nat \<Rightarrow> 'q udp_world \<Rightarrow> 'q udp_world res" where
  "new_recv_by_seq t b n w = with_udp w (\<lambda>u. check (seqer u \<noteq> None) (new_recv t b n w))"

definition recv_start :: "udp_receiving \<Rightarrow> udp_callbacks \<Rightarrow> 'q udp_world \<Rightarrow> 'q udp_world res" where
  "recv_start mode cb w =
     with_udp w (\<lambda>u. check (uv_ok w)
       (Inr ((set_udp (u\<lparr>receiving := mode\<rparr>) w)\<lparr>reading := Some cb\<rparr>)))"

definition recv_stop :: "'q udp_world \<Rightarrow> 'q udp_world res" where
  "recv_stop w =
     with_udp w (\<lambda>u. check (uv_ok w)
       (Inr ((set_udp (u\<lparr>receiving := udp_receiving_ready\<rparr>) w)\<lparr>reading := None\<rparr>)))"

text \<open>\<open>recv::run\<close> up to the switch.\<close>

definition enqueue :: "tid \<Rightarrow> 'q udp_world \<Rightarrow> 'q udp_world res" where
  "enqueue t w = with_udp w (\<lambda>u. Inr (set_udp (u\<lparr>recv_queue := recv_queue u @ [t]\<rparr>) w))"

definition recv_run :: "tid \<Rightarrow> 'q udp_world \<Rightarrow> 'q udp_world res" where
  "recv_run t w =
     with_recv w t (\<lambda>_. with_udp w (\<lambda>u. check (receiving u \<noteq> udp_receiving_ignore)
       (res_bind
         (if receiving u = udp_receiving_ready then
            (if seqer u = None then recv_start udp_receiving_recv Cb0 w
             else recv_start udp_receiving_recv_by_seq Cb1 w)
          else Inr w)
         (enqueue t))))"

text \<open>\<open>recv::cancel\<close>. Erasing an element that is not in the list any more is a use of freed memory.\<close>

definition recv_cancel :: "tid \<Rightarrow> 'q udp_world \<Rightarrow> 'q udp_world res" where
  "recv_cancel t w =
     with_udp w (\<lambda>u.
       if t \<notin> set (recv_queue u) then Inl Use_after_free
       else
         (let u = u\<lparr>recv_queue := remove1 t (recv_queue u)\<rparr>
          in if receiving u = udp_receiving_recv \<and> recv_queue u = [] then recv_stop (set_udp u w)
             else Inr (set_udp u w)))"

text \<open>The peer of a receiver that was continued.\<close>

definition peer_type :: "tid \<Rightarrow> 'q udp_world \<Rightarrow> u16 res" where
  "peer_type t w = with_recv w t (\<lambda>r. Inr (sa_family (addr r)))"

definition peer_addr_ipv4 :: "tid \<Rightarrow> 'q udp_world \<Rightarrow> sockaddr res" where
  "peer_addr_ipv4 t w =
     with_recv w t (\<lambda>r. check (sa_family (addr r) = AF_INET)
       (Inr (sockaddr_in_outof_sockaddr_in6 (addr r))))"

definition peer_addr_ipv6 :: "tid \<Rightarrow> 'q udp_world \<Rightarrow> sockaddr res" where
  "peer_addr_ipv6 t w = with_recv w t (\<lambda>r. check (sa_family (addr r) = AF_INET6) (Inr (addr r)))"

text \<open>The peer of a packet that was received by sequence.\<close>

definition seq_peer_type :: "tid \<Rightarrow> 'q udp_world \<Rightarrow> u16 res" where
  "seq_peer_type t w = with_recv w t (\<lambda>r. Inr (sa_family (addr r)))"

definition seq_peer_addr_ipv4 :: "tid \<Rightarrow> 'q udp_world \<Rightarrow> sockaddr res" where
  "seq_peer_addr_ipv4 t w =
     with_recv w t (\<lambda>r. check (sa_family (addr r) = AF_INET) (Inr (sockaddr_in_outof_sockaddr_in6 (addr r))))"

definition seq_peer_addr_ipv6 :: "tid \<Rightarrow> 'q udp_world \<Rightarrow> sockaddr res" where
  "seq_peer_addr_ipv6 t w = with_recv w t (\<lambda>r. check (sa_family (addr r) = AF_INET6) (Inr (addr r)))"

text \<open>\<open>recv_by_seq::run\<close>: \<open>run_part_0\<close>, then the insertion into the table.\<close>

definition seq_run :: "('q \<Rightarrow> 'q \<Rightarrow> bool) \<Rightarrow> tid \<Rightarrow> 'q \<Rightarrow> 'q udp_world \<Rightarrow> 'q udp_world res" where
  "seq_run lt t q w =
     with_recv w t (\<lambda>_. with_udp w (\<lambda>u. check (receiving u \<noteq> udp_receiving_ignore)
       (res_bind
         (if receiving u = udp_receiving_ready then recv_start udp_receiving_recv_by_seq Cb1 w
          else Inr w)
         (\<lambda>w. with_udp w (\<lambda>u. case seqer u of
              None \<Rightarrow> Inl Null_pointer
            | Some s \<Rightarrow> Inr (set_udp (u\<lparr>seqer := Some (seqer_insert lt q t s)\<rparr>) w))))))"

definition seq_cancel :: "('q \<Rightarrow> 'q \<Rightarrow> bool) \<Rightarrow> 'q \<Rightarrow> 'q udp_world \<Rightarrow> 'q udp_world res" where
  "seq_cancel lt q w =
     with_udp w (\<lambda>u. case seqer u of
         None \<Rightarrow> Inl Null_pointer
       | Some s \<Rightarrow> Inr (set_udp (u\<lparr>seqer := Some (seqer_erase lt q s)\<rparr>) w))"

text \<open>What user code may do with the socket while it runs.\<close>

datatype 'q udp_op =
    New_recv tid "u8 list option" nat
  | Recv_run tid
  | Recv_cancel tid
  | Seq_run tid 'q
  | Seq_cancel 'q
  | Bind_seq 'q
  | Ignore_recv bool
  | Destroy

fun do_udp :: "('q \<Rightarrow> 'q \<Rightarrow> bool) \<Rightarrow> 'q udp_op \<Rightarrow> 'q udp_world \<Rightarrow> 'q udp_world res" where
  "do_udp lt (New_recv t b n) w = new_recv t b n w"
| "do_udp lt (Recv_run t) w = recv_run t w"
| "do_udp lt (Recv_cancel t) w = recv_cancel t w"
| "do_udp lt (Seq_run t q) w = seq_run lt t q w"
| "do_udp lt (Seq_cancel q) w = seq_cancel lt q w"
| "do_udp lt (Bind_seq q) w = res_bind (udp_bind_seq q w) (\<lambda>(_, w). Inr w)"
| "do_udp lt (Ignore_recv cb) w = ignore_recv cb w"
| "do_udp lt Destroy w = udp_destroy w"

fun do_udps :: "('q \<Rightarrow> 'q \<Rightarrow> bool) \<Rightarrow> 'q udp_op list \<Rightarrow> 'q udp_world \<Rightarrow> 'q udp_world res" where
  "do_udps lt [] w = Inr w"
| "do_udps lt (o1 # os) w = res_bind (do_udp lt o1 w) (do_udps lt os)"

type_synonym 'q reaction = "tid \<Rightarrow> 'q udp_world \<Rightarrow> 'q udp_op list"

definition stand :: "('q \<Rightarrow> 'q \<Rightarrow> bool) \<Rightarrow> 'q reaction \<Rightarrow> tid \<Rightarrow> 'q udp_world \<Rightarrow> 'q udp_world res" where
  "stand lt react t w =
     (let w = w\<lparr>resumed := resumed w @ [(t, routing_len w)]\<rparr> in do_udps lt (react t w) w)"

section \<open>Sending\<close>

text \<open>The constructors of \<open>udp::send\<close>; the task can not be interrupted while it runs.\<close>

definition send_ctor :: "u16 \<Rightarrow> sockaddr \<Rightarrow> u8 list option \<Rightarrow> nat \<Rightarrow> (sockaddr \<times> u8 list) res" where
  "send_ctor family a b n =
     check (sa_family a = family)
       (case b of
          None \<Rightarrow> Inl Check_failed
        | Some bytes \<Rightarrow> check (n > 0) (Inr (a, take (uv_buf_len n) bytes)))"

definition send_run :: "sockaddr \<times> u8 list \<Rightarrow> 'q udp_world \<Rightarrow> 'q udp_world res" where
  "send_run m w = with_udp w (\<lambda>_. check (uv_ok w) (Inr (w\<lparr>sent := sent w @ [m]\<rparr>)))"

definition send_cancel :: "'q udp_world \<Rightarrow> 'q udp_world res" where
  "send_cancel w = Inl Check_failed"

definition udp_send_cb ::
  "('q \<Rightarrow> 'q \<Rightarrow> bool) \<Rightarrow> 'q reaction \<Rightarrow> tid \<Rightarrow> int \<Rightarrow> 'q udp_world \<Rightarrow> 'q udp_world res" where
  "udp_send_cb lt react t st w = check (st = 0) (stand lt react t w)"

section \<open>Callbacks of the event library\<close>

text \<open>Where the library is told to put a datagram.\<close>

datatype dest = To_user tid | To_routing

definition udp_alloc_cb0 :: "'q udp_world \<Rightarrow> (dest \<times> nat \<times> 'q udp_world) res" where
  "udp_alloc_cb0 w =
     with_udp w (\<lambda>u. check (cur_alloc u = None)
       (case recv_queue u of
          [] \<Rightarrow> Inl Check_failed
        | t # ts \<Rightarrow>
            (let w = set_udp (u\<lparr>cur_alloc := Some t, recv_queue := ts\<rparr>) w
             in with_recv w t (\<lambda>r.
                  if buf r \<noteq> None \<and> len r \<noteq> 0 then Inr (To_user t, uv_buf_len (len r), w)
                  else Inr (To_routing, ROUTING_BUF_SIZE, w)))))"

text \<open>The address of the peer, kept in the IPv6 structure.\<close>

definition store_addr :: "'q udp_world \<Rightarrow> sockaddr \<Rightarrow> sockaddr \<Rightarrow> sockaddr" where
  "store_addr w a old =
     (if sa_family a = AF_INET then sockaddr_in_into_sockaddr_in6 (garbage w) a
      else if sa_family a = AF_INET6 then a
      else old\<lparr>sa_family := sa_family a\<rparr>)"

definition udp_recv_cb0 ::
  "('q \<Rightarrow> 'q \<Rightarrow> bool) \<Rightarrow> 'q reaction \<Rightarrow> int \<Rightarrow> sockaddr \<Rightarrow> 'q udp_world \<Rightarrow> 'q udp_world res" where
  "udp_recv_cb0 lt react nread a w =
     with_udp w (\<lambda>u. case cur_alloc u of
         None \<Rightarrow> Inl Check_failed
       | Some t \<Rightarrow>
           check (nread \<ge> 0)
             (if nread = 0 then
                Inr (set_udp (u\<lparr>recv_queue := t # recv_queue u, cur_alloc := None\<rparr>) w)
              else with_recv w t (\<lambda>r.
                let r = r\<lparr>addr := store_addr w a (addr r), len := nat nread\<rparr>;
                    w = set_recv t r w;
                    w = (if buf r = None \<or> len r = 0 then w\<lparr>routing_len := nat nread\<rparr> else w);
                    w = set_udp (u\<lparr>cur_alloc := None\<rparr>) w
                in res_bind (stand lt react t w) (\<lambda>w.
                     let w = w\<lparr>routing_len := 0\<rparr>
                     in case handle_data w of
                          None \<Rightarrow> Inr w
                        | Some u \<Rightarrow> if recv_queue u = [] then recv_stop w else Inr w))))"

text \<open>Lines 252 to 267 and 293 to 308: the packet in the routing buffer goes to one receiver.\<close>

definition give_packet :: "tid \<Rightarrow> sockaddr \<Rightarrow> 'q udp_world \<Rightarrow> 'q udp_world res" where
  "give_packet t a w =
     with_recv w t (\<lambda>r.
       let r = r\<lparr>addr := store_addr w a (addr r)\<rparr>
       in case buf r of
            Some b \<Rightarrow>
              (let n = (if len r > routing_len w then routing_len w else len r)
               in Inr (set_recv t (r\<lparr>len := n, buf := Some (blit b 0 (take n (routing_buf w)))\<rparr>) w))
          | None \<Rightarrow> Inr (set_recv t (r\<lparr>len := routing_len w\<rparr>) w))"

definition give_to_recv ::
  "('q \<Rightarrow> 'q \<Rightarrow> bool) \<Rightarrow> 'q reaction \<Rightarrow> sockaddr \<Rightarrow> 'q udp \<Rightarrow> 'q udp_world \<Rightarrow> 'q udp_world res" where
  "give_to_recv lt react a u w =
     (case recv_queue u of
        [] \<Rightarrow> Inl Out_of_bounds
      | t # ts \<Rightarrow> res_bind (give_packet t a (set_udp (u\<lparr>recv_queue := ts\<rparr>) w)) (stand lt react t))"

definition udp_alloc_cb1 :: "dest \<times> nat" where
  "udp_alloc_cb1 = (To_routing, ROUTING_BUF_SIZE)"

definition udp_recv_cb1 ::
  "('q \<Rightarrow> 'q \<Rightarrow> bool) \<Rightarrow> 'q getter \<Rightarrow> 'q reaction \<Rightarrow> int \<Rightarrow> sockaddr \<Rightarrow> 'q udp_world
     \<Rightarrow> 'q udp_world res" where
  "udp_recv_cb1 lt getter react nread a w =
     check (nread \<ge> 0)
       (if nread = 0 then Inr w
        else with_udp w (\<lambda>u.
          let w = w\<lparr>routing_len := nat nread\<rparr>; packet = take (nat nread) (routing_buf w)
          in case seqer u of
               None \<Rightarrow> Inl Null_pointer
             | Some s \<Rightarrow>
                 (case unwrap lt getter packet s of (ret, rbs, s') \<Rightarrow>
                    let u = u\<lparr>seqer := Some s'\<rparr>; w = set_udp u w
                    in res_bind
                         (if ret \<ge> 0 then
                            (case rbs of
                               Some t \<Rightarrow> res_bind (give_packet t a w) (stand lt react t)
                             | None \<Rightarrow>
                                 if recv_queue u = [] then
                                   Inr ((set_udp (u\<lparr>c_unrecv := c_unrecv u + 1\<rparr>) w)
                                     \<lparr>reported := reported w @ [Unrecv packet (cur_seq s')]\<rparr>)
                                 else give_to_recv lt react a u w)
                          else if recv_queue u = [] then
                            Inr ((set_udp (u\<lparr>c_failed := c_failed u + 1\<rparr>) w)
                              \<lparr>reported := reported w @ [Failed packet ret]\<rparr>)
                          else give_to_recv lt react a u w)
                         (\<lambda>w. Inr (w\<lparr>routing_len := 0\<rparr>)))))"

definition udp_alloc_cb2 :: "dest \<times> nat" where
  "udp_alloc_cb2 = (To_routing, ROUTING_BUF_SIZE)"

definition udp_recv_cb2 :: "int \<Rightarrow> sockaddr \<Rightarrow> 'q udp_world \<Rightarrow> 'q udp_world res" where
  "udp_recv_cb2 nread a w =
     check (nread \<ge> 0)
       (if nread = 0 then Inr w
        else with_udp w (\<lambda>u.
          let w = set_udp (u\<lparr>c_ignored := c_ignored u + 1\<rparr>) (w\<lparr>routing_len := nat nread\<rparr>)
          in if ignored u
             then Inr (w\<lparr>reported := reported w @ [Ignored (take (nat nread) (routing_buf w)) a]\<rparr>)
             else Inr w))"

text \<open>
  A datagram arrives: the library asks where to put it, writes what fits, and reports the number
  of bytes. The other two \<open>alloc\<close> callbacks always name the routing buffer.
\<close>

definition fill :: "dest \<Rightarrow> u8 list \<Rightarrow> 'q udp_world \<Rightarrow> 'q udp_world" where
  "fill d bytes w =
     (case d of
        To_routing \<Rightarrow> w\<lparr>routing_buf := blit (routing_buf w) 0 bytes\<rparr>
      | To_user t \<Rightarrow>
          (case recvs w t of
             Some r \<Rightarrow> set_recv t (r\<lparr>buf := map_option (\<lambda>b. blit b 0 bytes) (buf r)\<rparr>) w
           | None \<Rightarrow> w))"

definition datagram ::
  "('q \<Rightarrow> 'q \<Rightarrow> bool) \<Rightarrow> 'q getter \<Rightarrow> 'q reaction \<Rightarrow> u8 list \<Rightarrow> sockaddr \<Rightarrow> 'q udp_world
     \<Rightarrow> 'q udp_world res" where
  "datagram lt getter react bytes a w =
     (case reading w of
        None \<Rightarrow> Inr w
      | Some Cb0 \<Rightarrow>
          res_bind (udp_alloc_cb0 w) (\<lambda>(d, n, w).
            udp_recv_cb0 lt react (int (length (take n bytes))) a (fill d (take n bytes) w))
      | Some Cb1 \<Rightarrow>
          (case udp_alloc_cb1 of (d, n) \<Rightarrow>
             udp_recv_cb1 lt getter react (int (length (take n bytes))) a (fill d (take n bytes) w))
      | Some Cb2 \<Rightarrow>
          (case udp_alloc_cb2 of (d, n) \<Rightarrow>
             udp_recv_cb2 (int (length (take n bytes))) a (fill d (take n bytes) w)))"

end
