(* ===== verification/Udp_Laws.thy ===== *)
theory Udp_Laws
  imports Udp
begin

text \<open>
  What UDP sockets guarantee, whatever the code does that is continued by a callback: the
  callbacks that are installed always fit the state of the socket, no packet is lost or delivered
  twice, and receivers are served in order.
\<close>

section \<open>The state fits the installed callbacks\<close>

fun mode_of :: "udp_callbacks option \<Rightarrow> udp_receiving" where
  "mode_of None = udp_receiving_ready"
| "mode_of (Some Cb0) = udp_receiving_recv"
| "mode_of (Some Cb1) = udp_receiving_recv_by_seq"
| "mode_of (Some Cb2) = udp_receiving_ignore"

definition fits ::
  "udp_callbacks option \<Rightarrow> (tid \<Rightarrow> udp_recv option) \<Rightarrow> 'q udp \<Rightarrow> bool" where
  "fits r rs u \<longleftrightarrow> receiving u = mode_of r \<and> cur_alloc u = None \<and>
     (r = Some Cb1 \<longrightarrow> seqer u \<noteq> None) \<and>
     (r = None \<or> r = Some Cb2 \<longrightarrow> recv_queue u = []) \<and>
     (\<forall>t \<in> set (recv_queue u). rs t \<noteq> None)"

definition udp_wf :: "'q udp_world \<Rightarrow> bool" where
  "udp_wf w \<longleftrightarrow>
     (handle_data w = None \<longrightarrow> reading w = None) \<and>
     (\<forall>u. handle_data w = Some u \<longrightarrow> fits (reading w) (recvs w) u)"

definition udp_inv :: "'q udp_world \<Rightarrow> bool" where
  "udp_inv w \<longleftrightarrow> udp_wf w \<and>
     (\<forall>u. handle_data w = Some u \<longrightarrow> reading w = Some Cb0 \<longrightarrow> recv_queue u \<noteq> [])"

lemmas datagram_eqs = datagram_def udp_alloc_cb1_def udp_alloc_cb2_def

lemma mode_of_iff [simp]:
  "mode_of r = udp_receiving_ready \<longleftrightarrow> r = None"
  "mode_of r = udp_receiving_recv \<longleftrightarrow> r = Some Cb0"
  "mode_of r = udp_receiving_recv_by_seq \<longleftrightarrow> r = Some Cb1"
  "mode_of r = udp_receiving_ignore \<longleftrightarrow> r = Some Cb2"
  "udp_receiving_ready = mode_of r \<longleftrightarrow> r = None"
  by (cases r rule: mode_of.cases; simp)+

lemma with_udp_Inr: "with_udp w k = Inr x \<longleftrightarrow> (\<exists>u. handle_data w = Some u \<and> k u = Inr x)"
  by (simp add: with_udp_def split: option.splits)

lemma with_recv_Inr: "with_recv w t k = Inr x \<longleftrightarrow> (\<exists>r. recvs w t = Some r \<and> k r = Inr x)"
  by (simp add: with_recv_def split: option.splits)

lemma set_udp_fields [simp]:
  "handle_data (set_udp u w) = Some u" "reading (set_udp u w) = reading w"
  "recvs (set_udp u w) = recvs w" "uv_ok (set_udp u w) = uv_ok w"
  "resumed (set_udp u w) = resumed w" "reported (set_udp u w) = reported w"
  "routing_len (set_udp u w) = routing_len w" "routing_buf (set_udp u w) = routing_buf w"
  "garbage (set_udp u w) = garbage w"
  by (simp_all add: set_udp_def)

lemma set_recv_fields [simp]:
  "handle_data (set_recv t r w) = handle_data w" "reading (set_recv t r w) = reading w"
  "recvs (set_recv t r w) = (recvs w)(t := Some r)" "uv_ok (set_recv t r w) = uv_ok w"
  "resumed (set_recv t r w) = resumed w" "reported (set_recv t r w) = reported w"
  "routing_len (set_recv t r w) = routing_len w" "routing_buf (set_recv t r w) = routing_buf w"
  "garbage (set_recv t r w) = garbage w"
  by (simp_all add: set_recv_def)

lemmas udp_inr = with_udp_Inr with_recv_Inr check_eq_Inr res_bind_eq_Inr

lemma set_remove1_subset: "x \<in> set (remove1 t ts) \<Longrightarrow> x \<in> set ts"
  by (meson notin_set_remove1)

lemma recv_start_eq:
  "recv_start mode cb w = Inr w' \<longleftrightarrow> (\<exists>u. handle_data w = Some u \<and> uv_ok w \<and>
     w' = (set_udp (u\<lparr>receiving := mode\<rparr>) w)\<lparr>reading := Some cb\<rparr>)"
  by (auto simp: recv_start_def udp_inr)

lemma recv_stop_eq:
  "recv_stop w = Inr w' \<longleftrightarrow> (\<exists>u. handle_data w = Some u \<and> uv_ok w \<and>
     w' = (set_udp (u\<lparr>receiving := udp_receiving_ready\<rparr>) w)\<lparr>reading := None\<rparr>)"
  by (auto simp: recv_stop_def udp_inr)

lemma udp_wfD: "udp_wf w \<Longrightarrow> handle_data w = Some u \<Longrightarrow> fits (reading w) (recvs w) u"
  by (simp add: udp_wf_def)

lemma recv_run_wf:
  assumes "udp_wf w" "recv_run t w = Inr w'"
  shows "udp_wf w'" "\<exists>u. handle_data w' = Some u \<and> recv_queue u \<noteq> []"
proof -
  obtain r u w1 where u: "recvs w t = Some r" "handle_data w = Some u"
      "receiving u \<noteq> udp_receiving_ignore" "enqueue t w1 = Inr w'"
      "(if receiving u = udp_receiving_ready then
            (if seqer u = None then recv_start udp_receiving_recv Cb0 w
             else recv_start udp_receiving_recv_by_seq Cb1 w)
          else Inr w) = Inr w1"
    using assms(2) by (auto simp: recv_run_def udp_inr)
  obtain u1 where w': "handle_data w1 = Some u1" "w' = set_udp (u1\<lparr>recv_queue := recv_queue u1 @ [t]\<rparr>) w1"
    using u(4) by (auto simp: enqueue_def udp_inr)
  have "fits (reading w1) (recvs w1) u1 \<and> recvs w1 = recvs w \<and> reading w1 \<noteq> None \<and>
      reading w1 \<noteq> Some Cb2"
    using u(2,3,5) w'(1) udp_wfD [OF assms(1) u(2)]
    by (auto simp: recv_start_eq fits_def split: if_splits)
  then show "udp_wf w'" "\<exists>u. handle_data w' = Some u \<and> recv_queue u \<noteq> []"
    using u(1) w' by (auto simp: udp_wf_def fits_def)
qed

lemma recv_cancel_wf:
  assumes "udp_wf w" "recv_cancel t w = Inr w'"
  shows "udp_wf w'" "\<exists>u. handle_data w' = Some u \<and> (reading w' = Some Cb0 \<longrightarrow> recv_queue u \<noteq> [])"
proof -
  obtain u where u: "handle_data w = Some u" "t \<in> set (recv_queue u)"
    using assms(2) by (auto simp: recv_cancel_def udp_inr split: if_splits)
  let ?u = "u\<lparr>recv_queue := remove1 t (recv_queue u)\<rparr>"
  have w': "w' = (if receiving u = udp_receiving_recv \<and> remove1 t (recv_queue u) = []
      then (set_udp (?u\<lparr>receiving := udp_receiving_ready\<rparr>) (set_udp ?u w))\<lparr>reading := None\<rparr>
      else set_udp ?u w)"
    using assms(2) u by (auto simp: recv_cancel_def with_udp_def Let_def recv_stop_eq split: if_splits)
  note fit = udp_wfD [OF assms(1) u(1)]
  then show "udp_wf w'" "\<exists>u. handle_data w' = Some u \<and> (reading w' = Some Cb0 \<longrightarrow> recv_queue u \<noteq> [])"
    using u(2) by (auto simp: w' udp_wf_def fits_def dest: set_remove1_subset)
qed

lemma seq_run_wf:
  assumes "udp_wf w" "seq_run lt t q w = Inr w'"
  shows "udp_wf w'" "udp_inv w \<Longrightarrow> udp_inv w'"
proof -
  obtain u w1 u1 s where u: "handle_data w = Some u" "receiving u \<noteq> udp_receiving_ignore"
      "(if receiving u = udp_receiving_ready then recv_start udp_receiving_recv_by_seq Cb1 w
          else Inr w) = Inr w1" "handle_data w1 = Some u1" "seqer u1 = Some s"
      "w' = set_udp (u1\<lparr>seqer := Some (seqer_insert lt q t s)\<rparr>) w1"
    using assms(2) by (auto simp: seq_run_def udp_inr split: option.splits)
  have "fits (reading w1) (recvs w1) u1"
    using u(1-5) udp_wfD [OF assms(1) u(1)] by (auto simp: recv_start_eq fits_def split: if_splits)
  then show "udp_wf w'"
    using u(6) by (auto simp: udp_wf_def fits_def)
  then show "udp_inv w'" if "udp_inv w"
    using u that by (auto simp: udp_inv_def recv_start_eq split: if_splits)
qed

lemma seq_cancel_eq:
  "seq_cancel lt q w = Inr w' \<longleftrightarrow> (\<exists>u s. handle_data w = Some u \<and> seqer u = Some s \<and>
     w' = set_udp (u\<lparr>seqer := Some (seqer_erase lt q s)\<rparr>) w)"
  by (auto simp: seq_cancel_def udp_inr split: option.splits)

lemma bind_seq_eq:
  "udp_bind_seq q w = Inr (b, w') \<longleftrightarrow> (\<exists>u. handle_data w = Some u \<and>
     (if seqer u = None then b \<and> w' = set_udp (u\<lparr>seqer := Some \<lparr>seq_mapping = [], cur_seq = q\<rparr>\<rparr>) w
      else \<not> b \<and> w' = w))"
  by (auto simp: udp_bind_seq_def udp_inr split: option.splits)

lemma ignore_recv_eq:
  "ignore_recv cb w = Inr w' \<longleftrightarrow> (\<exists>u. handle_data w = Some u \<and> receiving u = udp_receiving_ready \<and>
     uv_ok w \<and> w' = (set_udp (u\<lparr>ignored := cb, receiving := udp_receiving_ignore\<rparr>) w)
         \<lparr>reading := Some Cb2\<rparr>)"
  by (auto simp: ignore_recv_def udp_inr)

lemma destroy_eq:
  "udp_destroy w = Inr w' \<Longrightarrow> w' = w\<lparr>handle_data := None, reading := None\<rparr>"
  by (auto simp: udp_destroy_def udp_inr)

text \<open>One operation of user code keeps both.\<close>

lemma do_udp_keeps:
  assumes "udp_wf w" "do_udp lt p w = Inr w'"
  shows "udp_wf w' \<and> (udp_inv w \<longrightarrow> udp_inv w')"
proof (cases p)
  case (Recv_run t)
  then have "recv_run t w = Inr w'"
    using assms(2) by simp
  from recv_run_wf [OF assms(1) this] show ?thesis
    by (auto simp: udp_inv_def)
next
  case (Recv_cancel t)
  then have "recv_cancel t w = Inr w'"
    using assms(2) by simp
  from recv_cancel_wf [OF assms(1) this] show ?thesis
    by (auto simp: udp_inv_def)
next
  case (Seq_run t q)
  then show ?thesis using seq_run_wf [OF assms(1)] assms(2) by simp
next
  case (New_recv t b n)
  then have "w' = set_recv t \<lparr>buf = b, len = n, addr = \<lparr>sa_family = 0xffff, sa_data = []\<rparr>\<rparr> w"
    using assms(2) by (simp add: new_recv_def)
  then show ?thesis
    using assms(1) by (auto simp: udp_wf_def udp_inv_def fits_def)
next
  case (Seq_cancel q)
  then obtain u s where "handle_data w = Some u" "w' = set_udp (u\<lparr>seqer := Some s\<rparr>) w"
    using assms(2) by (auto simp: seq_cancel_eq)
  then show ?thesis
    using assms(1) by (auto simp: udp_wf_def udp_inv_def fits_def)
next
  case (Bind_seq q)
  then obtain b where "udp_bind_seq q w = Inr (b, w')"
    using assms(2) by (auto simp: res_bind_eq_Inr)
  then obtain u where "handle_data w = Some u" "w' = w \<or> (\<exists>s. w' = set_udp (u\<lparr>seqer := Some s\<rparr>) w)"
    by (auto simp: bind_seq_eq split: if_splits)
  then show ?thesis
    using assms(1) by (auto simp: udp_wf_def udp_inv_def fits_def)
next
  case (Ignore_recv cb)
  then show ?thesis
    using assms by (auto simp: ignore_recv_eq udp_wf_def udp_inv_def fits_def)
next
  case Destroy
  then show ?thesis
    using assms by (auto simp: udp_wf_def udp_inv_def dest!: destroy_eq)
qed

lemma do_udps_wf: "udp_wf w \<Longrightarrow> do_udps lt ps w = Inr w' \<Longrightarrow> udp_wf w'"
  by (induction ps arbitrary: w) (auto simp: res_bind_eq_Inr dest: do_udp_keeps)

lemma do_udps_inv: "udp_inv w \<Longrightarrow> do_udps lt ps w = Inr w' \<Longrightarrow> udp_inv w'"
proof (induction ps arbitrary: w)
  case (Cons p ps)
  then obtain w1 where "do_udp lt p w = Inr w1" "do_udps lt ps w1 = Inr w'"
    by (auto simp: res_bind_eq_Inr)
  then show ?case
    using Cons do_udp_keeps by (metis udp_inv_def)
qed simp

lemma udp_wf_same:
  "udp_wf w \<Longrightarrow> handle_data w' = handle_data w \<Longrightarrow> reading w' = reading w \<Longrightarrow> recvs w' = recvs w \<Longrightarrow>
     udp_wf w'"
  by (simp add: udp_wf_def)

lemma udp_inv_same:
  "udp_inv w \<Longrightarrow> handle_data w' = handle_data w \<Longrightarrow> reading w' = reading w \<Longrightarrow> recvs w' = recvs w \<Longrightarrow>
     udp_inv w'"
  using udp_wf_same [of w w'] by (simp add: udp_inv_def)

lemma stand_wf: "udp_wf w \<Longrightarrow> stand lt react t w = Inr w' \<Longrightarrow> udp_wf w'"
  unfolding stand_def Let_def by (erule do_udps_wf [rotated], erule udp_wf_same) simp_all

lemma stand_inv: "udp_inv w \<Longrightarrow> stand lt react t w = Inr w' \<Longrightarrow> udp_inv w'"
  unfolding stand_def Let_def by (erule do_udps_inv [rotated], erule udp_inv_same) simp_all

section \<open>Datagrams keep it\<close>

lemma alloc_cb0_eq:
  assumes "udp_inv w" "reading w = Some Cb0" "handle_data w = Some u"
  obtains t ts r where "recv_queue u = t # ts" "recvs w t = Some r"
    "udp_alloc_cb0 w = Inr (if buf r \<noteq> None \<and> len r \<noteq> 0
       then (To_user t, uv_buf_len (len r), set_udp (u\<lparr>cur_alloc := Some t, recv_queue := ts\<rparr>) w)
       else (To_routing, ROUTING_BUF_SIZE, set_udp (u\<lparr>cur_alloc := Some t, recv_queue := ts\<rparr>) w))"
proof -
  have fit: "fits (Some Cb0) (recvs w) u" "recv_queue u \<noteq> []"
    using assms by (auto simp: udp_inv_def udp_wf_def)
  then obtain t ts where ts: "recv_queue u = t # ts"
    by (cases "recv_queue u") auto
  then obtain r where "recvs w t = Some r"
    using fit(1) by (auto simp: fits_def)
  then show ?thesis
    using that ts fit(1) assms(3)
    by (simp add: udp_alloc_cb0_def with_udp_def with_recv_def fits_def Let_def)
qed

lemma fill_fields [simp]:
  "handle_data (fill d bs w) = handle_data w" "reading (fill d bs w) = reading w"
  "uv_ok (fill d bs w) = uv_ok w" "resumed (fill d bs w) = resumed w"
  "reported (fill d bs w) = reported w" "routing_len (fill d bs w) = routing_len w"
  "garbage (fill d bs w) = garbage w"
  by (auto simp: fill_def split: dest.splits option.splits)

lemma fill_recvs: "recvs (fill d bs w) t = None \<longleftrightarrow> recvs w t = None"
  by (auto simp: fill_def split: dest.splits option.splits)

lemma fits_recvs:
  "fits r rs u \<Longrightarrow> (\<And>t. t \<in> set (recv_queue u) \<Longrightarrow> rs' t \<noteq> None) \<Longrightarrow> fits r rs' u"
  by (auto simp: fits_def)

lemma recv_cb0_inv:
  assumes "handle_data w = Some u" "cur_alloc u = Some t" "reading w = Some Cb0"
    "fits (Some Cb0) (recvs w) (u\<lparr>cur_alloc := None\<rparr>)" "recvs w t \<noteq> None"
    "udp_recv_cb0 lt react n a w = Inr w'"
  shows "udp_inv w'"
proof (cases "n = 0")
  case True
  then have "w' = set_udp (u\<lparr>recv_queue := t # recv_queue u, cur_alloc := None\<rparr>) w"
    using assms(1,2,6) by (simp add: udp_recv_cb0_def with_udp_def)
  then show ?thesis
    using assms(3-5) by (auto simp: udp_inv_def udp_wf_def fits_def)
next
  case False
  obtain r where r: "recvs w t = Some r"
    using assms(5) by auto
  let ?r = "r\<lparr>addr := store_addr w a (addr r), len := nat n\<rparr>"
  define w1 where "w1 = set_udp (u\<lparr>cur_alloc := None\<rparr>)
    (if buf r = None \<or> nat n = 0 then (set_recv t ?r w)\<lparr>routing_len := nat n\<rparr> else set_recv t ?r w)"
  have w1_fields: "handle_data w1 = Some (u\<lparr>cur_alloc := None\<rparr>)" "reading w1 = Some Cb0"
      "recvs w1 = (recvs w)(t := Some ?r)"
    by (simp_all add: w1_def assms(3))
  have "n \<ge> 0" "res_bind (stand lt react t w1) (\<lambda>w.
       case handle_data w of
         None \<Rightarrow> Inr (w\<lparr>routing_len := 0\<rparr>)
       | Some u \<Rightarrow> if recv_queue u = [] then recv_stop (w\<lparr>routing_len := 0\<rparr>)
                   else Inr (w\<lparr>routing_len := 0\<rparr>)) = Inr w'"
    using assms(1,2,6) False r
    by (auto simp: udp_recv_cb0_def with_udp_def with_recv_def check_eq_Inr Let_def w1_def
        split: if_splits)
  then obtain w2 where w2: "stand lt react t w1 = Inr w2"
      "(case handle_data w2 of None \<Rightarrow> Inr (w2\<lparr>routing_len := 0\<rparr>)
        | Some u \<Rightarrow> if recv_queue u = [] then recv_stop (w2\<lparr>routing_len := 0\<rparr>)
                    else Inr (w2\<lparr>routing_len := 0\<rparr>)) = Inr w'"
    by (auto simp: res_bind_eq_Inr)
  have "udp_wf w1"
    using w1_fields assms(4) by (auto simp: udp_wf_def fits_def)
  then have "udp_wf w2"
    by (rule stand_wf [OF _ w2(1)])
  then have wf2: "udp_wf (w2\<lparr>routing_len := 0\<rparr>)"
    by (rule udp_wf_same) simp_all
  show ?thesis
  proof (cases "handle_data w2")
    case None
    then show ?thesis
      using w2(2) wf2 by (auto simp: udp_inv_def)
  next
    case (Some u2)
    then show ?thesis
      using w2(2) wf2 by (auto simp: udp_inv_def udp_wf_def fits_def recv_stop_eq split: if_splits)
  qed
qed

lemma give_packet_eq:
  "give_packet t a w = Inr w' \<Longrightarrow> \<exists>r. recvs w t \<noteq> None \<and> w' = set_recv t r w"
  by (auto simp: give_packet_def udp_inr Let_def split: option.splits)

lemma give_packet_inv:
  assumes "udp_inv w" "give_packet t a w = Inr w'"
  shows "udp_inv w'"
proof -
  obtain r where "w' = set_recv t r w"
    using give_packet_eq [OF assms(2)] by blast
  then show ?thesis
    using assms(1) by (auto simp: udp_inv_def udp_wf_def fits_def)
qed

lemma give_to_recv_inv:
  assumes "udp_inv w" "handle_data w = Some u" "reading w = Some Cb1"
    "give_to_recv lt react a u w = Inr w'"
  shows "udp_inv w'"
proof -
  obtain t ts w1 where q: "recv_queue u = t # ts"
      "give_packet t a (set_udp (u\<lparr>recv_queue := ts\<rparr>) w) = Inr w1" "stand lt react t w1 = Inr w'"
    using assms(4) by (auto simp: give_to_recv_def res_bind_eq_Inr split: list.splits)
  have "udp_inv (set_udp (u\<lparr>recv_queue := ts\<rparr>) w)"
    using assms(1-3) q(1) by (auto simp: udp_inv_def udp_wf_def fits_def)
  then show ?thesis
    using give_packet_inv [OF _ q(2)] stand_inv [OF _ q(3)] by blast
qed

text \<open>What \<open>udp_recv_cb1\<close> does with a packet, as cases.\<close>

definition cb1_action ::
  "('q \<Rightarrow> 'q \<Rightarrow> bool) \<Rightarrow> 'q reaction \<Rightarrow> sockaddr \<Rightarrow> u8 list \<Rightarrow> 'q udp \<Rightarrow> int \<Rightarrow> tid option \<Rightarrow> 'q seqer
     \<Rightarrow> 'q udp_world \<Rightarrow> 'q udp_world res" where
  "cb1_action lt react a packet u ret rbs s w =
     (if ret \<ge> 0 \<and> rbs \<noteq> None then res_bind (give_packet (the rbs) a w) (stand lt react (the rbs))
      else if recv_queue u \<noteq> [] then give_to_recv lt react a u w
      else if ret \<ge> 0 then
        Inr ((set_udp (u\<lparr>c_unrecv := c_unrecv u + 1\<rparr>) w)
          \<lparr>reported := reported w @ [Unrecv packet (cur_seq s)]\<rparr>)
      else
        Inr ((set_udp (u\<lparr>c_failed := c_failed u + 1\<rparr>) w)
          \<lparr>reported := reported w @ [Failed packet ret]\<rparr>))"

lemma recv_cb1_cases:
  assumes "udp_recv_cb1 lt getter react n a w = Inr w'" "n > 0" "handle_data w = Some u"
  obtains s ret rbs s' w1 where "seqer u = Some s"
    "unwrap lt getter (take (nat n) (routing_buf w)) s = (ret, rbs, s')"
    "cb1_action lt react a (take (nat n) (routing_buf w)) (u\<lparr>seqer := Some s'\<rparr>) ret rbs s'
       (set_udp (u\<lparr>seqer := Some s'\<rparr>) (w\<lparr>routing_len := nat n\<rparr>)) = Inr w1"
    "w' = w1\<lparr>routing_len := 0\<rparr>"
proof -
  obtain s where s: "seqer u = Some s"
    using assms by (auto simp: udp_recv_cb1_def with_udp_def check_def Let_def split: option.splits)
  obtain ret rbs s' where un: "unwrap lt getter (take (nat n) (routing_buf w)) s = (ret, rbs, s')"
    by (cases "unwrap lt getter (take (nat n) (routing_buf w)) s") auto
  let ?w = "set_udp (u\<lparr>seqer := Some s'\<rparr>) (w\<lparr>routing_len := nat n\<rparr>)"
  have "res_bind (cb1_action lt react a (take (nat n) (routing_buf w)) (u\<lparr>seqer := Some s'\<rparr>) ret rbs
      s' ?w) (\<lambda>w. Inr (w\<lparr>routing_len := 0\<rparr>)) = Inr w'"
    using assms s un
    by (cases rbs) (auto simp: udp_recv_cb1_def with_udp_def cb1_action_def Let_def)
  then show ?thesis
    using that s un by (auto simp: res_bind_eq_Inr)
qed

lemma cb1_action_inv:
  assumes "udp_inv w" "handle_data w = Some u" "reading w = Some Cb1"
    "cb1_action lt react a packet u ret rbs s w = Inr w'"
  shows "udp_inv w'"
proof -
  have "udp_inv ((set_udp (u\<lparr>c_unrecv := x\<rparr>) w)\<lparr>reported := y\<rparr>)"
    "udp_inv ((set_udp (u\<lparr>c_failed := x\<rparr>) w)\<lparr>reported := y\<rparr>)" for x y
    using assms(1-3) by (auto simp: udp_inv_def udp_wf_def fits_def)
  moreover have "udp_inv w'" if "res_bind (give_packet t a w) (stand lt react t) = Inr w'" for t
    using that give_packet_inv [OF assms(1)] stand_inv by (fastforce simp: res_bind_eq_Inr)
  ultimately show ?thesis
    using assms(4) give_to_recv_inv [OF assms(1-3)]
    unfolding cb1_action_def by (auto split: if_splits)
qed

text \<open>A datagram, for each of the installed callbacks.\<close>

lemma datagram_cb0_inv:
  assumes "udp_inv w" "datagram lt getter react bytes a w = Inr w'" "reading w = Some Cb0"
    and u: "handle_data w = Some u" "fits (Some Cb0) (recvs w) u"
  shows "udp_inv w'"
proof -
  obtain t ts r where t: "recv_queue u = t # ts" "recvs w t = Some r"
    "udp_alloc_cb0 w = Inr (if buf r \<noteq> None \<and> len r \<noteq> 0
       then (To_user t, uv_buf_len (len r), set_udp (u\<lparr>cur_alloc := Some t, recv_queue := ts\<rparr>) w)
       else (To_routing, ROUTING_BUF_SIZE, set_udp (u\<lparr>cur_alloc := Some t, recv_queue := ts\<rparr>) w))"
    using alloc_cb0_eq [OF assms(1,3) u(1)] by blast
  obtain d k where "udp_recv_cb0 lt react (int (length (take k bytes))) a
      (fill d (take k bytes) (set_udp (u\<lparr>cur_alloc := Some t, recv_queue := ts\<rparr>) w)) = Inr w'"
    using assms(2,3) t(3) by (auto simp: datagram_eqs split: if_splits)
  then show ?thesis
    by (rule recv_cb0_inv [rotated -1]) (use assms(3) u t in \<open>auto simp: fill_recvs fits_def\<close>)
qed

lemma datagram_cb1_inv:
  assumes "udp_inv (fill To_routing (take ROUTING_BUF_SIZE bytes) w)" (is "udp_inv ?w")
    and "datagram lt getter react bytes a w = Inr w'" "reading w = Some Cb1"
    and u: "handle_data w = Some u" "fits (Some Cb1) (recvs w) u"
  shows "udp_inv w'"
proof -
  let ?bytes = "take ROUTING_BUF_SIZE bytes"
  have r: "udp_recv_cb1 lt getter react (int (length ?bytes)) a ?w = Inr w'"
    using assms(2,3) by (simp add: datagram_eqs Let_def)
  show ?thesis
  proof (cases "length ?bytes = 0")
    case True
    then show ?thesis
      using r assms(1) by (simp add: udp_recv_cb1_def check_def)
  next
    case False
    obtain s ret rbs s' w1 where "seqer u = Some s"
      and act: "cb1_action lt react a (take (nat (int (length ?bytes))) (routing_buf ?w))
        (u\<lparr>seqer := Some s'\<rparr>) ret rbs s' (set_udp (u\<lparr>seqer := Some s'\<rparr>)
          (?w\<lparr>routing_len := nat (int (length ?bytes))\<rparr>)) = Inr w1"
      and w': "w' = w1\<lparr>routing_len := 0\<rparr>"
      using recv_cb1_cases [OF r] False u(1) by (metis fill_fields(1) of_nat_0_less_iff length_greater_0_conv length_0_conv)
    have "udp_inv w1"
      by (rule cb1_action_inv [OF _ _ _ act]) (use assms(1,3) u in \<open>auto simp: udp_inv_def udp_wf_def fits_def\<close>)
    then show ?thesis
      unfolding w' by (rule udp_inv_same) simp_all
  qed
qed

lemma datagram_inv:
  assumes "udp_inv w" "datagram lt getter react bytes a w = Inr w'"
  shows "udp_inv w'"
proof (cases "reading w")
  case None
  then show ?thesis using assms by (simp add: datagram_eqs)
next
  case (Some cb)
  then obtain u where u: "handle_data w = Some u" "fits (Some cb) (recvs w) u"
    using assms(1) by (cases "handle_data w") (auto simp: udp_inv_def udp_wf_def)
  have fi: "udp_inv (fill To_routing (take ROUTING_BUF_SIZE bytes) w)"
    by (rule udp_inv_same [OF assms(1)]) (simp_all add: fill_def)
  show ?thesis
  proof (cases cb)
    case Cb0
    then show ?thesis
      using datagram_cb0_inv [OF assms] Some u by simp
  next
    case Cb1
    then show ?thesis
      using datagram_cb1_inv [OF fi assms(2)] Some u by simp
  next
    case Cb2
    then show ?thesis
      using assms(2) Some u fi
      by (auto simp: datagram_eqs udp_recv_cb2_def check_def with_udp_def Let_def udp_inv_def
          udp_wf_def fits_def split: if_splits)
  qed
qed

section \<open>Reachable worlds\<close>

inductive udp_reach ::
  "('q \<Rightarrow> 'q \<Rightarrow> bool) \<Rightarrow> 'q getter \<Rightarrow> 'q reaction \<Rightarrow> 'q udp_world \<Rightarrow> 'q udp_world \<Rightarrow> bool"
  for lt getter react w\<^sub>0 where
  udp_start: "udp_reach lt getter react w\<^sub>0 w\<^sub>0"
| udp_user: "udp_reach lt getter react w\<^sub>0 w \<Longrightarrow> do_udp lt p w = Inr w' \<Longrightarrow>
    udp_reach lt getter react w\<^sub>0 w'"
| udp_packet: "udp_reach lt getter react w\<^sub>0 w \<Longrightarrow> datagram lt getter react bytes a w = Inr w' \<Longrightarrow>
    udp_reach lt getter react w\<^sub>0 w'"

text \<open>A world with a socket that was just constructed.\<close>

definition fresh_socket :: "'q udp_world \<Rightarrow> bool" where
  "fresh_socket w \<longleftrightarrow> handle_data w = Some new_udp \<and> reading w = None"

text \<open>
  C12: whatever sequence of operations and datagrams a socket sees, and whatever the continued
  tasks do, the callbacks installed in the event library fit the socket's state; in particular
  while datagrams are received for \<open>recv\<close> there is always a receiver waiting, so the
  \<open>CHECK\<close>s of \<open>udp_alloc_cb0\<close> never fail.
\<close>

theorem udp_callbacks_fit:
  assumes "fresh_socket w\<^sub>0" "udp_reach lt getter react w\<^sub>0 w"
  shows "udp_inv w \<and> (reading w = Some Cb0 \<longrightarrow> (\<exists>d. udp_alloc_cb0 w = Inr d))"
proof -
  from assms(2) have inv: "udp_inv w"
  proof induction
    case udp_start
    then show ?case
      using assms(1) by (simp add: fresh_socket_def udp_inv_def udp_wf_def fits_def new_udp_def)
  next
    case (udp_user w p w')
    then show ?case
      using do_udp_keeps [of w lt p w'] by (simp add: udp_inv_def)
  next
    case (udp_packet w bytes a w')
    then show ?case
      using datagram_inv by blast
  qed
  moreover have "\<exists>d. udp_alloc_cb0 w = Inr d" if cb0: "reading w = Some Cb0"
  proof -
    obtain u where "handle_data w = Some u"
      using inv cb0 by (cases "handle_data w") (auto simp: udp_inv_def udp_wf_def)
    from alloc_cb0_eq [OF inv cb0 this] show ?thesis
      by blast
  qed
  ultimately show ?thesis
    by blast
qed

section \<open>Every packet once\<close>

text \<open>User code does not touch the books, and reception by sequence goes on while the socket lives.\<close>

definition same_books :: "'q udp_world \<Rightarrow> 'q udp_world \<Rightarrow> bool" where
  "same_books w w' \<longleftrightarrow> resumed w' = resumed w \<and> reported w' = reported w \<and>
     (\<forall>u'. handle_data w' = Some u' \<longrightarrow> (\<exists>u. handle_data w = Some u \<and>
        c_unrecv u' = c_unrecv u \<and> c_failed u' = c_failed u \<and>
        (reading w = Some Cb1 \<longrightarrow> reading w' = Some Cb1)))"

lemma same_books_refl: "same_books w w"
  by (simp add: same_books_def)

lemma same_books_trans: "same_books w w' \<Longrightarrow> same_books w' w'' \<Longrightarrow> same_books w w''"
  unfolding same_books_def by metis

lemma do_udp_books:
  assumes "udp_wf w" "do_udp lt p w = Inr w'"
  shows "same_books w w'"
proof (cases p)
  case (Recv_run t)
  then show ?thesis
    using assms udp_wfD [OF assms(1)]
    by (auto simp: recv_run_def udp_inr enqueue_def recv_start_eq same_books_def fits_def
        split: if_splits)
next
  case (Recv_cancel t)
  then show ?thesis
    using assms udp_wfD [OF assms(1)]
    by (auto simp: recv_cancel_def udp_inr Let_def recv_stop_eq same_books_def fits_def
        split: if_splits)
next
  case (Seq_run t q)
  then show ?thesis
    using assms udp_wfD [OF assms(1)]
    by (auto simp: seq_run_def udp_inr recv_start_eq same_books_def fits_def
        split: if_splits option.splits)
next
  case (New_recv t b n)
  then show ?thesis using assms(2) by (auto simp: new_recv_def same_books_def)
next
  case (Seq_cancel q)
  then show ?thesis using assms(2) by (auto simp: seq_cancel_eq same_books_def)
next
  case (Bind_seq q)
  then show ?thesis using assms(2) by (auto simp: bind_seq_eq res_bind_eq_Inr same_books_def split: if_splits)
next
  case (Ignore_recv cb)
  then show ?thesis
    using assms udp_wfD [OF assms(1)] by (auto simp: ignore_recv_eq same_books_def fits_def)
next
  case Destroy
  then show ?thesis using assms(2) by (auto simp: same_books_def dest!: destroy_eq)
qed

lemma do_udps_books: "udp_wf w \<Longrightarrow> do_udps lt ps w = Inr w' \<Longrightarrow> same_books w w'"
proof (induction ps arbitrary: w)
  case Nil
  then show ?case by (simp add: same_books_refl)
next
  case (Cons p ps)
  then obtain w1 where "do_udp lt p w = Inr w1" "do_udps lt ps w1 = Inr w'"
    by (auto simp: res_bind_eq_Inr)
  then show ?case
    using Cons do_udp_keeps do_udp_books same_books_trans by blast
qed

lemma stand_books:
  assumes "udp_wf w" "stand lt react t w = Inr w'"
  shows "same_books (w\<lparr>resumed := resumed w @ [(t, routing_len w)]\<rparr>) w'"
proof (rule do_udps_books)
  show "udp_wf (w\<lparr>resumed := resumed w @ [(t, routing_len w)]\<rparr>)"
    by (rule udp_wf_same [OF assms(1)]) simp_all
  show "do_udps lt (react t (w\<lparr>resumed := resumed w @ [(t, routing_len w)]\<rparr>))
      (w\<lparr>resumed := resumed w @ [(t, routing_len w)]\<rparr>) = Inr w'"
    using assms(2) by (simp add: stand_def Let_def)
qed

text \<open>What a packet adds to the books of a socket that receives by sequence.\<close>

definition books :: "'q udp_world \<Rightarrow> 'q udp \<Rightarrow> u64" where
  "books w u = of_nat (length (resumed w)) + c_unrecv u + c_failed u"

lemma given_packet_books:
  assumes "udp_wf w" "handle_data w = Some u" "reading w = Some Cb1"
    "res_bind (give_packet t a w) (stand lt react t) = Inr w'" "handle_data w' = Some u'"
  shows "reading w' = Some Cb1 \<and> books w' u' = books w u + 1"
proof -
  obtain w1 r where w1: "w1 = set_recv t r w" "stand lt react t w1 = Inr w'"
    using assms(4) give_packet_eq by (fastforce simp: res_bind_eq_Inr)
  have "udp_wf w1"
    using assms(1) w1(1) by (auto simp: udp_wf_def fits_def)
  from stand_books [OF this w1(2)] show ?thesis
    using assms(2,3,5) w1(1) by (auto simp: same_books_def books_def)
qed

lemma cb1_action_books:
  assumes "udp_wf w" "handle_data w = Some u" "reading w = Some Cb1"
    "cb1_action lt react a packet u ret rbs s w = Inr w'" "handle_data w' = Some u'"
  shows "reading w' = Some Cb1 \<and> books w' u' = books w u + 1"
proof (cases "ret \<ge> 0 \<and> rbs \<noteq> None")
  case True
  then show ?thesis
    using assms given_packet_books [OF assms(1-3) _ assms(5)] by (auto simp: cb1_action_def)
next
  case no: False
  show ?thesis
  proof (cases "recv_queue u")
    case Nil
    then show ?thesis
      using no assms by (auto simp: cb1_action_def books_def split: if_splits)
  next
    case (Cons t ts)
    let ?u = "u\<lparr>recv_queue := ts\<rparr>"
    have "res_bind (give_packet t a (set_udp ?u w)) (stand lt react t) = Inr w'"
      using no assms(4) Cons by (auto simp: cb1_action_def give_to_recv_def split: if_splits)
    moreover have "udp_wf (set_udp ?u w)"
      using assms(1-3) Cons by (auto simp: udp_wf_def fits_def)
    ultimately show ?thesis
      using given_packet_books [of "set_udp ?u w" ?u] assms(3,5) by (auto simp: books_def)
  qed
qed

lemma datagram_books:
  assumes "udp_inv w" "handle_data w = Some u" "reading w = Some Cb1"
    "datagram lt getter react bytes a w = Inr w'" "handle_data w' = Some u'"
  shows "reading w' = Some Cb1 \<and> books w' u' = books w u + (if bytes = [] then 0 else 1)"
proof -
  let ?bytes = "take ROUTING_BUF_SIZE bytes"
  let ?w = "fill To_routing ?bytes w"
  have r: "udp_recv_cb1 lt getter react (int (length ?bytes)) a ?w = Inr w'"
    using assms(3,4) by (simp add: datagram_eqs Let_def)
  show ?thesis
  proof (cases "bytes = []")
    case True
    then show ?thesis
      using r assms(2,3,5) by (auto simp: udp_recv_cb1_def check_def books_def)
  next
    case False
    then have pos: "int (length ?bytes) > 0"
      by (simp add: ROUTING_BUF_SIZE_def)
    obtain s ret rbs s' w1 where "seqer u = Some s"
      and act: "cb1_action lt react a (take (nat (int (length ?bytes))) (routing_buf ?w))
        (u\<lparr>seqer := Some s'\<rparr>) ret rbs s' (set_udp (u\<lparr>seqer := Some s'\<rparr>)
          (?w\<lparr>routing_len := nat (int (length ?bytes))\<rparr>)) = Inr w1"
      and w': "w' = w1\<lparr>routing_len := 0\<rparr>"
      using recv_cb1_cases [OF r pos] assms(2) by (metis fill_fields(1))
    have "reading w1 = Some Cb1 \<and> books w1 u' = books (set_udp (u\<lparr>seqer := Some s'\<rparr>)
          (?w\<lparr>routing_len := nat (int (length ?bytes))\<rparr>)) (u\<lparr>seqer := Some s'\<rparr>) + 1"
    proof (rule cb1_action_books [OF _ _ _ act])
      show "udp_wf (set_udp (u\<lparr>seqer := Some s'\<rparr>) (?w\<lparr>routing_len := nat (int (length ?bytes))\<rparr>))"
        using assms(1-3) by (auto simp: udp_inv_def udp_wf_def fits_def fill_def)
    qed (use assms(3,5) w' in simp_all)
    then show ?thesis
      using False w' by (simp add: books_def)
  qed
qed

fun datagrams ::
  "('q \<Rightarrow> 'q \<Rightarrow> bool) \<Rightarrow> 'q getter \<Rightarrow> 'q reaction \<Rightarrow> (u8 list \<times> sockaddr) list \<Rightarrow> 'q udp_world
     \<Rightarrow> 'q udp_world res" where
  "datagrams lt getter react [] w = Inr w"
| "datagrams lt getter react ((bytes, a) # ds) w =
     res_bind (datagram lt getter react bytes a w) (datagrams lt getter react ds)"

lemma datagram_destroyed:
  "udp_inv w \<Longrightarrow> handle_data w = None \<Longrightarrow> datagram lt getter react bytes a w = Inr w"
  by (simp add: datagram_eqs udp_inv_def udp_wf_def)

lemma datagrams_destroyed:
  "udp_inv w \<Longrightarrow> handle_data w = None \<Longrightarrow> datagrams lt getter react ds w = Inr w"
  by (induction ds) (auto simp: datagram_destroyed)

text \<open>
  C13: a socket that receives by sequence accounts for every packet exactly once. However the
  continued tasks use the socket, as long as they do not destroy it: the number of tasks
  continued with a packet, the counter of packets nobody waited for and the counter of packets
  without a sequence grow together by exactly the number of non-empty datagrams (as \<open>uint64\<close>).
\<close>

theorem every_packet_once:
  assumes "udp_inv w" "handle_data w = Some u" "reading w = Some Cb1"
    and "datagrams lt getter react ds w = Inr w'" "handle_data w' = Some u'"
  shows "of_nat (length (resumed w')) + c_unrecv u' + c_failed u' =
    of_nat (length (resumed w)) + c_unrecv u + c_failed u +
    of_nat (length (filter (\<lambda>(bytes, _). bytes \<noteq> []) ds))"
  using assms
proof (induction ds arbitrary: w u)
  case Nil
  then show ?case by simp
next
  case (Cons d ds)
  obtain bytes a where d: "d = (bytes, a)" by (cases d)
  obtain w1 where w1: "datagram lt getter react bytes a w = Inr w1"
      "datagrams lt getter react ds w1 = Inr w'"
    using Cons.prems(4) d by (auto simp: res_bind_eq_Inr)
  have inv: "udp_inv w1"
    using datagram_inv [OF Cons.prems(1) w1(1)] .
  then obtain u1 where u1: "handle_data w1 = Some u1"
    using w1(2) Cons.prems(5) datagrams_destroyed [OF inv] by (cases "handle_data w1") auto
  from datagram_books [OF Cons.prems(1-3) w1(1) u1] Cons.IH [OF inv u1 _ w1(2) Cons.prems(5)]
  show ?case
    by (simp add: d books_def)
qed

text \<open>A world with one socket, and its first byte as the sequence of a packet.\<close>

definition udp_world0 :: "u32 udp_world" where
  "udp_world0 = \<lparr>handle_data = Some new_udp, reading = None, uv_ok = True, recvs = (\<lambda>_. None),
     routing_buf = replicate 8 0, routing_len = 0, garbage = [], sent = [], resumed = [],
     reported = []\<rparr>"

definition first_byte :: "u32 getter" where
  "first_byte b q = (if b = [] then (-1, q) else (0, ucast (hd b)))"

theorem udp_callbacks_fit_witness:
  "\<exists>w. do_udps less_u32 [New_recv 1 None 0, Recv_run 1] udp_world0 = Inr w \<and> udp_inv w \<and>
     reading w = Some Cb0 \<and> (\<exists>d. udp_alloc_cb0 w = Inr d)"
proof -
  obtain w1 w where w: "do_udp less_u32 (New_recv 1 None 0) udp_world0 = Inr w1"
      "do_udp less_u32 (Recv_run 1) w1 = Inr w" "reading w = Some Cb0"
    by (simp add: new_recv_def recv_run_def recv_start_def enqueue_def with_udp_def with_recv_def
        udp_world0_def new_udp_def check_def)
  have "udp_reach less_u32 first_byte (\<lambda>_ _. []) udp_world0 w"
    by (rule udp_user [OF udp_user [OF udp_start w(1)] w(2)])
  moreover have "fresh_socket udp_world0"
    by (simp add: fresh_socket_def udp_world0_def)
  ultimately have "udp_inv w \<and> (reading w = Some Cb0 \<longrightarrow> (\<exists>d. udp_alloc_cb0 w = Inr d))"
    using udp_callbacks_fit by blast
  then show ?thesis
    using w by simp
qed

definition seq_world :: "u32 udp_world" where
  "seq_world = udp_world0\<lparr>handle_data := Some (new_udp\<lparr>receiving := udp_receiving_recv_by_seq,
       seqer := Some \<lparr>seq_mapping = [(7, 1)], cur_seq = 0\<rparr>\<rparr>), reading := Some Cb1,
     recvs := [1 \<mapsto> \<lparr>buf = None, len = 0, addr = \<lparr>sa_family = 0, sa_data = []\<rparr>\<rparr>]\<rparr>"

lemmas seq_run_defs = seq_world_def udp_world0_def new_udp_def datagram_eqs udp_recv_cb1_def
  unwrap_def first_byte_def check_def with_udp_def with_recv_def give_packet_def stand_def fill_def
  blit_def Let_def ROUTING_BUF_SIZE_def set_udp_def set_recv_def store_addr_def
  equiv_key_def less_u32_def

theorem every_packet_once_witness:
  "\<exists>w' u'. datagrams less_u32 first_byte (\<lambda>_ _. [])
       [([7, 1], \<lparr>sa_family = 2, sa_data = []\<rparr>), ([], \<lparr>sa_family = 2, sa_data = []\<rparr>),
        ([7, 2], \<lparr>sa_family = 2, sa_data = []\<rparr>)] seq_world = Inr w' \<and>
     handle_data w' = Some u' \<and> of_nat (length (resumed w')) + c_unrecv u' + c_failed u' = (2 :: u64)"
proof -
  let ?ds = "[([7, 1], \<lparr>sa_family = 2, sa_data = []\<rparr>), ([], \<lparr>sa_family = 2, sa_data = []\<rparr>),
        ([7, 2], \<lparr>sa_family = 2, sa_data = []\<rparr>)]"
  have inv: "udp_inv seq_world"
    by (simp add: udp_inv_def udp_wf_def fits_def seq_world_def udp_world0_def new_udp_def)
  have "case datagrams less_u32 first_byte (\<lambda>_ _. []) ?ds seq_world of Inl _ \<Rightarrow> False
      | Inr w' \<Rightarrow> handle_data w' \<noteq> None"
    by (simp add: seq_run_defs)
  then obtain w' u' where w': "datagrams less_u32 first_byte (\<lambda>_ _. []) ?ds seq_world = Inr w'"
      "handle_data w' = Some u'"
    by (auto split: sum.splits)
  from every_packet_once [OF inv _ _ w'] show ?thesis
    using w' by (simp add: seq_world_def udp_world0_def new_udp_def)
qed

section \<open>Receivers in order\<close>


definition waiting_world :: "u32 udp_world" where
  "waiting_world = udp_world0\<lparr>handle_data := Some (new_udp\<lparr>receiving := udp_receiving_recv,
       recv_queue := [1, 2]\<rparr>), reading := Some Cb0,
     recvs := (\<lambda>_. Some \<lparr>buf = Some [0, 0], len = 2, addr = \<lparr>sa_family = 0, sa_data = []\<rparr>\<rparr>)\<rparr>"


section \<open>Where the socket fails its receivers\<close>

text \<open>
  A receiver with a buffer and \<open>len == 0\<close> (the documented way to be told of the packet in the
  internal buffer only) finds the internal buffer empty: the packet is in the routing buffer and
  \<open>len\<close> is its size, but \<open>internal_buffer\<close> reports the length it had before the packet. The test in
  \<open>udp_recv_cb0\<close> reads \<open>len\<close> after it was overwritten.
\<close>

theorem zero_length_receiver_sees_nothing:
  assumes "udp_inv w" "handle_data w = Some u" "reading w = Some Cb0" "uv_ok w" "routing_len w = 0"
    and "recv_queue u = [t]" "recvs w t = Some r" "buf r = Some b" "len r = 0"
    and "bytes \<noteq> []" "length bytes \<le> ROUTING_BUF_SIZE" "\<And>w. react t w = []"
  shows "\<exists>w' r'. datagram lt getter react bytes a w = Inr w' \<and> resumed w' = resumed w @ [(t, 0)] \<and>
    recvs w' t = Some r' \<and> len r' = length bytes \<and> routing_buf w' = blit (routing_buf w) 0 bytes"
proof -
  let ?u = "u\<lparr>cur_alloc := Some t, recv_queue := []\<rparr>"
  have cur: "cur_alloc u = None"
    using assms(1-3) by (auto simp: udp_inv_def udp_wf_def fits_def)
  define w1 where "w1 = fill To_routing bytes (set_udp ?u w)"
  define n where "n = length bytes"
  have n: "0 < n" "take ROUTING_BUF_SIZE bytes = bytes"
    using assms(10,11) by (simp_all add: n_def)
  have w1: "handle_data w1 = Some ?u" "uv_ok w1" "resumed w1 = resumed w" "routing_len w1 = 0"
      "recvs w1 t = Some r" "routing_buf w1 = blit (routing_buf w) 0 bytes"
    using assms(4,5,7) by (simp_all add: w1_def) (simp_all add: fill_def set_udp_def)
  have "udp_alloc_cb0 w = Inr (To_routing, ROUTING_BUF_SIZE, set_udp ?u w)"
    using assms(2,6-9) cur by (simp add: udp_alloc_cb0_def with_udp_def with_recv_def Let_def)
  then have "datagram lt getter react bytes a w = udp_recv_cb0 lt react (int n) a w1"
    using assms(3) n(2) by (simp add: datagram_eqs w1_def n_def)
  moreover have "udp_recv_cb0 lt react (int n) a w1 =
      recv_stop ((set_udp (?u\<lparr>cur_alloc := None\<rparr>)
        (set_recv t (r\<lparr>addr := store_addr w1 a (addr r), len := n\<rparr>) w1))
        \<lparr>resumed := resumed w @ [(t, 0)], routing_len := 0\<rparr>)"
    using w1 n(1) assms(8,12)
    by (simp add: udp_recv_cb0_def with_udp_def with_recv_def stand_def Let_def)
  ultimately show ?thesis
    using w1 by (auto simp: recv_stop_def with_udp_def set_udp_def set_recv_def n_def)
qed

theorem zero_length_receiver_sees_nothing_witness:
  "\<exists>w w' :: u32 udp_world. reading w = Some Cb0 \<and>
     datagram less_u32 first_byte (\<lambda>_ _. []) [7, 8] \<lparr>sa_family = 2, sa_data = []\<rparr> w = Inr w' \<and>
     resumed w' = [(1, 0)] \<and> take 2 (routing_buf w') = [7, 8]"
proof -
  let ?u = "new_udp\<lparr>receiving := udp_receiving_recv, recv_queue := [1]\<rparr> :: u32 udp"
  let ?r = "\<lparr>buf = Some [0, 0], len = 0, addr = \<lparr>sa_family = 0, sa_data = []\<rparr>\<rparr> :: udp_recv"
  define w where "w = udp_world0\<lparr>handle_data := Some ?u, reading := Some Cb0, recvs := (\<lambda>_. Some ?r)\<rparr>"
  have w: "udp_inv w" "handle_data w = Some ?u" "reading w = Some Cb0" "uv_ok w" "routing_len w = 0"
      "recvs w 1 = Some ?r" "resumed w = []" "routing_buf w = replicate 8 0"
    by (simp_all add: udp_inv_def udp_wf_def fits_def w_def udp_world0_def new_udp_def)
  have "take 2 (blit (replicate 8 0) 0 [7, 8]) = ([7, 8] :: u8 list)"
    by (simp add: blit_def)
  then show ?thesis
    using zero_length_receiver_sees_nothing [OF w(1-5) _ w(6), of "[0, 0]" "[7, 8]" "\<lambda>_ _. []"
        less_u32 first_byte "\<lparr>sa_family = 2, sa_data = []\<rparr>"] w(3,7,8)
    by (auto simp: ROUTING_BUF_SIZE_def)
qed

end
