(* ===== verification/Tcp_Stream.thy ===== *)
theory Tcp_Stream
  imports Ccf_Prelude "HOL-Library.Sublist"
begin

text \<open>
  The byte stream of a TCP connection as \<open>tcp::recv_till\<close> reads it (\<open>src/tcp.cc\<close>): the search for a
  pattern in the connection's buffer, and \<open>recv_till::remaining\<close>, which moves bytes from that buffer
  to the user's. The theory gives an abstract request (take a prefix of the stream) and shows that
  \<open>remaining\<close> implements it, however the stream was cut into pieces on arrival.
\<close>

section \<open>Searching\<close>

text \<open>
  \<open>bufbuf\<close>: the end of the first occurrence of \<open>buf2\<close> in \<open>buf1\<close>, as an offset. The two
  functions before it are its inner and its outer loop.
\<close>

function match_at :: "u8 list \<Rightarrow> u8 list \<Rightarrow> nat \<Rightarrow> nat \<Rightarrow> bool" where
  "match_at buf1 buf2 i j =
     (if j < length buf2 then
        if buf1 ! (i + j) \<noteq> buf2 ! j then False else match_at buf1 buf2 i (Suc j)
      else True)"
  by pat_completeness auto

termination
  by (relation "measure (\<lambda>(_, buf2, _, j). length buf2 - j)") auto

declare match_at.simps [simp del]

function scan_from :: "u8 list \<Rightarrow> u8 list \<Rightarrow> nat \<Rightarrow> nat option" where
  "scan_from buf1 buf2 i =
     (if i < length buf1 - length buf2 + 1 then
        if match_at buf1 buf2 i 0 then Some (i + length buf2) else scan_from buf1 buf2 (Suc i)
      else None)"
  by pat_completeness auto

termination
  by (relation "measure (\<lambda>(buf1, buf2, i). length buf1 - length buf2 + 1 - i)") auto

declare scan_from.simps [simp del]

definition bufbuf :: "u8 list option \<Rightarrow> u8 list option \<Rightarrow> nat option" where
  "bufbuf b1 b2 =
     (case b1 of
        None \<Rightarrow> None
      | Some buf1 \<Rightarrow>
          if length buf1 = 0 \<or> length buf1 < (case b2 of None \<Rightarrow> 0 | Some buf2 \<Rightarrow> length buf2) then None
          else
            (case b2 of
               None \<Rightarrow> Some 0
             | Some buf2 \<Rightarrow> if length buf2 = 0 then Some 0 else scan_from buf1 buf2 0))"

section \<open>A request to read\<close>

text \<open>
  A \<open>recv_till\<close> object. \<open>cur\<close> is an offset into the user's buffer; \<open>user_len\<close> is the
  \<open>size_t\<close> the constructor was given by reference.
\<close>

record till =
  till_ret :: int
  till_buf :: "u8 list"
  user_len :: nat
  pattern :: "u8 list option"
  cur :: nat
  left :: nat

text \<open>\<open>connected::buf1\<close> with its size and the number of bytes held in it.\<close>

record inbuf =
  buf1 :: "u8 list"
  len1 :: nat

definition held :: "inbuf \<Rightarrow> u8 list" where
  "held b = take (len1 b) (buf1 b)"

text \<open>\<open>memcpy(cur, buf1, n)\<close>, and the \<open>memmove\<close> that drops \<open>n\<close> bytes from the front of \<open>buf1\<close>.\<close>

definition copy_out :: "nat \<Rightarrow> inbuf \<Rightarrow> till \<Rightarrow> till" where
  "copy_out n b r = r\<lparr>till_buf := blit (till_buf r) (cur r) (take n (buf1 b))\<rparr>"

definition drop_front :: "nat \<Rightarrow> inbuf \<Rightarrow> inbuf" where
  "drop_front n b =
     (let l = len1 b - n
      in if l \<noteq> 0 then b\<lparr>buf1 := blit (buf1 b) 0 (take l (drop n (buf1 b))), len1 := l\<rparr>
         else b\<lparr>len1 := l\<rparr>)"

text \<open>The code behind the label \<open>____remaining_fill\<close>.\<close>

definition remaining_fill :: "till \<Rightarrow> inbuf \<Rightarrow> bool \<times> till \<times> inbuf" where
  "remaining_fill r b = (True, copy_out (left r) b r, drop_front (left r) b)"

definition remaining :: "till \<Rightarrow> inbuf \<Rightarrow> (bool \<times> till \<times> inbuf) res" where
  "remaining r b =
     check (len1 b > 0)
       (case pattern r of
          None \<Rightarrow>
            if len1 b \<ge> left r then Inr (remaining_fill r b)
            else
              Inr (False, (copy_out (len1 b) b r)\<lparr>left := left r - len1 b, cur := cur r + len1 b\<rparr>,
                b\<lparr>len1 := 0\<rparr>)
        | Some p \<Rightarrow>
            if len1 b < length p then Inr (False, r, b)
            else
              (case bufbuf (Some (held b)) (Some p) of
                 Some copy \<Rightarrow>
                   if copy \<ge> left r then Inr (remaining_fill r b)
                   else Inr (True, (copy_out copy b r)\<lparr>user_len := cur r + copy\<rparr>, drop_front copy b)
               | None \<Rightarrow>
                   let copy = len1 b - length p + 1
                   in if copy \<ge> left r then Inr (remaining_fill r b)
                      else
                        Inr (False, (copy_out copy b r)\<lparr>left := left r - copy, cur := cur r + copy\<rparr>,
                          drop_front copy b)))"

section \<open>The search finds the first occurrence\<close>

lemma match_at_iff:
  "i + length p \<le> length b \<Longrightarrow> j \<le> length p \<Longrightarrow>
     match_at b p i j \<longleftrightarrow> drop j p = take (length p - j) (drop (i + j) b)"
proof (induction b p i j rule: match_at.induct)
  case (1 b p i j)
  show ?case
  proof (cases "j < length p")
    case True
    have "drop j p = p ! j # drop (Suc j) p"
      using True by (rule Cons_nth_drop_Suc [symmetric])
    moreover have "take (length p - j) (drop (i + j) b) =
        b ! (i + j) # take (length p - Suc j) (drop (i + Suc j) b)"
      using True 1(2) by (simp add: Cons_nth_drop_Suc [symmetric, of "i + j" b] take_Cons' Suc_diff_Suc)
    ultimately show ?thesis
      using 1 True by (simp add: match_at.simps [of b p i j])
  next
    case False
    then show ?thesis
      using 1(3) by (subst match_at.simps) simp
  qed
qed

lemma suffix_same_length: "length p = length y \<Longrightarrow> suffix p (x @ y) \<longleftrightarrow> p = y"
  by (auto simp: suffix_def)

lemma match_at_0:
  assumes "i + length p \<le> length b"
  shows "match_at b p i 0 \<longleftrightarrow> suffix p (take (i + length p) b)"
proof -
  have "match_at b p i 0 \<longleftrightarrow> p = take (length p) (drop i b)"
    using match_at_iff [of i p b 0] assms by simp
  also have "\<dots> \<longleftrightarrow> suffix p (take i b @ take (length p) (drop i b))"
    by (rule suffix_same_length [symmetric]) (use assms in simp)
  finally show ?thesis
    by (simp add: take_add)
qed

text \<open>The specification of the search: the shortest prefix that ends with the pattern.\<close>

definition first_end :: "u8 list \<Rightarrow> u8 list \<Rightarrow> nat option" where
  "first_end p s = find (\<lambda>k. suffix p (take k s)) [0..<Suc (length s)]"

lemma scan_from_find:
  assumes "length p \<le> length b"
  shows "scan_from b p i = find (\<lambda>k. suffix p (take k b)) [i + length p..<Suc (length b)]"
  using assms
proof (induction b p i rule: scan_from.induct)
  case (1 b p i)
  show ?case
  proof (cases "i < length b - length p + 1")
    case True
    then have "i + length p \<le> length b"
      using 1(2) by simp
    moreover from this have "[i + length p..<Suc (length b)] =
        (i + length p) # [Suc i + length p..<Suc (length b)]"
      by (simp add: upt_conv_Cons del: upt_Suc)
    ultimately show ?thesis
      using 1 True match_at_0 [of i p b] by (simp add: scan_from.simps [of b p i] del: upt_Suc)
  next
    case False
    then have "[i + length p..<Suc (length b)] = []"
      using 1(2) by (simp del: upt_Suc)
    then show ?thesis
      using False by (simp add: scan_from.simps [of b p i] del: upt_Suc)
  qed
qed

lemma suffix_take_short: "suffix p (take k s) \<Longrightarrow> length p \<le> k"
  by (drule suffix_length_le) simp

lemma find_append: "find P (xs @ ys) = (case find P xs of None \<Rightarrow> find P ys | Some x \<Rightarrow> Some x)"
  by (induction xs) auto

lemma bufbuf_eq_first_end:
  assumes "p \<noteq> []"
  shows "bufbuf (Some b) (Some p) = first_end p b"
proof (cases "length p \<le> length b")
  case True
  have "find (\<lambda>k. suffix p (take k b)) [0..<length p] = None"
    by (auto simp: find_None_iff dest: suffix_take_short)
  moreover have "[0..<Suc (length b)] = [0..<length p] @ [length p..<Suc (length b)]"
    using True upt_add_eq_append [of 0 "length p" "Suc (length b) - length p"] by (simp del: upt_Suc)
  ultimately have "first_end p b = scan_from b p 0"
    using scan_from_find [OF True, of 0] by (simp add: first_end_def find_append del: upt_Suc)
  then show ?thesis
    using True assms by (auto simp: bufbuf_def)
next
  case False
  then have "first_end p b = None"
    by (auto simp: first_end_def find_None_iff dest: suffix_take_short)
  then show ?thesis
    using False by (simp add: bufbuf_def)
qed

text \<open>
  C16: \<open>bufbuf\<close> computes the end of the first occurrence: the length of the shortest prefix of
  the buffer that ends with the pattern, and \<open>NULL\<close> when no prefix does.
\<close>

theorem bufbuf_first_end:
  assumes "p \<noteq> []"
  shows "bufbuf (Some b) (Some p) = first_end p b"
  using assms by (rule bufbuf_eq_first_end)

theorem bufbuf_first_end_witness:
  "bufbuf (Some [1, 2, 1, 2, 3, 2, 3]) (Some [2, 3]) = Some 5"
proof -
  have "first_end [2, 3] [1, 2, 1, 2, 3, 2, 3] = Some 5"
    by code_simp
  then show ?thesis
    using bufbuf_first_end [of "[2, 3]" "[1, 2, 1, 2, 3, 2, 3]"] by simp
qed

section \<open>What a request takes\<close>

text \<open>
  The abstract request: the number of bytes that a request for at most \<open>n\<close> bytes, or for everything
  up to a pattern, takes from the stream \<open>s\<close>; none while more bytes must arrive.
\<close>

definition taken :: "nat \<Rightarrow> u8 list option \<Rightarrow> u8 list \<Rightarrow> nat option" where
  "taken n pat s =
     (case pat of
        None \<Rightarrow> if n \<le> length s then Some n else None
      | Some p \<Rightarrow>
          (case first_end p s of
             Some k \<Rightarrow> Some (min k n)
           | None \<Rightarrow> if n + length p \<le> length s + 1 then Some n else None))"

lemma first_end_Some:
  "first_end p s = Some k \<longleftrightarrow>
     k \<le> length s \<and> suffix p (take k s) \<and> (\<forall>k'<k. \<not> suffix p (take k' s))"
proof
  assume "first_end p s = Some k"
  then obtain i where i: "i < length [0..<Suc (length s)]" "suffix p (take ([0..<Suc (length s)] ! i) s)"
      "k = [0..<Suc (length s)] ! i" "\<forall>j<i. \<not> suffix p (take ([0..<Suc (length s)] ! j) s)"
    by (auto simp: first_end_def find_Some_iff simp del: upt_Suc)
  from i(1,3) have "k = i" "i \<le> length s"
    by (simp_all del: upt_Suc add: nth_upt)
  moreover have "\<not> suffix p (take j s)" if "j < i" for j
    using i(1,4) that by (auto simp del: upt_Suc simp: nth_upt)
  ultimately show "k \<le> length s \<and> suffix p (take k s) \<and> (\<forall>k'<k. \<not> suffix p (take k' s))"
    using i(2,3) by auto
next
  assume k: "k \<le> length s \<and> suffix p (take k s) \<and> (\<forall>k'<k. \<not> suffix p (take k' s))"
  then show "first_end p s = Some k"
    by (auto simp: first_end_def find_Some_iff nth_upt simp del: upt_Suc intro!: exI [of _ k])
qed

lemma first_end_None: "first_end p s = None \<longleftrightarrow> (\<forall>k \<le> length s. \<not> suffix p (take k s))"
  by (auto simp: first_end_def find_None_iff less_Suc_eq_le simp del: upt_Suc)

lemma first_end_append: "first_end p s = Some k \<Longrightarrow> first_end p (s @ s') = Some k"
  by (auto simp: first_end_Some)

lemma first_end_later: "first_end p s = None \<Longrightarrow> first_end p (s @ s') = Some k \<Longrightarrow> length s < k"
  by (rule ccontr) (auto simp: first_end_Some first_end_None)

text \<open>A decision to take bytes does not depend on what arrives later.\<close>

lemma taken_append:
  assumes "taken n pat s = Some k"
  shows "taken n pat (s @ s') = Some k"
proof (cases pat)
  case (Some p)
  show ?thesis
  proof (cases "first_end p s")
    case None
    then have k: "k = n" "n + length p \<le> length s + 1"
      using assms Some by (auto simp: taken_def split: if_splits)
    moreover have "n \<le> k'" if "first_end p (s @ s') = Some k'" for k'
    proof -
      have "length s < k'" "p \<noteq> []"
        using first_end_later [OF None that] None by (auto simp: first_end_None)
      then show ?thesis
        using k(2) by (cases p) auto
    qed
    ultimately show ?thesis
      using Some by (auto simp: taken_def split: option.splits)
  qed (use assms Some first_end_append in \<open>auto simp: taken_def\<close>)
qed (use assms in \<open>auto simp: taken_def split: if_splits\<close>)

lemma taken_bound: "taken n pat s = Some k \<Longrightarrow> pat \<noteq> Some [] \<Longrightarrow> k \<le> n \<and> k \<le> length s"
  by (auto simp: taken_def first_end_Some Suc_le_eq neq_Nil_conv split: option.splits if_splits)

section \<open>Moving bytes to the user\<close>

definition got :: "till \<Rightarrow> u8 list" where
  "got r = take (cur r) (till_buf r)"

definition inbuf_ok :: "inbuf \<Rightarrow> bool" where
  "inbuf_ok b \<longleftrightarrow> len1 b \<le> length (buf1 b)"

text \<open>A request for \<open>n\<close> bytes in progress.\<close>

definition till_ok :: "nat \<Rightarrow> till \<Rightarrow> bool" where
  "till_ok n r \<longleftrightarrow> 0 < left r \<and> cur r + left r = n \<and> n \<le> length (till_buf r) \<and> user_len r = n \<and>
     pattern r \<noteq> Some []"

text \<open>
  Bytes go to the user early only when no occurrence of the pattern can begin in them; and
  a request that has taken such bytes leaves the last ones, one less than the pattern is long.
\<close>

definition clean :: "till \<Rightarrow> inbuf \<Rightarrow> bool" where
  "clean r b \<longleftrightarrow> (\<forall>p. pattern r = Some p \<longrightarrow>
     (\<forall>k < cur r + length p. \<not> suffix p (take k (got r @ held b))) \<and>
     (cur r \<noteq> 0 \<longrightarrow> length p \<le> len1 b + 1))"

definition settled :: "till \<Rightarrow> inbuf \<Rightarrow> bool" where
  "settled r b \<longleftrightarrow> (case pattern r of
       None \<Rightarrow> len1 b = 0
     | Some p \<Rightarrow> len1 b < length p \<and> (cur r \<noteq> 0 \<longrightarrow> length p = len1 b + 1) \<and>
         first_end p (got r @ held b) = None)"

lemma held_length [simp]: "inbuf_ok b \<Longrightarrow> length (held b) = len1 b"
  by (simp add: held_def inbuf_ok_def)

lemma got_length [simp]: "till_ok n r \<Longrightarrow> length (got r) = cur r"
  by (auto simp: got_def till_ok_def)

lemma take_held: "k \<le> len1 b \<Longrightarrow> take k (buf1 b) = take k (held b)"
  by (simp add: held_def)

lemma drop_front_held:
  assumes "inbuf_ok b" "n \<le> len1 b"
  shows "inbuf_ok (drop_front n b)" "held (drop_front n b) = drop n (held b)"
    "len1 (drop_front n b) = len1 b - n" "length (buf1 (drop_front n b)) = length (buf1 b)"
  using assms take_blit [of 0 "take (len1 b - n) (drop n (buf1 b))" "buf1 b"]
  by (auto simp: drop_front_def inbuf_ok_def held_def Let_def drop_take)

lemma copy_out_buf:
  assumes "inbuf_ok b" "n \<le> len1 b" "cur r + n \<le> length (till_buf r)"
  shows "length (till_buf (copy_out n b r)) = length (till_buf r)"
    "take (cur r + n) (till_buf (copy_out n b r)) = got r @ take n (held b)"
  using assms take_blit [of "cur r" "take n (held b)" "till_buf r"]
  by (auto simp: copy_out_def got_def take_held min_absorb2)

lemma suffix_append_long: "length p \<le> length y \<Longrightarrow> suffix p (x @ y) \<longleftrightarrow> suffix p y"
  by (metis suffixI suffix_appendI suffix_length_suffix)

lemma first_end_clean:
  assumes "clean r b" "pattern r = Some p" "till_ok n r" "inbuf_ok b"
  shows "first_end p (got r @ held b) = map_option ((+) (cur r)) (first_end p (held b))"
proof -
  have early: "\<not> suffix p (take k (got r @ held b))" if "k < cur r + length p" for k
    using assms(1,2) that by (auto simp: clean_def)
  have len: "length (got r) = cur r"
    using assms(3) by simp
  have shift: "suffix p (take (cur r + k) (got r @ held b)) \<longleftrightarrow> suffix p (take k (held b))"
    if "k \<le> length (held b)" for k
  proof (cases "k < length p")
    case True
    then show ?thesis
      using early [of "cur r + k"] suffix_take_short [of p k "held b"] by auto
  next
    case False
    then show ?thesis
      using that suffix_append_long [of p "take k (held b)" "got r"] by (simp add: len)
  qed
  show ?thesis
  proof (cases "first_end p (held b)")
    case None
    have "\<not> suffix p (take k (got r @ held b))" if "k \<le> length (got r @ held b)" for k
    proof (cases "k < cur r")
      case False
      then obtain j where "k = cur r + j"
        using le_Suc_ex [of "cur r" k] by auto
      then show ?thesis
        using None shift that by (auto simp: first_end_None len)
    qed (use early in auto)
    then have "first_end p (got r @ held b) = None"
      unfolding first_end_None by blast
    then show ?thesis
      using None by simp
  next
    case (Some k)
    have "\<not> suffix p (take k' (got r @ held b))" if "k' < cur r + k" for k'
    proof (cases "k' < cur r")
      case False
      then obtain j where "k' = cur r + j"
        using le_Suc_ex [of "cur r" k'] by auto
      then show ?thesis
        using Some shift [of j] that by (auto simp: first_end_Some)
    qed (use early in auto)
    moreover have "k \<le> length (held b)" "suffix p (take k (held b))"
      using Some by (auto simp: first_end_Some)
    ultimately have "first_end p (got r @ held b) = Some (cur r + k)"
      using shift [of k] unfolding first_end_Some by (simp add: len)
    then show ?thesis
      using Some by simp
  qed
qed

text \<open>The outcome of a call of \<open>remaining\<close>, against the abstract request.\<close>

definition moved :: "nat \<Rightarrow> till \<Rightarrow> inbuf \<Rightarrow> bool \<times> till \<times> inbuf \<Rightarrow> bool" where
  "moved n r b res \<longleftrightarrow>
     (case res of (done, r', b') \<Rightarrow>
        inbuf_ok b' \<and> pattern r' = pattern r \<and> length (till_buf r') = length (till_buf r) \<and>
        length (buf1 b') = length (buf1 b) \<and> till_ret r' = till_ret r \<and>
        (case taken n (pattern r) (got r @ held b) of
           None \<Rightarrow> \<not> done \<and> till_ok n r' \<and> settled r' b' \<and> got r' @ held b' = got r @ held b
         | Some k \<Rightarrow> done \<and> user_len r' = k \<and> take k (till_buf r') = take k (got r @ held b) \<and>
             held b' = drop k (got r @ held b)))"

lemma moved_fill:
  assumes "till_ok n r" "inbuf_ok b" "left r \<le> len1 b" "taken n (pattern r) (got r @ held b) = Some n"
  shows "moved n r b (remaining_fill r b)"
proof -
  have n: "n = cur r + left r" "cur r + left r \<le> length (till_buf r)"
    using assms(1) by (auto simp: till_ok_def)
  have "user_len (copy_out (left r) b r) = n"
    using assms(1) by (simp add: copy_out_def till_ok_def)
  then show ?thesis
    using drop_front_held [OF assms(2,3)] copy_out_buf [OF assms(2,3) n(2)] assms(1,4)
    by (auto simp: moved_def remaining_fill_def copy_out_def n(1))
qed

lemma moved_part:
  assumes "till_ok n r" "inbuf_ok b" "k \<le> len1 b" "k < left r"
    and "taken n (pattern r) (got r @ held b) = None"
    and "r' = (copy_out k b r)\<lparr>left := left r - k, cur := cur r + k\<rparr>"
    and "inbuf_ok b'" "held b' = drop k (held b)" "length (buf1 b') = length (buf1 b)" "settled r' b'"
  shows "moved n r b (False, r', b')"
proof -
  have "cur r + k \<le> length (till_buf r)"
    using assms(1,4) by (auto simp: till_ok_def)
  from copy_out_buf [OF assms(2,3) this] have "length (till_buf r') = length (till_buf r)"
      "got r' = got r @ take k (held b)"
    by (simp_all add: assms(6) got_def)
  moreover have "till_ok n r'"
    using assms(1,4) calculation(1) by (auto simp: till_ok_def assms(6) copy_out_def)
  ultimately show ?thesis
    using assms(5,7-10) by (simp add: moved_def) (simp add: assms(6) copy_out_def)
qed

lemma moved_match:
  assumes "till_ok n r" "inbuf_ok b" "k \<le> len1 b" "k < left r"
    and "taken n (pattern r) (got r @ held b) = Some (cur r + k)"
  shows "moved n r b (True, (copy_out k b r)\<lparr>user_len := cur r + k\<rparr>, drop_front k b)"
proof -
  have "cur r + k \<le> length (till_buf r)"
    using assms(1,4) by (auto simp: till_ok_def)
  from copy_out_buf [OF assms(2,3) this] show ?thesis
    using drop_front_held [OF assms(2,3)] assms(1,5) by (auto simp: moved_def copy_out_def)
qed

text \<open>
  \<open>remaining\<close> implements the request, for every state of the buffer in which bytes wait.
\<close>

text \<open>The five ways \<open>remaining\<close> goes.\<close>

lemma remaining_cases:
  assumes "0 < len1 b" "pattern r \<noteq> Some []"
  obtains (fill) "pattern r = None" "left r \<le> len1 b" "remaining r b = Inr (remaining_fill r b)"
  | (part) "pattern r = None" "len1 b < left r"
      "remaining r b = Inr (False, (copy_out (len1 b) b r)\<lparr>left := left r - len1 b, cur := cur r + len1 b\<rparr>, b\<lparr>len1 := 0\<rparr>)"
  | (short) p where "pattern r = Some p" "len1 b < length p" "remaining r b = Inr (False, r, b)"
  | (found) p k where "pattern r = Some p" "p \<noteq> []" "first_end p (held b) = Some k"
      "remaining r b = Inr (if k \<ge> left r then remaining_fill r b
         else (True, (copy_out k b r)\<lparr>user_len := cur r + k\<rparr>, drop_front k b))"
  | (scanned) p k where "pattern r = Some p" "p \<noteq> []" "first_end p (held b) = None" "k \<le> len1 b" "len1 b + 1 = k + length p"
      "remaining r b = Inr (if k \<ge> left r then remaining_fill r b
         else (False, (copy_out k b r)\<lparr>left := left r - k, cur := cur r + k\<rparr>, drop_front k b))"
proof (cases "pattern r")
  case None
  then show thesis
    using fill part assms(1) by (cases "left r \<le> len1 b") (simp_all add: remaining_def)
next
  case (Some p)
  then have p: "p \<noteq> []"
    using assms(2) by simp
  show thesis
  proof (cases "len1 b < length p")
    case True
    then show thesis
      using short Some assms(1) by (simp add: remaining_def)
  next
    case False
    then have "len1 b - length p + 1 \<le> len1 b" "len1 b + 1 = len1 b - length p + 1 + length p"
      using p by (cases p; simp)+
    then show thesis
      using found [OF Some p] scanned [OF Some p] False Some p assms(1)
      by (cases "first_end p (held b)") (simp_all add: remaining_def bufbuf_eq_first_end Let_def)
  qed
qed

lemma moved_found:
  assumes "till_ok n r" "inbuf_ok b" "clean r b" "pattern r = Some p" "first_end p (held b) = Some k"
  shows "moved n r b (if k \<ge> left r then remaining_fill r b
    else (True, (copy_out k b r)\<lparr>user_len := cur r + k\<rparr>, drop_front k b))"
proof -
  have t: "taken n (pattern r) (got r @ held b) = Some (min (cur r + k) n)" "n = cur r + left r"
    using assms first_end_clean [OF assms(3,4,1,2)] by (simp_all add: taken_def till_ok_def)
  have k: "k \<le> len1 b"
    using assms(2,5) by (simp add: first_end_Some)
  show ?thesis
  proof (cases "k \<ge> left r")
    case True
    then show ?thesis
      using moved_fill [OF assms(1,2)] t k by (simp add: min_absorb2)
  next
    case False
    then show ?thesis
      using moved_match [OF assms(1,2) k] t by (simp add: min_absorb1)
  qed
qed

lemma moved_scanned:
  assumes "till_ok n r" "inbuf_ok b" "clean r b" "pattern r = Some p" "first_end p (held b) = None"
    and k: "k \<le> len1 b" "len1 b + 1 = k + length p"
  shows "moved n r b (if k \<ge> left r then remaining_fill r b
    else (False, (copy_out k b r)\<lparr>left := left r - k, cur := cur r + k\<rparr>, drop_front k b))"
proof -
  have s: "first_end p (got r @ held b) = None" "length (got r @ held b) = cur r + len1 b" "n = cur r + left r"
    using assms(1,2,5) first_end_clean [OF assms(3,4,1,2)] by (auto simp: till_ok_def)
  show ?thesis
  proof (cases "k \<ge> left r")
    case True
    then have "left r \<le> len1 b" "taken n (pattern r) (got r @ held b) = Some n"
      using s assms(4) k by (simp_all add: taken_def)
    with moved_fill [OF assms(1,2)] True show ?thesis
      by simp
  next
    case False
    let ?r = "(copy_out k b r)\<lparr>left := left r - k, cur := cur r + k\<rparr>"
    have "got ?r = got r @ take k (held b)"
      using copy_out_buf(2) [OF assms(2) k(1), of r] assms(1) False by (simp add: got_def till_ok_def)
    then have "settled ?r (drop_front k b)"
      using assms(4) s(1) k drop_front_held [OF assms(2) k(1)] by (simp add: settled_def copy_out_def) linarith
    moreover have "taken n (pattern r) (got r @ held b) = None" "k < left r"
      using False assms(4) s k by (simp_all add: taken_def)
    ultimately show ?thesis
      using False drop_front_held [OF assms(2) k(1)] moved_part [OF assms(1,2) k(1)] by simp
  qed
qed

lemma moved_short:
  assumes "till_ok n r" "inbuf_ok b" "clean r b" "pattern r = Some p" "len1 b < length p"
  shows "moved n r b (False, r, b)"
proof -
  have "first_end p (held b) = None"
    using assms(2,5) by (auto simp: first_end_None dest: suffix_take_short)
  then have none: "first_end p (got r @ held b) = None" "taken n (pattern r) (got r @ held b) = None"
    using first_end_clean [OF assms(3,4,1,2)] assms by (auto simp: taken_def till_ok_def)
  then have "settled r b"
    using assms(3-5) by (auto simp: settled_def clean_def)
  then show ?thesis
    using none(2) assms(1,2) by (simp add: moved_def)
qed

lemma remaining_moved:
  assumes ok: "till_ok n r" "inbuf_ok b" "clean r b" and "0 < len1 b"
  shows "\<exists>res. remaining r b = Inr res \<and> moved n r b res"
proof -
  have len: "length (got r @ held b) = cur r + len1 b" "n = cur r + left r" "pattern r \<noteq> Some []"
    using ok by (auto simp: till_ok_def)
  from assms(4) len(3) show ?thesis
  proof (cases rule: remaining_cases)
    case fill
    then have "taken n (pattern r) (got r @ held b) = Some n"
      using len by (simp add: taken_def)
    with moved_fill [OF ok(1,2) fill(2)] fill(3) show ?thesis
      by simp
  next
    case part
    then have "taken n (pattern r) (got r @ held b) = None"
      using len by (simp add: taken_def)
    moreover have "inbuf_ok (b\<lparr>len1 := 0\<rparr>)" "held (b\<lparr>len1 := 0\<rparr>) = drop (len1 b) (held b)"
      using ok(2) by (simp_all add: inbuf_ok_def held_def)
    ultimately have "moved n r b (False, (copy_out (len1 b) b r)
        \<lparr>left := left r - len1 b, cur := cur r + len1 b\<rparr>, b\<lparr>len1 := 0\<rparr>)"
      using part by (intro moved_part [OF ok(1,2)]) (simp_all add: settled_def copy_out_def)
    then show ?thesis
      using part(3) by simp
  qed (use moved_short [OF ok] moved_found [OF ok] moved_scanned [OF ok] in simp_all)
qed

text \<open>A request that was left waiting goes on from where it was when more bytes have arrived.\<close>

lemma settled_clean:
  assumes "settled r b" "till_ok n r" "inbuf_ok b" "held b' = held b @ bytes" "inbuf_ok b'"
  shows "clean r b'"
  unfolding clean_def
proof (intro allI impI conjI)
  fix p k assume p: "pattern r = Some p" and k: "k < cur r + length p"
  have none: "first_end p (got r @ held b) = None" "cur r \<noteq> 0 \<Longrightarrow> length p = len1 b + 1"
    using assms(1) p by (auto simp: settled_def)
  show "\<not> suffix p (take k (got r @ held b'))"
  proof (cases "k < length p")
    case True
    then show ?thesis
      using suffix_take_short [of p k "got r @ held b'"] by linarith
  next
    case False
    then have "k \<le> length (got r @ held b)"
      using none(2) k assms(2,3) by (cases "cur r = 0") auto
    then have "take k (got r @ held b') = take k (got r @ held b)"
      using assms(4) by simp
    then show ?thesis
      using none(1) \<open>k \<le> length (got r @ held b)\<close> by (auto simp: first_end_None)
  qed
next
  fix p assume "pattern r = Some p" "cur r \<noteq> 0"
  then show "length p \<le> len1 b' + 1"
    using assms held_length [OF assms(5)] by (auto simp: settled_def)
qed

lemma fresh_clean: "cur r = 0 \<Longrightarrow> clean r b"
  using suffix_take_short [of _ _ "got r @ held b"] by (fastforce simp: clean_def simp del: take_append)

end
