(* ===== verification/Tcp.thy ===== *)
theory Tcp
  imports Seqer Sockaddr Tcp_Stream
begin

text \<open>
  TCP connections (\<open>src/tcp.cc\<close> and the templates of namespace \<open>tcp\<close> in \<open>include/cocoflow.h\<close>):
  the object \<open>connected\<close>, the tasks that connect, send and receive on it, and the callbacks of the
  event library.

  A world holds one connection, the task objects that use it, and what can be observed: the tasks
  that were continued with the result stored for them, and the packets reported to the user's
  callbacks. Continued tasks run user code, which may use the connection: an argument \<open>react\<close>.
  Blocks fresh from \<open>malloc\<close> are filled with zeros; \<open>NULL\<close> is the empty block.
\<close>

section \<open>State\<close>

datatype tcp_receiving =
    tcp_receiving_ready
  | tcp_receiving_recv
  | tcp_receiving_recv_till
  | tcp_receiving_recv_by_seq

datatype tcp_callbacks = Tcp_cb0 | Tcp_cb1 | Tcp_cb2

text \<open>The results of the tasks.\<close>

definition success :: int where "success = 0"
definition unfinished :: int where "unfinished = -1"
definition failure :: int where "failure = -2"
definition address_in_use :: int where "address_in_use = -21"
definition packet_length_too_short :: int where "packet_length_too_short = -61"
definition packet_length_too_long :: int where "packet_length_too_long = -62"

record 'q connected =
  established :: bool
  broken :: bool
  tcp_mode :: tcp_receiving
  recv_queue0 :: "tid list"
  recv_queue1 :: "tid list"
  cur_alloc0 :: "tid option"
  cur_alloc1 :: "tid option"
  in1 :: inbuf
  buf2 :: "u8 list"
  size2 :: nat
  len2 :: nat
  header_len :: nat
  packet_len :: nat
  tcp_seqer :: "'q seqer option"
  tcp_c_unrecv :: u64
  tcp_c_failed :: u64
  async_cancel1 :: bool

text \<open>A \<open>recv\<close> or \<open>recv_by_seq\<close> object.\<close>

record tcp_recv =
  recv_ret :: int
  recv_buf :: "u8 list option"
  recv_len :: nat

datatype 'q tcp_report = Tcp_unrecv "u8 list" 'q | Tcp_failed "u8 list" int

text \<open>
  \<open>iter0\<close>, \<open>iter1\<close> and \<open>iter2\<close> are the list and map iterators a running \<open>break_all_recv\<close> holds;
  \<open>iter_dead\<close> records that the element under one of them was erased.
\<close>

record 'q tcp_world =
  conn :: "'q connected option"
  conn_reading :: "tcp_callbacks option"
  tcp_uv_ok :: bool
  tcp_recvs :: "tid \<Rightarrow> tcp_recv option"
  tills :: "tid \<Rightarrow> till option"
  rets :: "tid \<Rightarrow> int"
  connect_req :: "tid \<Rightarrow> bool"
  async_sent :: bool
  iter0 :: "tid option"
  iter1 :: "tid option"
  iter2 :: "'q option"
  iter_dead :: bool
  continued :: "(tid \<times> int) list"
  written :: "u8 list list"
  told :: "'q tcp_report list"

definition with_conn :: "'q tcp_world \<Rightarrow> ('q connected \<Rightarrow> 'a res) \<Rightarrow> 'a res" where
  "with_conn w k = (case conn w of None \<Rightarrow> Inl Use_after_free | Some c \<Rightarrow> k c)"

definition with_till :: "'q tcp_world \<Rightarrow> tid \<Rightarrow> (till \<Rightarrow> 'a res) \<Rightarrow> 'a res" where
  "with_till w t k = (case tills w t of None \<Rightarrow> Inl Use_after_free | Some r \<Rightarrow> k r)"

definition with_tcp_recv :: "'q tcp_world \<Rightarrow> tid \<Rightarrow> (tcp_recv \<Rightarrow> 'a res) \<Rightarrow> 'a res" where
  "with_tcp_recv w t k = (case tcp_recvs w t of None \<Rightarrow> Inl Use_after_free | Some r \<Rightarrow> k r)"

definition set_conn :: "'q connected \<Rightarrow> 'q tcp_world \<Rightarrow> 'q tcp_world" where
  "set_conn c w = w\<lparr>conn := Some c\<rparr>"

definition set_till :: "tid \<Rightarrow> till \<Rightarrow> 'q tcp_world \<Rightarrow> 'q tcp_world" where
  "set_till t r w = w\<lparr>tills := (tills w)(t := Some r)\<rparr>"

definition set_tcp_recv :: "tid \<Rightarrow> tcp_recv \<Rightarrow> 'q tcp_world \<Rightarrow> 'q tcp_world" where
  "set_tcp_recv t r w = w\<lparr>tcp_recvs := (tcp_recvs w)(t := Some r)\<rparr>"

section \<open>The connection\<close>

definition new_connected :: "'q connected" where
  "new_connected = \<lparr>established = False, broken = False, tcp_mode = tcp_receiving_ready,
     recv_queue0 = [], recv_queue1 = [], cur_alloc0 = None, cur_alloc1 = None,
     in1 = \<lparr>buf1 = [], len1 = 0\<rparr>, buf2 = [], size2 = 0, len2 = 0, header_len = 0, packet_len = 0,
     tcp_seqer = None, tcp_c_unrecv = 0, tcp_c_failed = 0, async_cancel1 = False\<rparr>"

text \<open>\<open>bind_inner\<close>; \<open>False\<close> is the result \<open>-1\<close>.\<close>

definition bind_inner :: "nat \<Rightarrow> nat \<Rightarrow> bool \<Rightarrow> 'q tcp_world \<Rightarrow> (bool \<times> 'q tcp_world) res" where
  "bind_inner min_len max_len lener w =
     with_conn w (\<lambda>c.
       if min_len = 0 \<or> max_len = 0 \<or> \<not> lener \<or> header_len c \<noteq> 0 \<or> tcp_mode c \<noteq> tcp_receiving_ready
       then Inr (False, w)
       else check (tcp_uv_ok w)
         (Inr (True, (set_conn (c\<lparr>header_len := min_len, size2 := max_len,
             buf2 := replicate max_len 0, tcp_mode := tcp_receiving_recv_by_seq\<rparr>) w)
           \<lparr>conn_reading := Some Tcp_cb2\<rparr>)))"

definition tcp_bind ::
  "nat \<Rightarrow> nat \<Rightarrow> bool \<Rightarrow> bool \<Rightarrow> 'q \<Rightarrow> 'q tcp_world \<Rightarrow> (bool \<times> 'q tcp_world) res" where
  "tcp_bind min_len max_len lener getter q0 w =
     with_conn w (\<lambda>c.
       if \<not> getter \<or> tcp_seqer c \<noteq> None then Inr (False, w)
       else bind_inner min_len max_len lener
         (set_conn (c\<lparr>tcp_seqer := Some \<lparr>seq_mapping = [], cur_seq = q0\<rparr>\<rparr>) w))"

text \<open>The peer's address; what the library answers (address and size) is an argument.\<close>

definition tcp_peer_type :: "(sockaddr \<times> nat) option \<Rightarrow> 'q tcp_world \<Rightarrow> u16 res" where
  "tcp_peer_type peername w =
     with_conn w (\<lambda>c. check (established c)
       (case peername of
          None \<Rightarrow> Inl Check_failed
        | Some (a, n) \<Rightarrow> check (n \<ge> 2) (Inr (sa_family a))))"

definition tcp_peer_addr_ipv4 :: "(sockaddr \<times> nat) option \<Rightarrow> 'q tcp_world \<Rightarrow> sockaddr res" where
  "tcp_peer_addr_ipv4 peername w =
     with_conn w (\<lambda>c. check (established c)
       (case peername of
          None \<Rightarrow> Inl Check_failed
        | Some (a, n) \<Rightarrow> check (n = sockaddr_in_len + 2 \<and> sa_family a = AF_INET)
            (Inr (sockaddr_in_outof_sockaddr_in6 a))))"

definition tcp_peer_addr_ipv6 :: "(sockaddr \<times> nat) option \<Rightarrow> 'q tcp_world \<Rightarrow> sockaddr res" where
  "tcp_peer_addr_ipv6 peername w =
     with_conn w (\<lambda>c. check (established c)
       (case peername of
          None \<Rightarrow> Inl Check_failed
        | Some (a, n) \<Rightarrow> check (n = sockaddr_in6_len + 2 \<and> sa_family a = AF_INET6) (Inr a)))"

definition tcp_count_unrecv :: "'q tcp_world \<Rightarrow> u64 res" where
  "tcp_count_unrecv w = with_conn w (\<lambda>c. Inr (tcp_c_unrecv c))"

definition tcp_count_failed :: "'q tcp_world \<Rightarrow> u64 res" where
  "tcp_count_failed w = with_conn w (\<lambda>c. Inr (tcp_c_failed c))"

definition tcp_internal_buffer :: "'q tcp_world \<Rightarrow> u8 list res" where
  "tcp_internal_buffer w =
     with_conn w (\<lambda>c. check (tcp_mode c = tcp_receiving_recv_by_seq) (Inr (take (len2 c) (buf2 c))))"

text \<open>The destructor also frees the buffers and the sequencer with the receivers in it.\<close>

definition tcp_destroy :: "'q tcp_world \<Rightarrow> 'q tcp_world res" where
  "tcp_destroy w =
     with_conn w (\<lambda>c. check (tcp_mode c \<noteq> tcp_receiving_ready \<longrightarrow> tcp_uv_ok w)
       (Inr (w\<lparr>conn := None, conn_reading := None, async_sent := False\<rparr>)))"

section \<open>Tasks up to the switch\<close>

definition uv_buf_size :: "nat \<Rightarrow> nat" where
  "uv_buf_size n = n mod 2 ^ 32"

text \<open>\<open>recv\<close>: the constructor and \<open>run\<close>; \<open>cancel\<close>.\<close>

definition new_tcp_recv :: "tid \<Rightarrow> u8 list option \<Rightarrow> nat \<Rightarrow> 'q tcp_world \<Rightarrow> 'q tcp_world res" where
  "new_tcp_recv t b n w = Inr (set_tcp_recv t \<lparr>recv_ret = unfinished, recv_buf = b, recv_len = n\<rparr> w)"

definition read_start :: "tcp_callbacks \<Rightarrow> 'q tcp_world \<Rightarrow> 'q tcp_world res" where
  "read_start cb w = check (tcp_uv_ok w) (Inr (w\<lparr>conn_reading := Some cb\<rparr>))"

definition read_stop :: "'q tcp_world \<Rightarrow> 'q tcp_world res" where
  "read_stop w =
     with_conn w (\<lambda>c. check (tcp_uv_ok w)
       (Inr ((set_conn (c\<lparr>tcp_mode := tcp_receiving_ready\<rparr>) w)\<lparr>conn_reading := None\<rparr>)))"

definition tcp_recv_run :: "tid \<Rightarrow> 'q tcp_world \<Rightarrow> 'q tcp_world res" where
  "tcp_recv_run t w =
     with_conn w (\<lambda>c. check (\<not> broken c) (check (tcp_mode c \<noteq> tcp_receiving_recv_till)
       (res_bind
         (if tcp_mode c = tcp_receiving_ready
          then read_start Tcp_cb0 (set_conn (c\<lparr>tcp_mode := tcp_receiving_recv\<rparr>) w)
          else Inr w)
         (\<lambda>w. with_conn w (\<lambda>c. Inr (set_conn (c\<lparr>recv_queue0 := recv_queue0 c @ [t]\<rparr>) w))))))"

definition tcp_recv_cancel :: "tid \<Rightarrow> 'q tcp_world \<Rightarrow> 'q tcp_world res" where
  "tcp_recv_cancel t w =
     with_conn w (\<lambda>c.
       if t \<notin> set (recv_queue0 c) then Inl Use_after_free
       else
         (let c = c\<lparr>recv_queue0 := remove1 t (recv_queue0 c)\<rparr>;
              w = (set_conn c w)\<lparr>iter_dead := iter_dead w \<or> iter0 w = Some t\<rparr>
          in if tcp_mode c = tcp_receiving_recv \<and> recv_queue0 c = [] then read_stop w else Inr w))"

text \<open>
  \<open>recv_till\<close>: the constructors. A task object is constructed once, so its address is not that
  of a waiting one.
\<close>

definition new_till ::
  "tid \<Rightarrow> u8 list option \<Rightarrow> nat \<Rightarrow> u8 list option \<Rightarrow> 'q tcp_world \<Rightarrow> 'q tcp_world res" where
  "new_till t b n pat w =
     (case b of
        None \<Rightarrow> Inl Check_failed
      | Some b \<Rightarrow> check (n > 0 \<and> pat \<noteq> Some [])
          (Inr (set_till t \<lparr>till_ret = unfinished, till_buf = b, user_len = n, pattern = pat, cur = 0,
             left = n\<rparr> w)))"

text \<open>\<open>remaining\<close> on the connection's buffer.\<close>

definition till_remaining :: "tid \<Rightarrow> 'q tcp_world \<Rightarrow> (bool \<times> 'q tcp_world) res" where
  "till_remaining t w =
     with_till w t (\<lambda>r. with_conn w (\<lambda>c.
       res_bind (remaining r (in1 c)) (\<lambda>(done, r, b).
         Inr (done, set_till t r (set_conn (c\<lparr>in1 := b\<rparr>) w)))))"

definition set_till_ret :: "tid \<Rightarrow> int \<Rightarrow> 'q tcp_world \<Rightarrow> 'q tcp_world" where
  "set_till_ret t e w =
     (case tills w t of Some r \<Rightarrow> set_till t (r\<lparr>till_ret := e\<rparr>) w | None \<Rightarrow> w)"

text \<open>\<open>recv_till::run\<close>: \<open>True\<close> when it returns without waiting.\<close>

definition till_run :: "tid \<Rightarrow> 'q tcp_world \<Rightarrow> (bool \<times> 'q tcp_world) res" where
  "till_run t w =
     with_conn w (\<lambda>c. check (\<not> broken c)
       (res_bind
         (if len1 (in1 c) \<noteq> 0 \<and> recv_queue1 c = [] then till_remaining t w else Inr (False, w))
         (\<lambda>(done, w).
           if done then Inr (True, set_till_ret t success w)
           else
             with_conn w (\<lambda>c.
               check (tcp_mode c = tcp_receiving_ready \<or> tcp_mode c = tcp_receiving_recv_till)
                 (res_bind
                   (if tcp_mode c = tcp_receiving_ready
                    then read_start Tcp_cb1
                      (set_conn (c\<lparr>tcp_mode := tcp_receiving_recv_till, async_cancel1 := True\<rparr>) w)
                    else Inr w)
                   (\<lambda>w. with_conn w (\<lambda>c.
                      Inr (False, set_conn (c\<lparr>recv_queue1 := recv_queue1 c @ [t]\<rparr>) w))))))))"

text \<open>
  \<open>recv_till::cancel\<close>: the bytes the user's buffer holds go back behind those in \<open>buf1\<close>, and the
  callback \<open>tcp_fallback_cb1\<close> is asked for.
\<close>

definition fall_back :: "u8 list \<Rightarrow> inbuf \<Rightarrow> inbuf" where
  "fall_back bytes b =
     (let n = length bytes;
          b = (if n > length (buf1 b) - len1 b
               then b\<lparr>buf1 := blit (replicate (length (buf1 b) + (len1 b + n)) 0) 0
                  (take (len1 b) (buf1 b))\<rparr>
               else b)
      in b\<lparr>buf1 := blit (buf1 b) (len1 b) bytes, len1 := len1 b + n\<rparr>)"

definition till_cancel :: "tid \<Rightarrow> 'q tcp_world \<Rightarrow> 'q tcp_world res" where
  "till_cancel t w =
     with_conn w (\<lambda>c. with_till w t (\<lambda>r.
       if t \<notin> set (recv_queue1 c) then Inl Use_after_free
       else
         (let c = c\<lparr>recv_queue1 := remove1 t (recv_queue1 c)\<rparr>;
              c = (if cur r \<noteq> 0 then c\<lparr>in1 := fall_back (take (cur r) (till_buf r)) (in1 c)\<rparr> else c)
          in check (tcp_uv_ok w)
               (Inr ((set_conn c w)
                 \<lparr>iter_dead := iter_dead w \<or> iter1 w = Some t, async_sent := True\<rparr>)))))"

text \<open>\<open>recv_by_seq\<close>.\<close>

text \<open>
  The constructor compares the type of the sequence with that of the connection's sequencer, unless
  the connection's address is \<open>known\<close> from an earlier receiver.
\<close>

definition new_tcp_seq ::
  "bool \<Rightarrow> bool \<Rightarrow> tid \<Rightarrow> u8 list option \<Rightarrow> nat \<Rightarrow> 'q tcp_world \<Rightarrow> 'q tcp_world res" where
  "new_tcp_seq known same_type t b n w =
     with_conn w (\<lambda>c.
       if known then new_tcp_recv t b n w
       else
         (case tcp_seqer c of
            None \<Rightarrow> Inl Null_pointer
          | Some _ \<Rightarrow>
              if same_type then new_tcp_recv t b n w
              else Inl (Fatal ''Check seq type failed in tcp::recv_by_seq<SeqType>'')))"

definition tcp_seq_run :: "('q \<Rightarrow> 'q \<Rightarrow> bool) \<Rightarrow> tid \<Rightarrow> 'q \<Rightarrow> 'q tcp_world \<Rightarrow> 'q tcp_world res" where
  "tcp_seq_run lt t q w =
     with_conn w (\<lambda>c. check (\<not> broken c) (check (tcp_mode c = tcp_receiving_recv_by_seq)
       (case tcp_seqer c of
          None \<Rightarrow> Inl Null_pointer
        | Some s \<Rightarrow> Inr (set_conn (c\<lparr>tcp_seqer := Some (seqer_insert lt q t s)\<rparr>) w))))"

definition tcp_seq_cancel :: "('q \<Rightarrow> 'q \<Rightarrow> bool) \<Rightarrow> 'q \<Rightarrow> 'q tcp_world \<Rightarrow> 'q tcp_world res" where
  "tcp_seq_cancel lt q w =
     with_conn w (\<lambda>c.
       case tcp_seqer c of
         None \<Rightarrow> Inl Null_pointer
       | Some s \<Rightarrow> Inr ((set_conn (c\<lparr>tcp_seqer := Some (seqer_erase lt q s)\<rparr>) w)
           \<lparr>iter_dead := iter_dead w \<or> (case iter2 w of None \<Rightarrow> False | Some k \<Rightarrow> equiv_key lt k q)\<rparr>))"

text \<open>\<open>connect\<close>: the constructors, \<open>run\<close> and \<open>cancel\<close>.\<close>

definition connect_ctor :: "u16 \<Rightarrow> tid \<Rightarrow> sockaddr \<Rightarrow> 'q tcp_world \<Rightarrow> 'q tcp_world res" where
  "connect_ctor family t a w =
     check (sa_family a = family) (Inr (w\<lparr>rets := (rets w)(t := unfinished)\<rparr>))"

definition connect_run :: "tid \<Rightarrow> 'q tcp_world \<Rightarrow> 'q tcp_world res" where
  "connect_run t w =
     with_conn w (\<lambda>c. check (\<not> broken c) (check (tcp_uv_ok w)
       (Inr (w\<lparr>connect_req := (connect_req w)(t := True)\<rparr>))))"

definition connect_cancel :: "tid \<Rightarrow> 'q tcp_world \<Rightarrow> 'q tcp_world res" where
  "connect_cancel t w =
     with_conn w (\<lambda>c. Inr ((set_conn (c\<lparr>broken := True\<rparr>) w)\<lparr>connect_req := (connect_req w)(t := False)\<rparr>))"

text \<open>\<open>send\<close>: the four constructors take one to four blocks; the task can not be interrupted.\<close>

definition tcp_send_ctor :: "tid \<Rightarrow> (u8 list option \<times> nat) list \<Rightarrow> 'q tcp_world \<Rightarrow> (u8 list list \<times> 'q tcp_world) res" where
  "tcp_send_ctor t bufs w =
     check (\<forall>(b, n) \<in> set bufs. b \<noteq> None \<and> n > 0)
       (with_conn w (\<lambda>c. check (established c)
         (Inr (map (\<lambda>(b, n). case b of Some b \<Rightarrow> take (uv_buf_size n) b | None \<Rightarrow> []) bufs,
            w\<lparr>rets := (rets w)(t := unfinished)\<rparr>))))"

definition tcp_send_run :: "u8 list list \<Rightarrow> 'q tcp_world \<Rightarrow> 'q tcp_world res" where
  "tcp_send_run bufs w =
     with_conn w (\<lambda>c. check (\<not> broken c) (check (tcp_uv_ok w)
       (Inr (w\<lparr>written := written w @ [concat bufs]\<rparr>))))"

definition tcp_send_cancel :: "'q tcp_world \<Rightarrow> 'q tcp_world res" where
  "tcp_send_cancel w = Inl Check_failed"

section \<open>User code\<close>

text \<open>What user code may do with the connection while it runs; \<open>Till\<close> constructs the task and runs it.\<close>

datatype 'q tcp_op =
    Tcp_recv tid "u8 list option" nat
  | Tcp_recv_cancel tid
  | Till tid "u8 list" nat "u8 list option"
  | Till_cancel tid
  | Tcp_seq tid "u8 list option" nat 'q
  | Tcp_seq_cancel 'q
  | Connect_cancel tid
  | Tcp_destroy

definition still_waiting :: "tid \<Rightarrow> 'q tcp_world \<Rightarrow> bool" where
  "still_waiting t w =
     (case conn w of None \<Rightarrow> False | Some c \<Rightarrow> t \<in> set (recv_queue0 c) \<or> t \<in> set (recv_queue1 c))"

fun do_tcp :: "('q \<Rightarrow> 'q \<Rightarrow> bool) \<Rightarrow> 'q tcp_op \<Rightarrow> 'q tcp_world \<Rightarrow> 'q tcp_world res" where
  "do_tcp lt (Tcp_recv t b n) w =
     (if still_waiting t w then Inl Use_after_free
      else res_bind (new_tcp_recv t b n w) (tcp_recv_run t))"
| "do_tcp lt (Tcp_recv_cancel t) w = tcp_recv_cancel t w"
| "do_tcp lt (Till t b n pat) w =
     (if still_waiting t w then Inl Use_after_free
      else res_bind (new_till t (Some b) n pat w) (\<lambda>w. res_bind (till_run t w) (\<lambda>(_, w). Inr w)))"
| "do_tcp lt (Till_cancel t) w = till_cancel t w"
| "do_tcp lt (Tcp_seq t b n q) w =
     (if still_waiting t w then Inl Use_after_free
      else res_bind (new_tcp_recv t b n w) (tcp_seq_run lt t q))"
| "do_tcp lt (Tcp_seq_cancel q) w = tcp_seq_cancel lt q w"
| "do_tcp lt (Connect_cancel t) w = connect_cancel t w"
| "do_tcp lt Tcp_destroy w = tcp_destroy w"

fun do_tcps :: "('q \<Rightarrow> 'q \<Rightarrow> bool) \<Rightarrow> 'q tcp_op list \<Rightarrow> 'q tcp_world \<Rightarrow> 'q tcp_world res" where
  "do_tcps lt [] w = Inr w"
| "do_tcps lt (p # ps) w = res_bind (do_tcp lt p w) (do_tcps lt ps)"

type_synonym 'q tcp_reaction = "tid \<Rightarrow> 'q tcp_world \<Rightarrow> 'q tcp_op list"

text \<open>\<open>__task_stand\<close>, with the result just stored for the task.\<close>

definition tcp_stand ::
  "('q \<Rightarrow> 'q \<Rightarrow> bool) \<Rightarrow> 'q tcp_reaction \<Rightarrow> tid \<Rightarrow> int \<Rightarrow> 'q tcp_world \<Rightarrow> 'q tcp_world res" where
  "tcp_stand lt react t e w =
     (let w = w\<lparr>continued := continued w @ [(t, e)]\<rparr> in do_tcps lt (react t w) w)"

section \<open>Breaking off\<close>

text \<open>\<open>break_all_recv\<close>: every waiting task is continued with an error, unless one destroys the connection.\<close>

definition first_of :: "'a list \<Rightarrow> 'a option" where
  "first_of ts = (case ts of [] \<Rightarrow> None | t # _ \<Rightarrow> Some t)"

fun next_of :: "tid \<Rightarrow> tid list \<Rightarrow> tid option" where
  "next_of t [] = None"
| "next_of t (x # xs) = (if x = t then (case xs of [] \<Rightarrow> None | y # _ \<Rightarrow> Some y) else next_of t xs)"

definition set_recv_ret :: "tid \<Rightarrow> int \<Rightarrow> 'q tcp_world \<Rightarrow> 'q tcp_world" where
  "set_recv_ret t e w =
     (case tcp_recvs w t of Some r \<Rightarrow> set_tcp_recv t (r\<lparr>recv_ret := e\<rparr>) w | None \<Rightarrow> w)"

fun break_queue0 ::
  "nat \<Rightarrow> ('q \<Rightarrow> 'q \<Rightarrow> bool) \<Rightarrow> 'q tcp_reaction \<Rightarrow> int \<Rightarrow> 'q tcp_world \<Rightarrow> 'q tcp_world res" where
  "break_queue0 fuel lt react e w =
     (case iter0 w of
        None \<Rightarrow> Inr w
      | Some t \<Rightarrow>
          (case fuel of
             0 \<Rightarrow> Inl Diverges
           | Suc fuel \<Rightarrow>
               with_conn w (\<lambda>c.
                 res_bind
                   (tcp_stand lt react t e ((set_conn (c\<lparr>recv_queue0 := remove1 t (recv_queue0 c)\<rparr>)
                      (set_recv_ret t e w))\<lparr>iter0 := next_of t (recv_queue0 c)\<rparr>))
                   (\<lambda>w. if conn w = None then Inr w
                        else if iter_dead w then Inl Use_after_free
                        else break_queue0 fuel lt react e w))))"

fun break_queue1 ::
  "nat \<Rightarrow> ('q \<Rightarrow> 'q \<Rightarrow> bool) \<Rightarrow> 'q tcp_reaction \<Rightarrow> int \<Rightarrow> 'q tcp_world \<Rightarrow> 'q tcp_world res" where
  "break_queue1 fuel lt react e w =
     (case iter1 w of
        None \<Rightarrow> Inr w
      | Some t \<Rightarrow>
          (case fuel of
             0 \<Rightarrow> Inl Diverges
           | Suc fuel \<Rightarrow>
               with_conn w (\<lambda>c.
                 res_bind
                   (tcp_stand lt react t e ((set_conn (c\<lparr>recv_queue1 := remove1 t (recv_queue1 c)\<rparr>)
                      (set_till_ret t e w))\<lparr>iter1 := next_of t (recv_queue1 c)\<rparr>))
                   (\<lambda>w. if conn w = None then Inr w
                        else if iter_dead w then Inl Use_after_free
                        else break_queue1 fuel lt react e w))))"

declare break_queue0.simps [simp del] break_queue1.simps [simp del]

text \<open>\<open>seqer_wrapper::drop_all\<close> with \<open>break_all_recv_by_seq\<close>: the map's elements in order.\<close>

fun drop_all ::
  "nat \<Rightarrow> ('q \<Rightarrow> 'q \<Rightarrow> bool) \<Rightarrow> 'q tcp_reaction \<Rightarrow> int \<Rightarrow> 'q tcp_world \<Rightarrow> 'q tcp_world res" where
  "drop_all fuel lt react e w =
     (case iter2 w of
        None \<Rightarrow> Inr w
      | Some q \<Rightarrow>
          with_conn w (\<lambda>c.
            case tcp_seqer c of
              None \<Rightarrow> Inl Null_pointer
            | Some s \<Rightarrow>
                (case dropWhile (\<lambda>(k, _). lt k q) (seq_mapping s) of
                   [] \<Rightarrow> Inr w
                 | (k, t) # m \<Rightarrow>
                     (case fuel of
                        0 \<Rightarrow> Inl Diverges
                      | Suc fuel \<Rightarrow>
                          res_bind
                            (tcp_stand lt react t e
                              ((set_conn (c\<lparr>tcp_seqer := Some (s\<lparr>seq_mapping :=
                                  takeWhile (\<lambda>(k, _). lt k q) (seq_mapping s) @ m\<rparr>)\<rparr>) (set_recv_ret t e w))
                                \<lparr>iter2 := map_option fst (first_of m)\<rparr>))
                            (\<lambda>w. if conn w = None then Inr w
                                 else if iter_dead w then Inl Use_after_free
                                 else drop_all fuel lt react e w)))))"

declare drop_all.simps [simp del]

text \<open>The loops need no more rounds than there were waiting tasks when they began.\<close>

definition break_all_recv ::
  "('q \<Rightarrow> 'q \<Rightarrow> bool) \<Rightarrow> 'q tcp_reaction \<Rightarrow> int \<Rightarrow> 'q tcp_world \<Rightarrow> 'q tcp_world res" where
  "break_all_recv lt react e w =
     with_conn w (\<lambda>c.
       res_bind (break_queue0 (length (recv_queue0 c)) lt react e
           (w\<lparr>iter0 := first_of (recv_queue0 c), iter_dead := False\<rparr>)) (\<lambda>w.
       case conn w of
         None \<Rightarrow> Inr w
       | Some c \<Rightarrow>
           res_bind (break_queue1 (length (recv_queue1 c)) lt react e
               (w\<lparr>iter0 := None, iter1 := first_of (recv_queue1 c), iter_dead := False\<rparr>)) (\<lambda>w.
           case conn w of
             None \<Rightarrow> Inr w
           | Some c \<Rightarrow>
               (case tcp_seqer c of
                  None \<Rightarrow> Inl Null_pointer
                | Some s \<Rightarrow>
                    res_bind (drop_all (length (seq_mapping s)) lt react e
                      (w\<lparr>iter1 := None, iter2 := map_option fst (first_of (seq_mapping s)), iter_dead := False\<rparr>))
                      (\<lambda>w. Inr (w\<lparr>iter2 := None\<rparr>))))))"

section \<open>Callbacks of the event library\<close>

datatype connect_status = Connect_ok | Connect_canceled | Connect_failed

definition tcp_connect_cb ::
  "('q \<Rightarrow> 'q \<Rightarrow> bool) \<Rightarrow> 'q tcp_reaction \<Rightarrow> tid \<Rightarrow> connect_status \<Rightarrow> 'q tcp_world \<Rightarrow> 'q tcp_world res" where
  "tcp_connect_cb lt react t st w =
     (if \<not> connect_req w t \<or> st = Connect_canceled then Inr w
      else
        with_conn w (\<lambda>c.
          res_bind
            (if st = Connect_ok
             then check (\<not> established c)
               (Inr ((set_conn (c\<lparr>established := True\<rparr>) w)\<lparr>rets := (rets w)(t := success)\<rparr>))
             else Inr ((set_conn (c\<lparr>broken := True\<rparr>) w)\<lparr>rets := (rets w)(t := failure)\<rparr>))
            (\<lambda>w. tcp_stand lt react t (rets w t) w)))"

definition tcp_send_cb ::
  "('q \<Rightarrow> 'q \<Rightarrow> bool) \<Rightarrow> 'q tcp_reaction \<Rightarrow> tid \<Rightarrow> connect_status \<Rightarrow> 'q tcp_world \<Rightarrow> 'q tcp_world res" where
  "tcp_send_cb lt react t st w =
     (if st = Connect_canceled then Inr w
      else
        with_conn w (\<lambda>c.
          let w = (if st = Connect_ok then w\<lparr>rets := (rets w)(t := success)\<rparr>
                   else (set_conn (c\<lparr>broken := True\<rparr>) w)\<lparr>rets := (rets w)(t := failure)\<rparr>)
          in tcp_stand lt react t (rets w t) w))"

text \<open>Where received bytes go.\<close>

datatype tcp_dest = In_recv tid | In_till tid nat | In_buf1 nat | In_buf2 nat

definition tcp_alloc_cb0 :: "'q tcp_world \<Rightarrow> (tcp_dest \<times> nat \<times> 'q tcp_world) res" where
  "tcp_alloc_cb0 w =
     with_conn w (\<lambda>c. check (cur_alloc0 c = None)
       (case recv_queue0 c of
          [] \<Rightarrow> Inl Check_failed
        | t # ts \<Rightarrow>
            with_tcp_recv w t (\<lambda>r. check (recv_buf r \<noteq> None \<and> recv_len r > 0)
              (Inr (In_recv t, uv_buf_size (recv_len r),
                 set_conn (c\<lparr>cur_alloc0 := Some t, recv_queue0 := ts\<rparr>) w)))))"

definition tcp_recv_cb0 ::
  "('q \<Rightarrow> 'q \<Rightarrow> bool) \<Rightarrow> 'q tcp_reaction \<Rightarrow> int \<Rightarrow> 'q tcp_world \<Rightarrow> 'q tcp_world res" where
  "tcp_recv_cb0 lt react nread w =
     with_conn w (\<lambda>c. case cur_alloc0 c of
         None \<Rightarrow> Inl Check_failed
       | Some t \<Rightarrow>
           if nread < 0 then
             res_bind
               (tcp_stand lt react t failure
                 (set_conn (c\<lparr>broken := True, cur_alloc0 := None\<rparr>) (set_recv_ret t failure w)))
               (\<lambda>w. if conn w = None then Inr w else break_all_recv lt react failure w)
           else if nread = 0 then
             Inr (set_conn (c\<lparr>recv_queue0 := t # recv_queue0 c, cur_alloc0 := None\<rparr>) w)
           else
             with_tcp_recv w t (\<lambda>r.
               res_bind
                 (tcp_stand lt react t success
                   (set_conn (c\<lparr>cur_alloc0 := None\<rparr>)
                     (set_tcp_recv t (r\<lparr>recv_len := nat nread, recv_ret := success\<rparr>) w)))
                 (\<lambda>w. case conn w of
                    None \<Rightarrow> Inr w
                  | Some c \<Rightarrow> if recv_queue0 c = [] then read_stop w else Inr w)))"

definition tcp_alloc_cb1 :: "'q tcp_world \<Rightarrow> (tcp_dest \<times> nat \<times> 'q tcp_world) res" where
  "tcp_alloc_cb1 w =
     with_conn w (\<lambda>c. check (cur_alloc1 c = None)
       (case recv_queue1 c of
          [] \<Rightarrow> Inl Check_failed
        | t # ts \<Rightarrow>
            (let c = c\<lparr>cur_alloc1 := Some t, recv_queue1 := ts\<rparr>
             in with_till w t (\<lambda>r.
                  if pattern r = None then
                    check (len1 (in1 c) = 0) (Inr (In_till t (cur r), uv_buf_size (left r), set_conn c w))
                  else
                    (let c = (if buf1 (in1 c) = [] then c\<lparr>in1 := (in1 c)\<lparr>buf1 := replicate 1024 0\<rparr>\<rparr> else c)
                     in Inr (In_buf1 (len1 (in1 c)),
                          uv_buf_size (length (buf1 (in1 c)) - len1 (in1 c)), set_conn c w))))))"

text \<open>
  \<open>check_remaining\<close>: waiting requests are served from \<open>buf1\<close> until one must wait. The number of
  rounds is bounded by an argument. The handle is the socket's, whose \<open>data\<close> is cleared when the
  connection is destroyed, or the one of \<open>tcp_fallback_cb1\<close>, whose \<open>data\<close> is not.
\<close>

datatype handle_kind = Sock | Async

fun serve_waiting :: "handle_kind \<Rightarrow> nat \<Rightarrow> ('q \<Rightarrow> 'q \<Rightarrow> bool) \<Rightarrow> 'q tcp_reaction \<Rightarrow> 'q tcp_world \<Rightarrow> 'q tcp_world res" where
  "serve_waiting via fuel lt react w =
     with_conn w (\<lambda>c.
       case recv_queue1 c of
         [] \<Rightarrow> Inr w
       | t # _ \<Rightarrow>
           if len1 (in1 c) = 0 then Inr w
           else
             (case fuel of
                0 \<Rightarrow> Inl Diverges
              | Suc fuel \<Rightarrow>
                  res_bind (till_remaining t w) (\<lambda>(done, w).
                    if done then
                      with_conn w (\<lambda>c.
                        res_bind
                          (tcp_stand lt react t success
                            (set_conn (c\<lparr>recv_queue1 := tl (recv_queue1 c)\<rparr>) (set_till_ret t success w)))
                          (\<lambda>w. if via = Sock \<and> conn w = None then Inr w else serve_waiting via fuel lt react w))
                    else Inr w)))"

declare serve_waiting.simps [simp del]

definition check_remaining ::
  "handle_kind \<Rightarrow> nat \<Rightarrow> ('q \<Rightarrow> 'q \<Rightarrow> bool) \<Rightarrow> 'q tcp_reaction \<Rightarrow> 'q tcp_world \<Rightarrow> 'q tcp_world res" where
  "check_remaining via fuel lt react w =
     res_bind (serve_waiting via fuel lt react w) (\<lambda>w.
       case conn w of
         None \<Rightarrow> Inr w
       | Some c \<Rightarrow>
           if recv_queue1 c = []
           then res_bind (read_stop w) (\<lambda>w. with_conn w (\<lambda>c.
                  Inr ((set_conn (c\<lparr>async_cancel1 := False\<rparr>) w)\<lparr>async_sent := False\<rparr>)))
           else Inr w)"

definition requeue1 :: "tid \<Rightarrow> 'q tcp_world \<Rightarrow> 'q tcp_world res" where
  "requeue1 t w =
     with_conn w (\<lambda>c. Inr (set_conn (c\<lparr>recv_queue1 := t # recv_queue1 c, cur_alloc1 := None\<rparr>) w))"

definition complete1 ::
  "('q \<Rightarrow> 'q \<Rightarrow> bool) \<Rightarrow> 'q tcp_reaction \<Rightarrow> tid \<Rightarrow> 'q tcp_world \<Rightarrow> 'q tcp_world res" where
  "complete1 lt react t w =
     with_conn w (\<lambda>c. tcp_stand lt react t success
       (set_conn (c\<lparr>cur_alloc1 := None\<rparr>) (set_till_ret t success w)))"

definition tcp_recv_cb1 ::
  "nat \<Rightarrow> ('q \<Rightarrow> 'q \<Rightarrow> bool) \<Rightarrow> 'q tcp_reaction \<Rightarrow> int \<Rightarrow> 'q tcp_world \<Rightarrow> 'q tcp_world res" where
  "tcp_recv_cb1 fuel lt react nread w =
     with_conn w (\<lambda>c. case cur_alloc1 c of
         None \<Rightarrow> Inl Check_failed
       | Some t \<Rightarrow>
           if nread < 0 then
             res_bind
               (tcp_stand lt react t failure
                 (set_conn (c\<lparr>broken := True, cur_alloc1 := None\<rparr>) (set_till_ret t failure w)))
               (\<lambda>w. if conn w = None then Inr w else break_all_recv lt react failure w)
           else if nread = 0 then requeue1 t w
           else
             with_till w t (\<lambda>r.
               res_bind
                 (if pattern r = None then
                    check (nat nread \<le> left r)
                      (if nat nread = left r then complete1 lt react t w
                       else requeue1 t
                         (set_till t (r\<lparr>cur := cur r + nat nread, left := left r - nat nread\<rparr>) w))
                  else
                    check (nat nread \<le> length (buf1 (in1 c)) - len1 (in1 c))
                      (res_bind
                        (till_remaining t
                          (set_conn (c\<lparr>in1 := (in1 c)\<lparr>len1 := len1 (in1 c) + nat nread\<rparr>\<rparr>) w))
                        (\<lambda>(done, w). if done then complete1 lt react t w else requeue1 t w)))
                 (\<lambda>w. if conn w = None then Inr w else check_remaining Sock fuel lt react w)))"

definition tcp_fallback_cb1 ::
  "nat \<Rightarrow> ('q \<Rightarrow> 'q \<Rightarrow> bool) \<Rightarrow> 'q tcp_reaction \<Rightarrow> 'q tcp_world \<Rightarrow> 'q tcp_world res" where
  "tcp_fallback_cb1 fuel lt react w = check_remaining Async fuel lt react (w\<lparr>async_sent := False\<rparr>)"

definition tcp_alloc_cb2 :: "'q tcp_world \<Rightarrow> (tcp_dest \<times> nat \<times> 'q tcp_world) res" where
  "tcp_alloc_cb2 w =
     with_conn w (\<lambda>c.
       if len2 c < header_len c then Inr (In_buf2 (len2 c), uv_buf_size (header_len c - len2 c), w)
       else Inr (In_buf2 (len2 c),
         uv_buf_size (nat ((int (packet_len c) - int (len2 c)) mod 2 ^ 64)), w))"

text \<open>
  \<open>tcp_recv_cb2\<close>: a packet is complete. It goes to the receiver that waits for its sequence, else to
  the first plain receiver, else to the user's callbacks.
\<close>

definition tcp_give :: "tid \<Rightarrow> u8 list \<Rightarrow> 'q tcp_world \<Rightarrow> 'q tcp_world res" where
  "tcp_give t packet w =
     with_tcp_recv w t (\<lambda>r.
       case recv_buf r of
         Some b \<Rightarrow>
           (let n = (if recv_len r > length packet then length packet else recv_len r)
            in Inr (set_tcp_recv t
                 (r\<lparr>recv_len := n, recv_buf := Some (blit b 0 (take n packet)), recv_ret := success\<rparr>) w))
       | None \<Rightarrow> Inr (set_tcp_recv t (r\<lparr>recv_len := length packet, recv_ret := success\<rparr>) w))"

definition tcp_give_first ::
  "('q \<Rightarrow> 'q \<Rightarrow> bool) \<Rightarrow> 'q tcp_reaction \<Rightarrow> u8 list \<Rightarrow> 'q connected \<Rightarrow> 'q tcp_world \<Rightarrow> 'q tcp_world res" where
  "tcp_give_first lt react packet c w =
     (case recv_queue0 c of
        [] \<Rightarrow> Inl Out_of_bounds
      | t # ts \<Rightarrow>
          res_bind (tcp_give t packet (set_conn (c\<lparr>recv_queue0 := ts\<rparr>) w)) (tcp_stand lt react t success))"

definition deliver_packet ::
  "('q \<Rightarrow> 'q \<Rightarrow> bool) \<Rightarrow> 'q getter \<Rightarrow> 'q tcp_reaction \<Rightarrow> u8 list \<Rightarrow> 'q tcp_world \<Rightarrow> 'q tcp_world res" where
  "deliver_packet lt getter react packet w =
     with_conn w (\<lambda>c. case tcp_seqer c of
         None \<Rightarrow> Inl Null_pointer
       | Some s \<Rightarrow>
           (case unwrap lt getter packet s of (ret, rbs, s') \<Rightarrow>
              let c = c\<lparr>tcp_seqer := Some s'\<rparr>; w = set_conn c w
              in if ret \<ge> 0 then
                   (case rbs of
                      Some t \<Rightarrow> res_bind (tcp_give t packet w) (tcp_stand lt react t success)
                    | None \<Rightarrow>
                        if recv_queue0 c = [] then
                          Inr ((set_conn (c\<lparr>tcp_c_unrecv := tcp_c_unrecv c + 1\<rparr>) w)
                            \<lparr>told := told w @ [Tcp_unrecv packet (cur_seq s')]\<rparr>)
                        else tcp_give_first lt react packet c w)
                 else if recv_queue0 c = [] then
                   Inr ((set_conn (c\<lparr>tcp_c_failed := tcp_c_failed c + 1\<rparr>) w)
                     \<lparr>told := told w @ [Tcp_failed packet ret]\<rparr>)
                 else tcp_give_first lt react packet c w))"

definition break_off ::
  "('q \<Rightarrow> 'q \<Rightarrow> bool) \<Rightarrow> 'q tcp_reaction \<Rightarrow> int \<Rightarrow> 'q tcp_world \<Rightarrow> 'q tcp_world res" where
  "break_off lt react e w =
     with_conn w (\<lambda>c. break_all_recv lt react e (set_conn (c\<lparr>broken := True\<rparr>) w))"

definition tcp_recv_cb2 ::
  "('q \<Rightarrow> 'q \<Rightarrow> bool) \<Rightarrow> 'q getter \<Rightarrow> (u8 list \<Rightarrow> nat) \<Rightarrow> 'q tcp_reaction \<Rightarrow> int \<Rightarrow> 'q tcp_world
     \<Rightarrow> 'q tcp_world res" where
  "tcp_recv_cb2 lt getter lener react nread w =
     (if nread = 0 then Inr w
      else if nread < 0 then break_off lt react failure w
      else
        with_conn w (\<lambda>c.
          let c = c\<lparr>len2 := len2 c + nat nread\<rparr>;
              header = (packet_len c = 0 \<and> len2 c = header_len c);
              c = (if header then c\<lparr>packet_len := lener (take (len2 c) (buf2 c))\<rparr> else c);
              w = set_conn c w
          in if header \<and> packet_len c < header_len c
             then break_off lt react packet_length_too_short w
             else if header \<and> packet_len c > size2 c
             then break_off lt react packet_length_too_long w
             else if packet_len c \<noteq> 0 \<and> len2 c = packet_len c then
               res_bind (deliver_packet lt getter react (take (len2 c) (buf2 c)) w) (\<lambda>w.
                 case conn w of
                   None \<Rightarrow> Inr w
                 | Some c \<Rightarrow> Inr (set_conn (c\<lparr>len2 := 0, packet_len := 0\<rparr>) w))
             else Inr w))"

section \<open>Reading\<close>

text \<open>The library writes bytes into the block it was given.\<close>

definition tcp_fill :: "tcp_dest \<Rightarrow> u8 list \<Rightarrow> 'q tcp_world \<Rightarrow> 'q tcp_world res" where
  "tcp_fill d bytes w =
     (case d of
        In_recv t \<Rightarrow>
          with_tcp_recv w t (\<lambda>r. case recv_buf r of
              None \<Rightarrow> Inl Null_pointer
            | Some b \<Rightarrow>
                if length bytes \<le> length b
                then Inr (set_tcp_recv t (r\<lparr>recv_buf := Some (blit b 0 bytes)\<rparr>) w)
                else Inl Out_of_bounds)
      | In_till t n \<Rightarrow>
          with_till w t (\<lambda>r.
            if n + length bytes \<le> length (till_buf r)
            then Inr (set_till t (r\<lparr>till_buf := blit (till_buf r) n bytes\<rparr>) w)
            else Inl Out_of_bounds)
      | In_buf1 n \<Rightarrow>
          with_conn w (\<lambda>c.
            if n + length bytes \<le> length (buf1 (in1 c))
            then Inr (set_conn (c\<lparr>in1 := (in1 c)\<lparr>buf1 := blit (buf1 (in1 c)) n bytes\<rparr>\<rparr>) w)
            else Inl Out_of_bounds)
      | In_buf2 n \<Rightarrow>
          with_conn w (\<lambda>c.
            if n + length bytes \<le> length (buf2 c)
            then Inr (set_conn (c\<lparr>buf2 := blit (buf2 c) n bytes\<rparr>) w)
            else Inl Out_of_bounds))"

definition tcp_alloc_cb :: "tcp_callbacks \<Rightarrow> 'q tcp_world \<Rightarrow> (tcp_dest \<times> nat \<times> 'q tcp_world) res" where
  "tcp_alloc_cb cb w =
     (case cb of Tcp_cb0 \<Rightarrow> tcp_alloc_cb0 w | Tcp_cb1 \<Rightarrow> tcp_alloc_cb1 w | Tcp_cb2 \<Rightarrow> tcp_alloc_cb2 w)"

definition tcp_recv_cb ::
  "tcp_callbacks \<Rightarrow> nat \<Rightarrow> ('q \<Rightarrow> 'q \<Rightarrow> bool) \<Rightarrow> 'q getter \<Rightarrow> (u8 list \<Rightarrow> nat) \<Rightarrow> 'q tcp_reaction \<Rightarrow> int
     \<Rightarrow> 'q tcp_world \<Rightarrow> 'q tcp_world res" where
  "tcp_recv_cb cb fuel lt getter lener react nread w =
     (case cb of
        Tcp_cb0 \<Rightarrow> tcp_recv_cb0 lt react nread w
      | Tcp_cb1 \<Rightarrow> tcp_recv_cb1 fuel lt react nread w
      | Tcp_cb2 \<Rightarrow> tcp_recv_cb2 lt getter lener react nread w)"

text \<open>
  The stream \<open>s\<close> has arrived and the library makes a read of at most \<open>k\<close> bytes: it asks for a block,
  fills it, and calls back. The result is what is left of the stream. Nothing is read while the
  connection does not receive.
\<close>

definition tcp_read ::
  "nat \<Rightarrow> ('q \<Rightarrow> 'q \<Rightarrow> bool) \<Rightarrow> 'q getter \<Rightarrow> (u8 list \<Rightarrow> nat) \<Rightarrow> 'q tcp_reaction \<Rightarrow> nat \<Rightarrow>
     u8 list \<times> 'q tcp_world \<Rightarrow> (u8 list \<times> 'q tcp_world) res" where
  "tcp_read fuel lt getter lener react k sw =
     (case sw of (s, w) \<Rightarrow>
        case conn_reading w of
          None \<Rightarrow> Inr (s, w)
        | Some cb \<Rightarrow>
            res_bind (tcp_alloc_cb cb w) (\<lambda>(d, n, w).
              let bytes = take (min k n) s
              in res_bind (tcp_fill d bytes w) (\<lambda>w.
                 res_bind (tcp_recv_cb cb fuel lt getter lener react (int (length bytes)) w) (\<lambda>w.
                 Inr (drop (min k n) s, w)))))"

text \<open>A sequence of reads, each given by the number of bytes that have arrived.\<close>

fun tcp_reads ::
  "nat \<Rightarrow> ('q \<Rightarrow> 'q \<Rightarrow> bool) \<Rightarrow> 'q getter \<Rightarrow> (u8 list \<Rightarrow> nat) \<Rightarrow> 'q tcp_reaction \<Rightarrow> nat list \<Rightarrow>
     u8 list \<times> 'q tcp_world \<Rightarrow> (u8 list \<times> 'q tcp_world) res" where
  "tcp_reads fuel lt getter lener react [] sw = Inr sw"
| "tcp_reads fuel lt getter lener react (k # ks) sw =
     res_bind (tcp_read fuel lt getter lener react k sw) (tcp_reads fuel lt getter lener react ks)"

text \<open>The stream ends or breaks.\<close>

definition tcp_lost ::
  "nat \<Rightarrow> ('q \<Rightarrow> 'q \<Rightarrow> bool) \<Rightarrow> 'q getter \<Rightarrow> (u8 list \<Rightarrow> nat) \<Rightarrow> 'q tcp_reaction \<Rightarrow> 'q tcp_world
     \<Rightarrow> 'q tcp_world res" where
  "tcp_lost fuel lt getter lener react w =
     (case conn_reading w of
        None \<Rightarrow> Inr w
      | Some cb \<Rightarrow>
          res_bind (tcp_alloc_cb cb w) (\<lambda>(_, _, w). tcp_recv_cb cb fuel lt getter lener react (-1) w))"

end
