(* ===== verification/Tcp_Packets.thy ===== *)
theory Tcp_Packets
  imports Tcp
begin

text \<open>
  Packets on a TCP connection that receives by sequence: whatever pieces the stream arrives in, the
  packets are put together again and handled one by one; and what happens to the buffer when a
  peer announces a length that is not allowed.
\<close>

lemma with_conn_Inr: "with_conn w k = Inr x \<longleftrightarrow> (\<exists>c. conn w = Some c \<and> k c = Inr x)"
  by (auto simp: with_conn_def split: option.splits)

lemma with_tcp_recv_Inr: "with_tcp_recv w t k = Inr x \<longleftrightarrow> (\<exists>r. tcp_recvs w t = Some r \<and> k r = Inr x)"
  by (auto simp: with_tcp_recv_def split: option.splits)

lemma with_till_Inr: "with_till w t k = Inr x \<longleftrightarrow> (\<exists>r. tills w t = Some r \<and> k r = Inr x)"
  by (auto simp: with_till_def split: option.splits)

lemma with_conn_Some [simp]: "conn w = Some c \<Longrightarrow> with_conn w k = k c"
  by (simp add: with_conn_def)

lemma set_conn_fields [simp]:
  "conn (set_conn c w) = Some c" "conn_reading (set_conn c w) = conn_reading w"
  "tcp_uv_ok (set_conn c w) = tcp_uv_ok w" "tcp_recvs (set_conn c w) = tcp_recvs w"
  "tills (set_conn c w) = tills w" "continued (set_conn c w) = continued w"
  "told (set_conn c w) = told w" "iter0 (set_conn c w) = iter0 w" "iter1 (set_conn c w) = iter1 w"
  "iter2 (set_conn c w) = iter2 w" "iter_dead (set_conn c w) = iter_dead w"
  "async_sent (set_conn c w) = async_sent w" "set_conn c' (set_conn c w) = set_conn c' w"
  by (simp_all add: set_conn_def)

lemma set_conn_same [simp]: "conn w = Some c \<Longrightarrow> set_conn c w = w"
  by (simp add: set_conn_def)

lemma set_tcp_recv_fields [simp]:
  "conn (set_tcp_recv t r w) = conn w" "conn_reading (set_tcp_recv t r w) = conn_reading w"
  "tcp_uv_ok (set_tcp_recv t r w) = tcp_uv_ok w" "tills (set_tcp_recv t r w) = tills w"
  "iter0 (set_tcp_recv t r w) = iter0 w" "iter1 (set_tcp_recv t r w) = iter1 w"
  "iter2 (set_tcp_recv t r w) = iter2 w" "iter_dead (set_tcp_recv t r w) = iter_dead w"
  "tcp_recvs (set_tcp_recv t r w) = (tcp_recvs w)(t := Some r)"
  "continued (set_tcp_recv t r w) = continued w" "told (set_tcp_recv t r w) = told w"
  by (simp_all add: set_tcp_recv_def)

lemma set_till_fields [simp]:
  "conn (set_till t r w) = conn w" "conn_reading (set_till t r w) = conn_reading w"
  "tcp_uv_ok (set_till t r w) = tcp_uv_ok w" "tcp_recvs (set_till t r w) = tcp_recvs w"
  "tills (set_till t r w) = (tills w)(t := Some r)" "continued (set_till t r w) = continued w"
  "iter0 (set_till t r w) = iter0 w" "iter1 (set_till t r w) = iter1 w"
  "iter2 (set_till t r w) = iter2 w" "iter_dead (set_till t r w) = iter_dead w"
  "told (set_till t r w) = told w" "async_sent (set_till t r w) = async_sent w"
  by (simp_all add: set_till_def)

lemma set_ret_fields [simp]:
  "conn (set_till_ret t e w) = conn w" "conn_reading (set_till_ret t e w) = conn_reading w"
  "conn (set_recv_ret t e w) = conn w" "conn_reading (set_recv_ret t e w) = conn_reading w"
  "continued (set_till_ret t e w) = continued w" "continued (set_recv_ret t e w) = continued w"
  "iter_dead (set_till_ret t e w) = iter_dead w" "iter_dead (set_recv_ret t e w) = iter_dead w"
  by (simp_all add: set_till_ret_def set_recv_ret_def split: option.splits)

lemmas tcp_inr = with_conn_Inr with_tcp_recv_Inr with_till_Inr check_eq_Inr res_bind_eq_Inr

section \<open>What user code leaves alone\<close>

definition same_frame :: "'q connected \<Rightarrow> 'q connected \<Rightarrow> bool" where
  "same_frame c c' \<longleftrightarrow> tcp_mode c' = tcp_mode c \<and> buf2 c' = buf2 c \<and> size2 c' = size2 c \<and>
     len2 c' = len2 c \<and> header_len c' = header_len c \<and> packet_len c' = packet_len c"

definition frame_kept :: "'q tcp_world \<Rightarrow> 'q tcp_world \<Rightarrow> bool" where
  "frame_kept w w' \<longleftrightarrow> (case conn w' of
       None \<Rightarrow> conn_reading w' = None
     | Some c' \<Rightarrow> conn_reading w' = conn_reading w \<and> (\<exists>c. conn w = Some c \<and> same_frame c c'))"

lemma same_frame_refl [simp]: "same_frame c c"
  by (simp add: same_frame_def)

lemma same_frame_trans: "same_frame c c' \<Longrightarrow> same_frame c' c'' \<Longrightarrow> same_frame c c''"
  by (simp add: same_frame_def)

lemma frame_keptI:
  "conn w = Some c \<Longrightarrow> conn w' = Some c' \<Longrightarrow> conn_reading w' = conn_reading w \<Longrightarrow> same_frame c c'
     \<Longrightarrow> frame_kept w w'"
  by (simp add: frame_kept_def)

lemma frame_kept_trans: "frame_kept w w' \<Longrightarrow> frame_kept w' w'' \<Longrightarrow> frame_kept w w''"
  by (auto simp: frame_kept_def split: option.splits dest: same_frame_trans)

lemma frame_kept_same:
  "conn w1 = conn w \<Longrightarrow> conn_reading w1 = conn_reading w \<Longrightarrow> frame_kept w1 w' \<Longrightarrow> frame_kept w w'"
  by (simp add: frame_kept_def split: option.splits)

lemma till_run_frame:
  assumes "till_run t w = Inr (d, w')" "conn w = Some c" "tcp_mode c = tcp_receiving_recv_by_seq"
  shows "frame_kept w w'"
proof -
  obtain fin w1 where w1: "(if len1 (in1 c) \<noteq> 0 \<and> recv_queue1 c = [] then till_remaining t w
      else Inr (False, w)) = Inr (fin, w1)" "\<not> broken c"
      "(if fin then Inr (True, set_till_ret t success w1) else
         with_conn w1 (\<lambda>c. check (tcp_mode c = tcp_receiving_ready \<or> tcp_mode c = tcp_receiving_recv_till)
           (res_bind (if tcp_mode c = tcp_receiving_ready then read_start Tcp_cb1
               (set_conn (c\<lparr>tcp_mode := tcp_receiving_recv_till, async_cancel1 := True\<rparr>) w1) else Inr w1)
             (\<lambda>w. with_conn w (\<lambda>c. Inr (False, set_conn (c\<lparr>recv_queue1 := recv_queue1 c @ [t]\<rparr>) w))))))
        = Inr (d, w')"
    using assms(1,2) by (auto simp: till_run_def tcp_inr)
  obtain b where c1: "conn w1 = Some (c\<lparr>in1 := b\<rparr>)" "conn_reading w1 = conn_reading w"
  proof (cases "len1 (in1 c) \<noteq> 0 \<and> recv_queue1 c = []")
    case True
    then show ?thesis
      using w1(1) assms(2) that by (auto simp: till_remaining_def tcp_inr)
  next
    case False
    then show ?thesis
      using w1(1) assms(2) that [of "in1 c"] by auto
  qed
  have "fin"
    using w1(3) c1(1) assms(3) by (auto split: if_splits)
  then show ?thesis
    using w1(3) c1 assms(2) by (auto intro!: frame_keptI simp: same_frame_def)
qed

lemma do_tcp_frame:
  assumes "do_tcp lt p w = Inr w'" "conn w = Some c" "tcp_mode c = tcp_receiving_recv_by_seq"
  shows "frame_kept w w'"
proof (cases p)
  case (Tcp_recv t b n)
  then show ?thesis
    using assms by (auto simp: new_tcp_recv_def tcp_recv_run_def tcp_inr frame_kept_def same_frame_def
        split: if_splits)
next
  case (Tcp_recv_cancel t)
  then show ?thesis
    using assms by (auto simp: tcp_recv_cancel_def frame_kept_def same_frame_def Let_def split: if_splits)
next
  case (Till t b n pat)
  then obtain w1 d where w1: "new_till t (Some b) n pat w = Inr w1" "till_run t w1 = Inr (d, w')"
    using assms(1) by (auto simp: tcp_inr split: if_splits)
  then have "conn w1 = conn w" "conn_reading w1 = conn_reading w"
    by (auto simp: new_till_def tcp_inr)
  then show ?thesis
    using till_run_frame [OF w1(2), of c] assms(2,3) by (auto intro: frame_kept_same)
next
  case (Till_cancel t)
  then show ?thesis
    using assms by (auto simp: till_cancel_def tcp_inr frame_kept_def same_frame_def Let_def split: if_splits)
next
  case (Tcp_seq t b n q)
  then show ?thesis
    using assms by (auto simp: new_tcp_recv_def tcp_seq_run_def tcp_inr frame_kept_def same_frame_def
        split: if_splits option.splits)
next
  case (Tcp_seq_cancel q)
  then show ?thesis
    using assms by (auto simp: tcp_seq_cancel_def frame_kept_def same_frame_def split: option.splits)
next
  case (Connect_cancel t)
  then show ?thesis
    using assms by (auto simp: connect_cancel_def frame_kept_def same_frame_def)
next
  case Tcp_destroy
  then show ?thesis
    using assms by (auto simp: tcp_destroy_def check_eq_Inr frame_kept_def)
qed

lemma do_tcp_destroyed: "conn w = None \<Longrightarrow> do_tcp lt p w \<noteq> Inr w'"
  by (cases p) (auto simp: tcp_inr new_tcp_recv_def tcp_recv_run_def tcp_recv_cancel_def new_till_def
      till_run_def till_cancel_def tcp_seq_run_def tcp_seq_cancel_def connect_cancel_def tcp_destroy_def)

lemma do_tcps_frame:
  "do_tcps lt ps w = Inr w' \<Longrightarrow> conn w = Some c \<Longrightarrow> tcp_mode c = tcp_receiving_recv_by_seq
     \<Longrightarrow> frame_kept w w'"
proof (induction ps arbitrary: w c)
  case Nil
  then show ?case
    by (simp add: frame_kept_def)
next
  case (Cons p ps)
  then obtain w1 where w1: "do_tcp lt p w = Inr w1" "do_tcps lt ps w1 = Inr w'"
    by (auto simp: res_bind_eq_Inr)
  have kept: "frame_kept w w1"
    using do_tcp_frame [OF w1(1) Cons.prems(2,3)] .
  show ?case
  proof (cases "conn w1")
    case None
    then show ?thesis
      using w1(2) kept do_tcp_destroyed [OF None] by (cases ps) (auto simp: res_bind_eq_Inr)
  next
    case (Some c1)
    then have "tcp_mode c1 = tcp_receiving_recv_by_seq"
      using kept Cons.prems(2,3) by (simp add: frame_kept_def same_frame_def)
    then show ?thesis
      using Cons.IH [OF w1(2) Some] kept frame_kept_trans by blast
  qed
qed

lemma tcp_stand_frame:
  assumes "tcp_stand lt react t e w = Inr w'" "conn w = Some c" "tcp_mode c = tcp_receiving_recv_by_seq"
  shows "frame_kept w w'"
proof (rule frame_kept_same [OF _ _ do_tcps_frame [of lt _ "w\<lparr>continued := continued w @ [(t, e)]\<rparr>" w' c]])
  show "do_tcps lt (react t (w\<lparr>continued := continued w @ [(t, e)]\<rparr>))
      (w\<lparr>continued := continued w @ [(t, e)]\<rparr>) = Inr w'"
    using assms(1) by (simp add: tcp_stand_def Let_def)
qed (use assms(2,3) in simp_all)

lemma tcp_give_eq:
  "tcp_give t packet w = Inr w' \<Longrightarrow> \<exists>r. w' = set_tcp_recv t r w"
  by (auto simp: tcp_give_def tcp_inr Let_def split: option.splits)

lemma given_frame:
  assumes "res_bind (tcp_give t packet w) (tcp_stand lt react t success) = Inr w'"
    and "conn w = Some c" "tcp_mode c = tcp_receiving_recv_by_seq"
  shows "frame_kept w w'"
proof -
  obtain r where "tcp_stand lt react t success (set_tcp_recv t r w) = Inr w'"
    using assms(1) tcp_give_eq by (fastforce simp: res_bind_eq_Inr)
  from frame_kept_same [OF _ _ tcp_stand_frame [OF this]] show ?thesis
    using assms(2,3) by simp
qed

text \<open>The three ways a packet can go.\<close>

lemma deliver_cases:
  assumes "conn w = Some c" "tcp_seqer c = Some s" "unwrap lt getter packet s = (ret, rbs, s')"
    and "c1 = c\<lparr>tcp_seqer := Some s'\<rparr>"
  shows "ret \<ge> 0 \<Longrightarrow> rbs = Some t \<Longrightarrow> deliver_packet lt getter react packet w =
      res_bind (tcp_give t packet (set_conn c1 w)) (tcp_stand lt react t success)"
    and "\<not> (ret \<ge> 0 \<and> rbs \<noteq> None) \<Longrightarrow> recv_queue0 c = [] \<Longrightarrow> deliver_packet lt getter react packet w =
      Inr (if ret \<ge> 0
        then (set_conn (c1\<lparr>tcp_c_unrecv := tcp_c_unrecv c + 1\<rparr>) w)
          \<lparr>told := told w @ [Tcp_unrecv packet (cur_seq s')]\<rparr>
        else (set_conn (c1\<lparr>tcp_c_failed := tcp_c_failed c + 1\<rparr>) w)
          \<lparr>told := told w @ [Tcp_failed packet ret]\<rparr>)"
    and "\<not> (ret \<ge> 0 \<and> rbs \<noteq> None) \<Longrightarrow> recv_queue0 c \<noteq> [] \<Longrightarrow> deliver_packet lt getter react packet w =
      tcp_give_first lt react packet c1 (set_conn c1 w)"
proof -
  note d = deliver_packet_def with_conn_Some [OF assms(1)] assms(2-4) Let_def
  show "ret \<ge> 0 \<Longrightarrow> rbs = Some t \<Longrightarrow> deliver_packet lt getter react packet w =
      res_bind (tcp_give t packet (set_conn c1 w)) (tcp_stand lt react t success)"
    by (simp add: d)
  show "\<not> (ret \<ge> 0 \<and> rbs \<noteq> None) \<Longrightarrow> recv_queue0 c = [] \<Longrightarrow> deliver_packet lt getter react packet w =
      Inr (if ret \<ge> 0
        then (set_conn (c1\<lparr>tcp_c_unrecv := tcp_c_unrecv c + 1\<rparr>) w)
          \<lparr>told := told w @ [Tcp_unrecv packet (cur_seq s')]\<rparr>
        else (set_conn (c1\<lparr>tcp_c_failed := tcp_c_failed c + 1\<rparr>) w)
          \<lparr>told := told w @ [Tcp_failed packet ret]\<rparr>)"
    by (cases rbs) (simp_all add: d)
  show "\<not> (ret \<ge> 0 \<and> rbs \<noteq> None) \<Longrightarrow> recv_queue0 c \<noteq> [] \<Longrightarrow> deliver_packet lt getter react packet w =
      tcp_give_first lt react packet c1 (set_conn c1 w)"
    by (cases rbs) (simp_all add: d)
qed

lemma deliver_frame:
  assumes "deliver_packet lt getter react packet w = Inr w'" "conn w = Some c"
    and "tcp_mode c = tcp_receiving_recv_by_seq"
  shows "frame_kept w w'"
proof -
  obtain s where s: "tcp_seqer c = Some s"
    using assms(1,2) by (cases "tcp_seqer c") (auto simp: deliver_packet_def)
  obtain ret rbs s' where u: "unwrap lt getter packet s = (ret, rbs, s')"
    by (rule prod_cases3)
  define c1 where "c1 = c\<lparr>tcp_seqer := Some s'\<rparr>"
  note d = deliver_cases [OF assms(2) s u c1_def]
  have c1: "same_frame c c1" "tcp_mode c1 = tcp_receiving_recv_by_seq" "recv_queue0 c1 = recv_queue0 c"
    using assms(3) by (simp_all add: same_frame_def c1_def)
  have kept: "frame_kept w w'" if "frame_kept (set_conn c2 w) w'" "same_frame c c2" for c2
    using frame_kept_trans [OF frame_keptI [OF assms(2), of "set_conn c2 w" c2]] that by simp
  consider t where "ret \<ge> 0" "rbs = Some t" | "\<not> (ret \<ge> 0 \<and> rbs \<noteq> None)" "recv_queue0 c = []"
    | t ts where "\<not> (ret \<ge> 0 \<and> rbs \<noteq> None)" "recv_queue0 c = t # ts"
    by (cases "recv_queue0 c"; cases rbs) auto
  then show ?thesis
  proof cases
    case 1
    then have "frame_kept (set_conn c1 w) w'"
      using given_frame [of t packet "set_conn c1 w" lt react w' c1] d(1) [of t] assms(1) c1(2) by simp
    then show ?thesis
      using kept c1(1) by blast
  next
    case 2
    then show ?thesis
      using d(2) assms(1,2) c1(1)
      by (auto simp: frame_kept_def same_frame_def split: if_splits)
  next
    case 3
    let ?c = "c1\<lparr>recv_queue0 := ts\<rparr>"
    have "frame_kept (set_conn ?c w) w'"
      using 3 d(3) assms(1) c1 given_frame [of t packet "set_conn ?c w" lt react w' ?c]
      by (simp add: tcp_give_first_def)
    then show ?thesis
      using kept c1(1) by (simp add: same_frame_def)
  qed
qed

section \<open>Whole packets\<close>

text \<open>A connection between two packets.\<close>

definition at_boundary :: "'q tcp_world \<Rightarrow> bool" where
  "at_boundary w \<longleftrightarrow> (case conn w of
       None \<Rightarrow> False
     | Some c \<Rightarrow> conn_reading w = Some Tcp_cb2 \<and> tcp_mode c = tcp_receiving_recv_by_seq \<and>
         len2 c = 0 \<and> packet_len c = 0 \<and> 0 < header_len c \<and> header_len c \<le> size2 c \<and>
         length (buf2 c) = size2 c \<and> size2 c < 2 ^ 32)"

text \<open>A packet the user's \<open>len_getter\<close> measures correctly and the connection has room for.\<close>

definition framed :: "(u8 list \<Rightarrow> nat) \<Rightarrow> nat \<Rightarrow> nat \<Rightarrow> u8 list \<Rightarrow> bool" where
  "framed lener h n p \<longleftrightarrow> h \<le> length p \<and> length p \<le> n \<and> lener (take h p) = length p"

text \<open>The state after the first \<open>j\<close> bytes of a packet.\<close>

definition part :: "u8 list \<Rightarrow> nat \<Rightarrow> 'q connected \<Rightarrow> 'q connected" where
  "part p j c = c\<lparr>buf2 := blit (buf2 c) 0 (take j p), len2 := j,
     packet_len := (if j < header_len c then 0 else length p)\<rparr>"

text \<open>The reference: a packet arrives in one piece and is handled.\<close>

definition packet_in ::
  "('q \<Rightarrow> 'q \<Rightarrow> bool) \<Rightarrow> 'q getter \<Rightarrow> 'q tcp_reaction \<Rightarrow> u8 list \<Rightarrow> 'q tcp_world \<Rightarrow> 'q tcp_world res" where
  "packet_in lt getter react p w =
     with_conn w (\<lambda>c.
       res_bind (deliver_packet lt getter react p (set_conn (part p (length p) c) w)) (\<lambda>w.
         case conn w of
           None \<Rightarrow> Inr w
         | Some c \<Rightarrow> Inr (set_conn (c\<lparr>len2 := 0, packet_len := 0\<rparr>) w)))"

fun packets_in ::
  "('q \<Rightarrow> 'q \<Rightarrow> bool) \<Rightarrow> 'q getter \<Rightarrow> 'q tcp_reaction \<Rightarrow> u8 list list \<Rightarrow> 'q tcp_world \<Rightarrow> 'q tcp_world res"
where
  "packets_in lt getter react [] w = Inr w"
| "packets_in lt getter react (p # ps) w =
     res_bind (packet_in lt getter react p w) (packets_in lt getter react ps)"

lemma packet_in_boundary:
  assumes "at_boundary w" "conn w = Some c" "framed lener (header_len c) (size2 c) p"
    and "packet_in lt getter react p w = Inr w'" "conn w' = Some c'"
  shows "at_boundary w'" "header_len c' = header_len c" "size2 c' = size2 c"
proof -
  let ?c = "part p (length p) c"
  obtain w1 c1 where w1: "deliver_packet lt getter react p (set_conn ?c w) = Inr w1" "conn w1 = Some c1"
      "w' = set_conn (c1\<lparr>len2 := 0, packet_len := 0\<rparr>) w1"
    using assms(2,4,5) by (auto simp: packet_in_def res_bind_eq_Inr split: option.splits)
  have "tcp_mode ?c = tcp_receiving_recv_by_seq"
    using assms(1,2) by (simp add: at_boundary_def part_def)
  from deliver_frame [OF w1(1) _ this] have "conn_reading w1 = conn_reading w" "same_frame ?c c1"
    using w1(2) by (simp_all add: frame_kept_def)
  then show "at_boundary w'" "header_len c' = header_len c" "size2 c' = size2 c"
    using assms(1-3,5) w1(3) by (auto simp: at_boundary_def same_frame_def part_def framed_def)
qed

lemma packet_in_destroyed:
  assumes "at_boundary w" "conn w = Some c" "packet_in lt getter react p w = Inr w'" "conn w' = None"
  shows "conn_reading w' = None"
proof -
  let ?c = "part p (length p) c"
  obtain w1 where w1: "deliver_packet lt getter react p (set_conn ?c w) = Inr w1" "conn w1 = None" "w' = w1"
    using assms(2-4) by (auto simp: packet_in_def res_bind_eq_Inr split: option.splits)
  have "tcp_mode ?c = tcp_receiving_recv_by_seq"
    using assms(1,2) by (simp add: at_boundary_def part_def)
  from deliver_frame [OF w1(1) _ this] show ?thesis
    using w1(2,3) by (simp add: frame_kept_def)
qed

text \<open>One read of a part of a packet.\<close>

definition room :: "u8 list \<Rightarrow> nat \<Rightarrow> 'q connected \<Rightarrow> nat" where
  "room p j c = (if j < header_len c then header_len c - j else length p - j)"

lemma recv_cb2_eq:
  assumes "conn w = Some c" "0 < m" "n = len2 c + m"
    and "header \<longleftrightarrow> packet_len c = 0 \<and> n = header_len c"
    and "l = (if header then lener (take n (buf2 c)) else packet_len c)"
    and "header \<Longrightarrow> header_len c \<le> l \<and> l \<le> size2 c"
  shows "tcp_recv_cb2 lt getter lener react (int m) w =
    (let w = set_conn (c\<lparr>len2 := n, packet_len := l\<rparr>) w
     in if l \<noteq> 0 \<and> n = l then
          res_bind (deliver_packet lt getter react (take n (buf2 c)) w) (\<lambda>w.
            case conn w of
              None \<Rightarrow> Inr w
            | Some c \<Rightarrow> Inr (set_conn (c\<lparr>len2 := 0, packet_len := 0\<rparr>) w))
        else Inr w)"
proof -
  have n: "len2 c + m = n" "m \<noteq> 0"
    using assms(2,3) by simp_all
  note d = tcp_recv_cb2_def with_conn_Some [OF assms(1)] Let_def n
  show ?thesis
  proof (cases header)
    case True
    then have "packet_len c = 0" "n = header_len c" "l = lener (take n (buf2 c))"
        "\<not> l < header_len c" "\<not> size2 c < l"
      using assms(4-6) by simp_all
    then show ?thesis
      by (simp add: d)
  next
    case False
    have l: "l = packet_len c"
      using False assms(5) by simp
    have c: "c\<lparr>len2 := n, packet_len := l\<rparr> = c\<lparr>len2 := n\<rparr>"
      unfolding l by (cases c) simp
    consider "packet_len c \<noteq> 0" | "n \<noteq> header_len c"
      using False assms(4) by auto
    then show ?thesis
      unfolding c l by cases (simp_all add: d)
  qed
qed

text \<open>
  The callback, when \<open>m\<close> further bytes of the packet are in the buffer: it notes them, reads the length
  when they complete the header, and delivers the packet when they complete it.
\<close>

lemma recv_cb2_part:
  assumes "at_boundary w" "conn w = Some c" "framed lener (header_len c) (size2 c) p"
    and m: "0 < m" "j + m \<le> length p" "j < header_len c \<Longrightarrow> j + m \<le> header_len c"
    and b: "b = blit (buf2 c) 0 (take (j + m) p)"
  shows "tcp_recv_cb Tcp_cb2 fuel lt getter lener react (int m) (set_conn ((part p j c)\<lparr>buf2 := b\<rparr>) w) =
      (if j + m < length p then Inr (set_conn (part p (j + m) c) w) else packet_in lt getter react p w)"
proof -
  have c: "0 < header_len c" "header_len c \<le> length p" "length p \<le> length (buf2 c)" "length p \<le> size2 c"
      "lener (take (header_len c) p) = length p"
    using assms(1-3) by (auto simp: at_boundary_def framed_def)
  have take_b: "take (j + m) b = take (j + m) p"
    using take_blit [of 0 "take (j + m) p" "buf2 c"] m(2) c(3) by (simp add: b)
  let ?c = "(part p j c)\<lparr>buf2 := b\<rparr>"
  let ?l = "if j + m < header_len c then 0 else length p"
  have e: "?c\<lparr>len2 := j + m, packet_len := ?l\<rparr> = part p (j + m) c"
    by (simp add: part_def b)
  have header: "packet_len ?c = 0 \<and> j + m = header_len ?c \<longleftrightarrow> j < header_len c \<and> j + m = header_len c"
    using c(1,2) m(1) by (auto simp: part_def)
  have l: "?l = (if packet_len ?c = 0 \<and> j + m = header_len ?c then lener (take (j + m) (buf2 ?c)) else packet_len ?c)"
    using take_b c(5) m(3) header by (auto simp: part_def)
  have "tcp_recv_cb2 lt getter lener react (int m) (set_conn ?c w) =
    (let w = set_conn (?c\<lparr>len2 := j + m, packet_len := ?l\<rparr>) (set_conn ?c w)
     in if ?l \<noteq> 0 \<and> j + m = ?l then
          res_bind (deliver_packet lt getter react (take (j + m) (buf2 ?c)) w) (\<lambda>w.
            case conn w of
              None \<Rightarrow> Inr w
            | Some c \<Rightarrow> Inr (set_conn (c\<lparr>len2 := 0, packet_len := 0\<rparr>) w))
        else Inr w)"
  proof (rule recv_cb2_eq [where c = ?c and header = "packet_len ?c = 0 \<and> j + m = header_len ?c"])
    show "header_len ?c \<le> ?l \<and> ?l \<le> size2 ?c" if "packet_len ?c = 0 \<and> j + m = header_len ?c"
      using that c(2,4) by (simp add: part_def)
  qed (use l m(1) in \<open>simp_all add: part_def\<close>)
  moreover have "?c\<lparr>len2 := length p, packet_len := length p\<rparr> = part p (length p) c" if "j + m = length p"
    using c(2) that by (simp add: part_def b)
  ultimately show ?thesis
    using m c(1,2) take_b assms(2)
    by (cases "j + m < length p") (auto simp: tcp_recv_cb_def e packet_in_def Let_def)
qed

lemma read_part:
  assumes "at_boundary w" "conn w = Some c" "framed lener (header_len c) (size2 c) p" "j < length p"
    and m: "m = min k (room p j c)" and "0 < k"
  shows "tcp_read fuel lt getter lener react k (drop j p @ s, set_conn (part p j c) w) =
    (if j + m < length p then Inr (drop (j + m) p @ s, set_conn (part p (j + m) c) w)
     else res_bind (packet_in lt getter react p w) (\<lambda>w. Inr (s, w)))"
proof -
  have c: "conn_reading w = Some Tcp_cb2" "0 < header_len c" "header_len c \<le> length p"
      "length p \<le> length (buf2 c)" "length p < 2 ^ 32"
    using assms(1-3) by (auto simp: at_boundary_def framed_def)
  have m1: "0 < m" "j + m \<le> length p" "j < header_len c \<Longrightarrow> j + m \<le> header_len c"
    using c(2,3) assms(4,6) m by (auto simp: room_def)
  have alloc: "tcp_alloc_cb Tcp_cb2 (set_conn (part p j c) w) =
      Inr (In_buf2 j, room p j c, set_conn (part p j c) w)"
    using c(3,5) assms(4)
    by (simp add: tcp_alloc_cb_def tcp_alloc_cb2_def part_def room_def uv_buf_size_def nat_mod_distrib
        flip: of_nat_diff)
  have bytes: "take m (drop j p @ s) = take m (drop j p)" "length (take m (drop j p)) = m"
      "drop m (drop j p @ s) = drop (j + m) p @ s"
    using m1(2) by (auto simp: add.commute)
  have "blit (buf2 (part p j c)) j (take m (drop j p)) = blit (buf2 c) 0 (take (j + m) p)"
    using blit_blit [of 0 "take j p" "take m (drop j p)" "buf2 c"] m1(2) c(4) assms(4)
    by (simp add: part_def take_add)
  then have fill: "tcp_fill (In_buf2 j) (take m (drop j p)) (set_conn (part p j c) w) =
      Inr (set_conn ((part p j c)\<lparr>buf2 := blit (buf2 c) 0 (take (j + m) p)\<rparr>) w)"
    using m1(2) c(4) bytes(2) by (simp add: tcp_fill_def) (simp add: part_def)
  show ?thesis
    using alloc fill recv_cb2_part [OF assms(1-3) m1 refl] bytes c(1)
    by (simp add: tcp_read_def Let_def res_bind_assoc flip: m)
qed

text \<open>Reading goes on to the end of the stream.\<close>

lemma part_0: "at_boundary w \<Longrightarrow> conn w = Some c \<Longrightarrow> set_conn (part p 0 c) w = w"
  by (cases c) (auto simp: at_boundary_def part_def set_conn_def)

lemma tcp_reads_idle:
  assumes "at_boundary w \<or> conn_reading w = None"
  shows "tcp_reads fuel lt getter lener react ks ([], w) = Inr ([], w)"
proof (induction ks)
  case (Cons k ks)
  have "tcp_read fuel lt getter lener react k ([], w) = Inr ([], w)"
    using assms
    by (auto simp: tcp_read_def at_boundary_def tcp_alloc_cb_def tcp_alloc_cb2_def tcp_fill_def
        tcp_recv_cb_def tcp_recv_cb2_def split: option.splits)
  then show ?case
    using Cons by simp
qed simp

lemma reads_packets:
  assumes "at_boundary w" "conn w = Some c" "j < length p"
    and "list_all (framed lener (header_len c) (size2 c)) (p # ps)"
    and "list_all ((<) 0) ks" "length (drop j p @ concat ps) \<le> length ks"
    and "packets_in lt getter react (p # ps) w = Inr w'"
  shows "tcp_reads fuel lt getter lener react ks (drop j p @ concat ps, set_conn (part p j c) w) = Inr ([], w')"
  using assms
proof (induction ks arbitrary: j p ps w c)
  case (Cons k ks)
  note IH = Cons.IH and prems = Cons.prems
  define m where "m = min k (room p j c)"
  have h: "0 < header_len c" "header_len c \<le> length p" "framed lener (header_len c) (size2 c) p"
    using Cons.prems(1,2,4) by (auto simp: at_boundary_def framed_def)
  have m: "0 < m"
    using Cons.prems(3,5) h(1) by (auto simp: m_def room_def)
  note r = read_part [OF Cons.prems(1,2) h(3) Cons.prems(3) m_def, of fuel lt getter react "concat ps"]
  show ?case
  proof (cases "j + m < length p")
    case True
    then have "tcp_reads fuel lt getter lener react ks (drop (j + m) p @ concat ps, set_conn (part p (j + m) c) w)
        = Inr ([], w')"
      using Cons.prems m by (intro Cons.IH) auto
    then show ?thesis
      using r True Cons.prems(5) by simp
  next
    case False
    obtain w1 where w1: "packet_in lt getter react p w = Inr w1" "packets_in lt getter react ps w1 = Inr w'"
      using Cons.prems(7) by (auto simp: res_bind_eq_Inr)
    have step: "tcp_reads fuel lt getter lener react (k # ks) (drop j p @ concat ps, set_conn (part p j c) w) =
        tcp_reads fuel lt getter lener react ks (concat ps, w1)"
      using r False w1(1) Cons.prems(5) by simp
    show ?thesis
    proof (cases ps)
      case Nil
      have "at_boundary w1 \<or> conn_reading w1 = None"
        using packet_in_boundary [OF Cons.prems(1,2) h(3) w1(1)]
          packet_in_destroyed [OF Cons.prems(1,2) w1(1)] by (cases "conn w1") auto
      then show ?thesis
        using step Nil w1(2) by (simp add: tcp_reads_idle)
    next
      case (Cons p' ps')
      obtain c1 where c1: "conn w1 = Some c1"
        using w1(2) Cons by (cases "conn w1") (auto simp: packet_in_def tcp_inr)
      note b = packet_in_boundary [OF prems(1,2) h(3) w1(1) c1]
      have "0 < length p'"
        using prems(4) h(1) Cons by (auto simp: framed_def)
      then have "tcp_reads fuel lt getter lener react ks (drop 0 p' @ concat ps', set_conn (part p' 0 c1) w1)
          = Inr ([], w')"
        using prems w1(2) b Cons False by (intro IH [OF b(1) c1]) auto
      then show ?thesis
        using step Cons part_0 [OF b(1) c1] by simp
    qed
  qed
qed simp

text \<open>
  C11: packets are put together again. Let a stream consist of packets whose length the user's
  \<open>len_getter\<close> tells from their header and that fit the connection's buffer. However the stream is
  cut into reads, and whatever the continued tasks do, the world after the last byte is the one in
  which each packet had arrived in one piece, in order, and was handled on its own.
\<close>

theorem packets_reassembled:
  assumes "at_boundary w" "conn w = Some c"
    and "list_all (framed lener (header_len c) (size2 c)) ps"
    and "list_all ((<) 0) ks" "length (concat ps) \<le> length ks"
    and "packets_in lt getter react ps w = Inr w'"
  shows "tcp_reads fuel lt getter lener react ks (concat ps, w) = Inr ([], w')"
proof (cases ps)
  case Nil
  then show ?thesis
    using assms(1,6) by (simp add: tcp_reads_idle)
next
  case (Cons p ps')
  have "0 < length p"
    using assms(1-3) Cons by (auto simp: at_boundary_def framed_def)
  then show ?thesis
    using reads_packets [OF assms(1,2), of 0 p lener ps' ks lt getter react w' fuel] assms(3-6) Cons
      part_0 [OF assms(1,2)] by simp
qed

text \<open>A connection with one byte of header, the length of the packet.\<close>

definition packet_world :: "u32 tcp_world" where
  "packet_world = \<lparr>conn = Some (new_connected\<lparr>tcp_mode := tcp_receiving_recv_by_seq, buf2 := replicate 4 0,
       size2 := 4, header_len := 1, tcp_seqer := Some \<lparr>seq_mapping = [], cur_seq = 0\<rparr>\<rparr>),
     conn_reading = Some Tcp_cb2, tcp_uv_ok = True, tcp_recvs = (\<lambda>_. None), tills = (\<lambda>_. None),
     rets = (\<lambda>_. 0), connect_req = (\<lambda>_. False), async_sent = False, iter0 = None, iter1 = None,
     iter2 = None, iter_dead = False, continued = [], written = [], told = []\<rparr>"

definition first_byte_len :: "u8 list \<Rightarrow> nat" where
  "first_byte_len b = unat (hd b)"

definition second_byte :: "u32 getter" where
  "second_byte b q = (if length b < 2 then (-1, q) else (0, ucast (b ! 1)))"

theorem packets_reassembled_witness:
  "\<exists>w'. tcp_reads 0 less_u32 second_byte first_byte_len (\<lambda>_ _. []) (replicate 6 1)
      ([2, 9, 1, 3, 8, 8], packet_world) = Inr ([], w') \<and>
     told w' = [Tcp_unrecv [2, 9] 9, Tcp_failed [1] (-1), Tcp_unrecv [3, 8, 8] 8]"
proof -
  let ?ps = "[[2, 9], [1], [3, 8, 8]] :: u8 list list"
  let ?c = "new_connected\<lparr>tcp_mode := tcp_receiving_recv_by_seq, buf2 := replicate 4 0,
       size2 := 4, header_len := 1, tcp_seqer := Some \<lparr>seq_mapping = [], cur_seq = 0\<rparr>\<rparr> :: u32 connected"
  have w: "at_boundary packet_world" "conn packet_world = Some ?c"
    by (simp_all add: at_boundary_def packet_world_def new_connected_def)
  have "\<exists>w'. packets_in less_u32 second_byte (\<lambda>_ _. []) ?ps packet_world = Inr w' \<and>
      told w' = [Tcp_unrecv [2, 9] 9, Tcp_failed [1] (-1), Tcp_unrecv [3, 8, 8] 8]"
    by (simp add: packet_in_def packet_world_def new_connected_def deliver_packet_def unwrap_def
        second_byte_def part_def set_conn_def with_conn_def)
  then obtain w' where w': "packets_in less_u32 second_byte (\<lambda>_ _. []) ?ps packet_world = Inr w'"
      "told w' = [Tcp_unrecv [2, 9] 9, Tcp_failed [1] (-1), Tcp_unrecv [3, 8, 8] 8]"
    by blast
  have "list_all (framed first_byte_len (header_len ?c) (size2 ?c)) ?ps"
    by (simp add: framed_def first_byte_len_def)
  with packets_reassembled [OF w this _ _ w'(1), of "replicate 6 1" 0] w'(2) show ?thesis
    by (simp add: list_all_iff)
qed

section \<open>A length that is not allowed\<close>

text \<open>
  C24: after a peer announces a packet that is too long, the connection is marked broken but reading
  goes on, into the same buffer and with the announced length: if nobody is waiting to destroy the
  connection, the bytes that follow are written past the end of the buffer.
\<close>

theorem too_long_packet_overflows:
  assumes "at_boundary w" "conn w = Some c" "recv_queue0 c = []" "recv_queue1 c = []"
    and "tcp_seqer c = Some \<lparr>seq_mapping = [], cur_seq = q\<rparr>"
    and "length h = header_len c" "lener h = n" "size2 c < n" "n < 2 ^ 32"
    and "size2 c < header_len c + length s"
  shows "tcp_reads fuel lt getter lener react [length h, n] (h @ s, w) = Inl Out_of_bounds"
proof -
  have c: "conn_reading w = Some Tcp_cb2" "0 < header_len c" "header_len c \<le> size2 c" "len2 c = 0"
      "packet_len c = 0" "length (buf2 c) = size2 c" "size2 c < 2 ^ 32"
    using assms(1,2) by (auto simp: at_boundary_def)
  define c1 where "c1 = c\<lparr>buf2 := blit (buf2 c) 0 h\<rparr>"
  have h: "take (header_len c) (blit (buf2 c) 0 h) = h"
    using take_blit [of 0 h "buf2 c"] c(3,6) assms(6) by simp
  define c2 where "c2 = c1\<lparr>len2 := header_len c, packet_len := n, broken := True\<rparr>"
  define w2 where "w2 = (set_conn c2 w)\<lparr>iter0 := None, iter1 := None, iter2 := None, iter_dead := False\<rparr>"
  have w2: "conn w2 = Some c2" "conn_reading w2 = Some Tcp_cb2"
    using c(1) by (simp_all add: w2_def)
  have "break_all_recv lt react packet_length_too_long (set_conn c2 w) = Inr w2"
    using assms(3-5) by (simp add: break_all_recv_def first_of_def break_queue0.simps break_queue1.simps
        drop_all.simps c1_def c2_def w2_def)
  then have cb: "tcp_recv_cb2 lt getter lener react (int (header_len c)) (set_conn c1 w) = Inr w2"
    using c assms(7,8) h
    by (simp add: tcp_recv_cb2_def Let_def break_off_def) (simp add: c1_def c2_def)
  have first: "tcp_read fuel lt getter lener react (length h) (h @ s, w) = Inr (s, w2)"
    using c(1-7) assms(2,6) cb
    by (simp add: tcp_read_def tcp_alloc_cb_def tcp_alloc_cb2_def uv_buf_size_def tcp_fill_def
        tcp_recv_cb_def c1_def)
  have "tcp_alloc_cb2 w2 = Inr (In_buf2 (header_len c), n - header_len c, w2)"
    using w2(1) c(3) assms(8,9)
    by (simp add: tcp_alloc_cb2_def c2_def c1_def uv_buf_size_def flip: of_nat_diff)
  moreover have "\<not> header_len c + length (take (n - header_len c) s) \<le> length (buf2 c2)"
    using c(3,6) assms(6,8,10) by (simp add: c2_def c1_def)
  ultimately have "tcp_read fuel lt getter lener react n (s, w2) = Inl Out_of_bounds"
    using w2 by (simp add: tcp_read_def tcp_alloc_cb_def tcp_fill_def)
  then show ?thesis
    using first by simp
qed

theorem too_long_packet_overflows_witness:
  "tcp_reads 0 less_u32 second_byte first_byte_len (\<lambda>_ _. []) [1, 9] ([9, 1, 1, 1, 1], packet_world)
     = Inl Out_of_bounds"
proof -
  let ?c = "new_connected\<lparr>tcp_mode := tcp_receiving_recv_by_seq, buf2 := replicate 4 0,
       size2 := 4, header_len := 1, tcp_seqer := Some \<lparr>seq_mapping = [], cur_seq = 0\<rparr>\<rparr> :: u32 connected"
  have "at_boundary packet_world" "conn packet_world = Some ?c"
    by (simp_all add: at_boundary_def packet_world_def new_connected_def)
  from too_long_packet_overflows [OF this, of 0 "[9]" first_byte_len 9 "[1, 1, 1, 1]" 0 less_u32 second_byte
      "\<lambda>_ _. []"] show ?thesis
    by (simp add: new_connected_def first_byte_len_def)
qed

end
