(* ===== verification/Tcp_Till.thy ===== *)
theory Tcp_Till
  imports Tcp_Packets
begin

text \<open>
  \<open>tcp::recv_till\<close> on a connection: a queue of requests is served from the stream in order, each
  with the bytes its abstract request takes, however the stream is cut into reads; and what
  canceling a request does to the stream.
\<close>

section \<open>The stream cut into requests\<close>

type_synonym request = "tid \<times> nat \<times> u8 list option"

text \<open>The reference: which requests a stream satisfies, with which bytes; what waits, what is left.\<close>

fun serve_spec :: "request list \<Rightarrow> u8 list \<Rightarrow> (tid \<times> u8 list) list \<times> request list \<times> u8 list" where
  "serve_spec [] x = ([], [], x)"
| "serve_spec ((t, n, pat) # rs) x =
     (case taken n pat x of
        None \<Rightarrow> ([], (t, n, pat) # rs, x)
      | Some k \<Rightarrow> (case serve_spec rs (drop k x) of (ds, rs', y) \<Rightarrow> ((t, take k x) # ds, rs', y)))"

definition valid_request :: "request \<Rightarrow> bool" where
  "valid_request q \<longleftrightarrow> (case q of (_, n, pat) \<Rightarrow> 0 < n \<and> n < 2 ^ 32 \<and> pat \<noteq> Some [] \<and>
     (\<forall>p. pat = Some p \<longrightarrow> length p \<le> 1024))"

text \<open>Serving is the same when the rest of the stream arrives later.\<close>

lemma serve_spec_append:
  assumes "list_all valid_request rs" "serve_spec rs x = (ds, rs', y)"
  shows "serve_spec rs (x @ z) = (case serve_spec rs' (y @ z) of (ds', rs'', y') \<Rightarrow> (ds @ ds', rs'', y'))"
  using assms
proof (induction rs x arbitrary: ds rule: serve_spec.induct)
  case (1 x)
  then show ?case
    by (auto split: prod.splits)
next
  case (2 t n pat rs x)
  show ?case
  proof (cases "taken n pat x")
    case None
    then show ?thesis
      using 2(3) by (auto split: prod.splits)
  next
    case (Some k)
    obtain ds1 where ds1: "serve_spec rs (drop k x) = (ds1, rs', y)" "ds = (t, take k x) # ds1"
      using 2(3) Some by (auto split: prod.splits)
    have "taken n pat (x @ z) = Some k" "k \<le> length x"
      using taken_append [OF Some] taken_bound [OF Some] 2(2) by (auto simp: valid_request_def)
    then show ?thesis
      using 2(1) [OF Some _ ds1(1)] 2(2) ds1(2) by (auto split: prod.splits)
  qed
qed

lemma serve_spec_valid: "list_all valid_request rs \<Longrightarrow> serve_spec rs x = (ds, rs', y) \<Longrightarrow> list_all valid_request rs'"
  by (induction rs x arbitrary: ds rule: serve_spec.induct) (auto split: option.splits prod.splits)

section \<open>The queue of a connection\<close>

definition has_till :: "'q tcp_world \<Rightarrow> request \<Rightarrow> till \<Rightarrow> bool" where
  "has_till w q r \<longleftrightarrow> (case q of (t, n, pat) \<Rightarrow> tills w t = Some r \<and> till_ok n r \<and> pattern r = pat)"

text \<open>
  The connection's queue holds the requests \<open>rs\<close>, and \<open>x\<close> is the part of the stream that has
  arrived and was not given to a request that is complete. Only the first request may
  hold a part of it already.
\<close>

definition inroom :: "inbuf \<Rightarrow> bool" where
  "inroom b \<longleftrightarrow> buf1 b = [] \<or> 1024 \<le> length (buf1 b) \<and> length (buf1 b) < 2 ^ 32"

definition pend :: "'q tcp_world \<Rightarrow> 'q connected \<Rightarrow> request list \<Rightarrow> u8 list \<Rightarrow> bool" where
  "pend w c rs x \<longleftrightarrow> recv_queue1 c = map fst rs \<and> distinct (map fst rs) \<and> inbuf_ok (in1 c) \<and>
     inroom (in1 c) \<and> list_all valid_request rs \<and>
     (case rs of
        [] \<Rightarrow> x = held (in1 c)
      | q # qs \<Rightarrow> (\<exists>r. has_till w q r \<and> clean r (in1 c) \<and> x = got r @ held (in1 c)) \<and>
          (\<forall>q'\<in>set qs. \<exists>r. has_till w q' r \<and> cur r = 0))"

definition first_settled :: "'q tcp_world \<Rightarrow> 'q connected \<Rightarrow> bool" where
  "first_settled w c \<longleftrightarrow> (case recv_queue1 c of
       [] \<Rightarrow> True
     | t # _ \<Rightarrow> (case tills w t of None \<Rightarrow> False | Some r \<Rightarrow> settled r (in1 c)))"

definition delivered :: "'q tcp_world \<Rightarrow> tid \<Rightarrow> u8 list \<Rightarrow> bool" where
  "delivered w t bs \<longleftrightarrow> (\<exists>r. tills w t = Some r \<and> till_ret r = success \<and> user_len r = length bs \<and>
     take (length bs) (till_buf r) = bs)"

text \<open>From \<open>w\<close> to \<open>w'\<close> the requests in \<open>ds\<close> were completed and \<open>rs\<close> are left.\<close>

definition advanced ::
  "'q tcp_world \<Rightarrow> 'q connected \<Rightarrow> (tid \<times> u8 list) list \<Rightarrow> request list \<Rightarrow> u8 list \<Rightarrow> 'q tcp_world \<Rightarrow> bool"
where
  "advanced w c ds rs x w' \<longleftrightarrow>
     (\<exists>b. conn w' = Some (c\<lparr>recv_queue1 := map fst rs, in1 := b\<rparr>) \<and>
        pend w' (c\<lparr>recv_queue1 := map fst rs, in1 := b\<rparr>) rs x \<and> first_settled w' (c\<lparr>recv_queue1 := map fst rs, in1 := b\<rparr>)) \<and>
     conn_reading w' = conn_reading w \<and> tcp_uv_ok w' = tcp_uv_ok w \<and>
     continued w' = continued w @ map (\<lambda>(t, _). (t, success)) ds \<and>
     (\<forall>(t, bs)\<in>set ds. delivered w' t bs) \<and>
     (\<forall>t. t \<notin> fst ` set ds \<and> t \<notin> fst ` set rs \<longrightarrow> tills w' t = tills w t)"

lemma clean_empty:
  assumes "clean r b" "till_ok n r" "inbuf_ok b" "len1 b = 0"
  shows "settled r b" "taken n (pattern r) (got r @ held b) = None"
proof -
  have b: "held b = []" "length (got r) = cur r" "cur r < n"
    using assms(2,4) by (auto simp: held_def till_ok_def)
  have fe: "first_end p (got r @ held b) = None" "0 < length p" "cur r \<noteq> 0 \<longrightarrow> length p = 1"
    if p: "pattern r = Some p" for p
  proof -
    show l: "0 < length p"
      using assms(2) p by (auto simp: till_ok_def)
    have "\<not> suffix p (take k (got r @ held b))" if "k \<le> length (got r @ held b)" for k
    proof -
      have "k < cur r + length p"
        using that b(1,2) l by (auto intro: order.strict_trans1)
      then show ?thesis
        using assms(1) p unfolding clean_def by blast
    qed
    then show "first_end p (got r @ held b) = None"
      unfolding first_end_None by blast
    have "cur r \<noteq> 0 \<longrightarrow> length p \<le> len1 b + 1"
      using assms(1) p unfolding clean_def by blast
    then show "cur r \<noteq> 0 \<longrightarrow> length p = 1"
      using l assms(4) by linarith
  qed
  show "settled r b"
    using fe assms(4) by (auto simp: settled_def split: option.splits)
  show "taken n (pattern r) (got r @ held b) = None"
  proof (cases "pattern r")
    case None
    then show ?thesis
      using b by (simp add: taken_def)
  next
    case (Some p)
    then show ?thesis
      using fe(1,2) [OF Some] b by (cases p) (simp_all add: taken_def)
  qed
qed

section \<open>Serving what has arrived\<close>

text \<open>Continued tasks that do not use the connection.\<close>

definition quiet :: "'q tcp_reaction \<Rightarrow> bool" where
  "quiet react \<longleftrightarrow> (\<forall>t w. react t w = [])"

lemma stand_quiet:
  "quiet react \<Longrightarrow> tcp_stand lt react t e w = Inr (w\<lparr>continued := continued w @ [(t, e)]\<rparr>)"
  by (simp add: tcp_stand_def quiet_def Let_def)

lemma has_till_same: "tills w' (fst q) = tills w (fst q) \<Longrightarrow> has_till w' q r \<longleftrightarrow> has_till w q r"
  by (auto simp: has_till_def split: prod.splits)

text \<open>A call of \<open>remaining\<close> for the first request.\<close>

lemma till_remaining_eq:
  assumes "conn w = Some c" "has_till w (t, n, pat) r" "inbuf_ok (in1 c)" "clean r (in1 c)" "0 < len1 (in1 c)"
  obtains fin r' b' where "moved n r (in1 c) (fin, r', b')"
    "till_remaining t w = Inr (fin, set_till t r' (set_conn (c\<lparr>in1 := b'\<rparr>) w))"
proof -
  have r: "tills w t = Some r" "till_ok n r"
    using assms(2) by (auto simp: has_till_def)
  obtain fin r' b' where "remaining r (in1 c) = Inr (fin, r', b')" "moved n r (in1 c) (fin, r', b')"
    using remaining_moved [OF r(2) assms(3,4,5)] by (metis prod_cases3)
  then show ?thesis
    using that assms(1) r(1) by (simp add: till_remaining_def with_till_def)
qed

lemma moved_None:
  assumes "moved n r b (fin, r', b')" "taken n (pattern r) (got r @ held b) = None"
  shows "\<not> fin" "inbuf_ok b'" "till_ok n r'" "pattern r' = pattern r" "settled r' b'"
    "got r' @ held b' = got r @ held b" "inroom b \<Longrightarrow> inroom b'"
  using assms by (auto simp: moved_def inroom_def)

lemma moved_Some:
  assumes "moved n r b (fin, r', b')" "taken n (pattern r) (got r @ held b) = Some k"
  shows "fin" "inbuf_ok b'" "user_len r' = k" "take k (till_buf r') = take k (got r @ held b)"
    "held b' = drop k (got r @ held b)" "inroom b \<Longrightarrow> inroom b'"
  using assms by (auto simp: moved_def inroom_def)

lemma settled_clean_self: "settled r b \<Longrightarrow> till_ok n r \<Longrightarrow> inbuf_ok b \<Longrightarrow> clean r b"
  using settled_clean [of r b n b "[]"] by simp

text \<open>The first request waits on: nothing is completed.\<close>

lemma advanced_wait:
  assumes "pend w c ((t, n, pat) # rs) x" "conn w = Some c"
    and "till_ok n r'" "pattern r' = pat" "settled r' b'" "inbuf_ok b'" "got r' @ held b' = x" "inroom b'"
  shows "advanced w c [] ((t, n, pat) # rs) x (set_till t r' (set_conn (c\<lparr>in1 := b'\<rparr>) w))"
proof -
  let ?c = "c\<lparr>recv_queue1 := map fst ((t, n, pat) # rs), in1 := b'\<rparr>"
  let ?w = "set_till t r' (set_conn (c\<lparr>in1 := b'\<rparr>) w)"
  have c: "?c = c\<lparr>in1 := b'\<rparr>"
    using assms(1) by (cases c) (simp add: pend_def)
  have "has_till ?w (t, n, pat) r'"
    using assms(3,4) by (simp add: has_till_def)
  moreover have "\<exists>r. has_till ?w q r \<and> cur r = 0" if "q \<in> set rs" for q
  proof -
    have "fst q \<noteq> t" "\<exists>r. has_till w q r \<and> cur r = 0"
      using assms(1) that by (auto simp: pend_def)
    then show ?thesis
      using has_till_same [of ?w q w] by auto
  qed
  moreover have "clean r' b'"
    using settled_clean_self assms(3,5,6) by blast
  ultimately have "pend ?w ?c ((t, n, pat) # rs) x"
    using assms(1,6,7,8) by (auto simp: pend_def)
  moreover have "first_settled ?w ?c"
    using assms(5) by (simp add: first_settled_def)
  ultimately show ?thesis
    using c by (auto simp: advanced_def intro!: exI [of _ b'])
qed

text \<open>The first request is complete; the world is advanced by serving the others.\<close>

lemma advanced_first:
  assumes "advanced w1 c1 ds rs' y w'" "c1 = c\<lparr>recv_queue1 := map fst rs, in1 := b\<rparr>"
    and "continued w1 = continued w @ [(t, success)]" "conn_reading w1 = conn_reading w"
    and "tcp_uv_ok w1 = tcp_uv_ok w" "delivered w1 t bs" "\<And>t'. t' \<noteq> t \<Longrightarrow> tills w1 t' = tills w t'"
    and "t \<notin> fst ` set ds" "t \<notin> fst ` set rs'"
  shows "advanced w c ((t, bs) # ds) rs' y w'"
proof -
  have "tills w' t = tills w1 t"
    using assms(1,8,9) by (simp add: advanced_def)
  then have "delivered w' t bs"
    using assms(6) by (simp add: delivered_def)
  moreover have "c1\<lparr>recv_queue1 := qs, in1 := b'\<rparr> = c\<lparr>recv_queue1 := qs, in1 := b'\<rparr>" for qs b'
    using assms(2) by (cases c) simp
  ultimately show ?thesis
    using assms(1,3-5,7) by (auto simp: advanced_def)
qed

lemma serve_spec_tids:
  "serve_spec rs x = (ds, rs', y) \<Longrightarrow> map fst rs = map fst ds @ map fst rs'"
  by (induction rs x arbitrary: ds rule: serve_spec.induct) (auto split: option.splits prod.splits)

lemma pend_rest:
  assumes "pend w c ((t, n, pat) # rs) x" "recv_queue1 c1 = map fst rs" "inbuf_ok (in1 c1)" "inroom (in1 c1)"
    "held (in1 c1) = y" "\<And>t'. t' \<noteq> t \<Longrightarrow> tills w1 t' = tills w t'"
  shows "pend w1 c1 rs y"
proof -
  have fresh: "\<exists>r. has_till w1 q r \<and> cur r = 0" if "q \<in> set rs" for q
  proof -
    have "fst q \<noteq> t" "\<exists>r. has_till w q r \<and> cur r = 0"
      using assms(1) that by (auto simp: pend_def)
    then show ?thesis
      using has_till_same [of w1 q w] assms(6) by auto
  qed
  show ?thesis
  proof (cases rs)
    case Nil
    then show ?thesis
      using assms by (simp add: pend_def)
  next
    case (Cons q qs)
    then obtain r where "has_till w1 q r" "cur r = 0"
      using fresh [of q] by (metis list.set_intros(1))
    moreover from this have "clean r (in1 c1)" "got r = []"
      by (simp_all add: fresh_clean got_def)
    moreover have "\<forall>q'\<in>set qs. \<exists>r. has_till w1 q' r \<and> cur r = 0"
      using fresh Cons by simp
    ultimately show ?thesis
      using assms(1-5) Cons by (auto simp: pend_def)
  qed
qed

text \<open>The request at the front of the queue, with its object.\<close>

lemma pend_first:
  assumes "pend w c ((t, n, pat) # rs) x"
  obtains r where "has_till w (t, n, pat) r" "clean r (in1 c)" "x = got r @ held (in1 c)" "till_ok n r" "pattern r = pat"
    "tills w t = Some r"
  using assms by (auto simp: pend_def has_till_def)

lemma serve_waiting_waits:
  assumes "conn w = Some c" "pend w c ((t, n, pat) # rs) x" "taken n pat x = None" "0 < fuel"
  shows "\<exists>w'. serve_waiting Sock fuel lt react w = Inr w' \<and> advanced w c [] ((t, n, pat) # rs) x w'"
proof -
  obtain r where r: "has_till w (t, n, pat) r" "clean r (in1 c)" "x = got r @ held (in1 c)" "till_ok n r" "pattern r = pat"
      "tills w t = Some r"
    using pend_first [OF assms(2)] by blast
  have b: "inbuf_ok (in1 c)" "recv_queue1 c = t # map fst rs" "inroom (in1 c)"
    using assms(2) by (auto simp: pend_def)
  note wait = advanced_wait [OF assms(2,1)]
  show ?thesis
  proof (cases "len1 (in1 c) = 0")
    case True
    have "set_till t r (set_conn (c\<lparr>in1 := in1 c\<rparr>) w) = w"
      using r(6) assms(1) by (simp add: set_till_def fun_upd_idem)
    moreover have "serve_waiting Sock fuel lt react w = Inr w"
      using True b(2) assms(1) by (subst serve_waiting.simps) simp
    ultimately show ?thesis
      using wait [OF r(4,5) _ b(1)] clean_empty [OF r(2,4) b(1) True] r(3) b(3) by auto
  next
    case False
    then obtain fin r' b' where m: "moved n r (in1 c) (fin, r', b')"
        "till_remaining t w = Inr (fin, set_till t r' (set_conn (c\<lparr>in1 := b'\<rparr>) w))"
      using till_remaining_eq [OF assms(1) r(1) b(1) r(2)] by auto
    note m' = moved_None [OF m(1), unfolded r(5) r(3) [symmetric], OF assms(3)]
    have "serve_waiting Sock fuel lt react w = Inr (set_till t r' (set_conn (c\<lparr>in1 := b'\<rparr>) w))"
      using False b(2) assms(1,4) m(2) m'(1) by (subst serve_waiting.simps) (auto split: nat.split)
    then show ?thesis
      using wait [OF m'(3,4,5,2) m'(6) m'(7) [OF b(3)]] by blast
  qed
qed

lemma serve_waiting_serves:
  assumes "quiet react" "conn w = Some c" "pend w c ((t, n, pat) # rs) x" "taken n pat x = Some k"
  obtains w1 c1 where "serve_waiting Sock (Suc fuel) lt react w = serve_waiting Sock fuel lt react w1"
    "conn w1 = Some c1" "pend w1 c1 rs (drop k x)"
    "\<And>ds rs' y w'. serve_spec rs (drop k x) = (ds, rs', y) \<Longrightarrow> advanced w1 c1 ds rs' y w' \<Longrightarrow>
       advanced w c ((t, take k x) # ds) rs' y w'"
proof -
  obtain r where r: "has_till w (t, n, pat) r" "clean r (in1 c)" "x = got r @ held (in1 c)" "till_ok n r" "pattern r = pat"
      "tills w t = Some r"
    using pend_first [OF assms(3)] by blast
  have b: "inbuf_ok (in1 c)" "recv_queue1 c = t # map fst rs" "inroom (in1 c)" "t \<notin> fst ` set rs"
    using assms(3) by (auto simp: pend_def)
  have "len1 (in1 c) \<noteq> 0"
    using clean_empty [OF r(2,4) b(1)] assms(4) r(3,5) by auto
  then obtain fin r' b' where m: "moved n r (in1 c) (fin, r', b')"
      "till_remaining t w = Inr (fin, set_till t r' (set_conn (c\<lparr>in1 := b'\<rparr>) w))"
    using till_remaining_eq [OF assms(2) r(1) b(1) r(2)] by auto
  note m' = moved_Some [OF m(1), of k, unfolded r(5) r(3) [symmetric], OF assms(4)]
  define c1 where "c1 = c\<lparr>recv_queue1 := map fst rs, in1 := b'\<rparr>"
  define w1 where "w1 = (set_conn c1 (set_till t (r'\<lparr>till_ret := success\<rparr>) w))\<lparr>continued := continued w @ [(t, success)]\<rparr>"
  have conn1: "conn w1 = Some c1"
    by (simp add: w1_def)
  have "set_till_ret t success (set_till t r' (set_conn (c\<lparr>in1 := b'\<rparr>) w)) =
      set_till t (r'\<lparr>till_ret := success\<rparr>) (set_conn (c\<lparr>in1 := b'\<rparr>) w)"
    by (simp add: set_till_ret_def set_till_def)
  moreover have "(set_conn (c\<lparr>in1 := b', recv_queue1 := map fst rs\<rparr>)
      (set_till t (r'\<lparr>till_ret := success\<rparr>) (set_conn (c\<lparr>in1 := b'\<rparr>) w)))
      \<lparr>continued := continued w @ [(t, success)]\<rparr> = w1"
    by (simp add: w1_def c1_def set_conn_def set_till_def)
  ultimately have "serve_waiting Sock (Suc fuel) lt react w = serve_waiting Sock fuel lt react w1"
    using \<open>len1 (in1 c) \<noteq> 0\<close> b assms(2) m(2) m'(1) conn1 stand_quiet [OF assms(1), of lt t success]
    by (subst serve_waiting.simps) simp
  moreover have "pend w1 c1 rs (drop k x)"
    using pend_rest [OF assms(3), of c1 "drop k x" w1] m'(2,5,6) b(3) by (simp add: c1_def w1_def)
  moreover have "delivered w1 t (take k x)"
    using m'(3,4) taken_bound [OF assms(4)] r(4,5) by (simp add: delivered_def w1_def min_absorb2 till_ok_def)
  then have "advanced w c ((t, take k x) # ds) rs' y w'"
    if "serve_spec rs (drop k x) = (ds, rs', y)" "advanced w1 c1 ds rs' y w'" for ds rs' y w'
  proof (intro advanced_first [OF that(2) c1_def])
    show "t \<notin> fst ` set ds" "t \<notin> fst ` set rs'"
      using serve_spec_tids [OF that(1)] b(4) by (metis image_set set_append UnI1 UnI2)+
  qed (simp_all add: w1_def)
  ultimately show thesis
    using that conn1 by blast
qed

lemma serve_waiting_spec:
  assumes "quiet react" "conn w = Some c" "pend w c rs x" "length rs \<le> fuel"
    and "serve_spec rs x = (ds, rs', y)"
  shows "\<exists>w'. serve_waiting Sock fuel lt react w = Inr w' \<and> advanced w c ds rs' y w'"
  using assms(2-)
proof (induction rs arbitrary: x fuel ds w c)
  case Nil
  have "c\<lparr>recv_queue1 := [], in1 := in1 c\<rparr> = c"
    using Nil(2) by (cases c) (simp add: pend_def)
  then have "advanced w c ds rs' y w"
    using Nil by (auto simp: advanced_def first_settled_def pend_def intro!: exI [of _ "in1 c"])
  moreover have "serve_waiting Sock fuel lt react w = Inr w"
    using Nil(1,2) by (subst serve_waiting.simps) (simp add: pend_def)
  ultimately show ?case
    by blast
next
  case (Cons q rs)
  obtain t n pat where q: "q = (t, n, pat)"
    by (cases q)
  obtain fuel' where fuel: "fuel = Suc fuel'" "length rs \<le> fuel'"
    using Cons.prems(3) by (cases fuel) auto
  show ?case
  proof (cases "taken n pat x")
    case None
    then show ?thesis
      using serve_waiting_waits [OF Cons.prems(1) Cons.prems(2) [unfolded q] None] fuel(1) Cons.prems(4) by (auto simp: q)
  next
    case (Some k)
    obtain ds1 where ds1: "serve_spec rs (drop k x) = (ds1, rs', y)" "ds = (t, take k x) # ds1"
      using Cons.prems(4) Some q by (auto split: prod.splits)
    obtain w1 c1 where w1: "serve_waiting Sock fuel lt react w = serve_waiting Sock fuel' lt react w1"
        "conn w1 = Some c1" "pend w1 c1 rs (drop k x)"
        "\<And>w'. advanced w1 c1 ds1 rs' y w' \<Longrightarrow> advanced w c ((t, take k x) # ds1) rs' y w'"
      using serve_waiting_serves [OF assms(1) Cons.prems(1) Cons.prems(2) [unfolded q] Some] ds1(1) fuel(1) by metis
    then show ?thesis
      using Cons.IH [OF w1(2,3) fuel(2) ds1(1)] ds1(2) by auto
  qed
qed

section \<open>Reading for requests\<close>

text \<open>The connection receives for the requests \<open>rs\<close>.\<close>

definition till_state :: "'q tcp_world \<Rightarrow> request list \<Rightarrow> u8 list \<Rightarrow> bool" where
  "till_state w rs x \<longleftrightarrow> rs \<noteq> [] \<and> conn_reading w = Some Tcp_cb1 \<and> tcp_uv_ok w \<and>
     (\<exists>c. conn w = Some c \<and> cur_alloc1 c = None \<and> pend w c rs x \<and> first_settled w c)"

text \<open>When no request is left, reading stops; bytes beyond the last request stay in the buffer.\<close>

definition after :: "'q tcp_world \<Rightarrow> request list \<Rightarrow> u8 list \<Rightarrow> bool" where
  "after w rs x \<longleftrightarrow>
     (if rs = [] then conn_reading w = None \<and> (\<exists>c. conn w = Some c \<and> recv_queue1 c = [] \<and> held (in1 c) = x)
      else till_state w rs x)"

definition progress ::
  "'q tcp_world \<Rightarrow> (tid \<times> u8 list) list \<Rightarrow> request list \<Rightarrow> u8 list \<Rightarrow> 'q tcp_world \<Rightarrow> bool" where
  "progress w ds rs x w' \<longleftrightarrow>
     continued w' = continued w @ map (\<lambda>(t, _). (t, success)) ds \<and>
     (\<forall>(t, bs)\<in>set ds. delivered w' t bs) \<and>
     (\<forall>t. t \<notin> fst ` set ds \<and> t \<notin> fst ` set rs \<longrightarrow> tills w' t = tills w t) \<and> after w' rs x"

lemma progress_after:
  assumes "progress w1 ds rs x w'" "continued w1 = continued w @ map (\<lambda>(t, _). (t, success)) ds0"
    and "\<forall>(t, bs)\<in>set ds0. delivered w1 t bs"
    and "\<And>t. t \<notin> fst ` set ds0 \<Longrightarrow> t \<notin> fst ` set ds \<Longrightarrow> t \<notin> fst ` set rs \<Longrightarrow> tills w1 t = tills w t"
    and "\<And>t bs. (t, bs) \<in> set ds0 \<Longrightarrow> t \<notin> fst ` set ds \<and> t \<notin> fst ` set rs"
  shows "progress w (ds0 @ ds) rs x w'"
proof -
  have "delivered w' t bs" if "(t, bs) \<in> set ds0" for t bs
    using assms(1,3) assms(5) [OF that] that by (fastforce simp: progress_def delivered_def)
  moreover have "tills w' t = tills w t"
    if "t \<notin> fst ` set (ds0 @ ds)" "t \<notin> fst ` set rs" for t
    using assms(1) assms(4) [of t] that by (simp add: progress_def image_Un)
  ultimately show ?thesis
    using assms(1,2) by (auto simp: progress_def)
qed

lemma check_remaining_progress:
  assumes "quiet react" "conn w = Some c" "cur_alloc1 c = None" "conn_reading w = Some Tcp_cb1" "tcp_uv_ok w"
    and "pend w c rs x" "length rs \<le> fuel" "serve_spec rs x = (ds, rs', y)"
  shows "\<exists>w'. check_remaining Sock fuel lt react w = Inr w' \<and> progress w ds rs' y w'"
proof -
  obtain w1 where w1: "serve_waiting Sock fuel lt react w = Inr w1" "advanced w c ds rs' y w1"
    using serve_waiting_spec [OF assms(1,2,6,7,8)] by blast
  obtain b where b: "conn w1 = Some (c\<lparr>recv_queue1 := map fst rs', in1 := b\<rparr>)"
      "pend w1 (c\<lparr>recv_queue1 := map fst rs', in1 := b\<rparr>) rs' y"
      "first_settled w1 (c\<lparr>recv_queue1 := map fst rs', in1 := b\<rparr>)"
    using w1(2) by (auto simp: advanced_def)
  have w: "conn_reading w1 = Some Tcp_cb1" "tcp_uv_ok w1"
    using w1(2) assms(4,5) by (auto simp: advanced_def)
  show ?thesis
  proof (cases "rs' = []")
    case False
    then have "check_remaining Sock fuel lt react w = Inr w1"
      using w1(1) b(1) by (simp add: check_remaining_def)
    moreover have "till_state w1 rs' y"
      using False w b assms(3) by (auto simp: till_state_def)
    ultimately show ?thesis
      using w1(2) False by (auto simp: progress_def after_def advanced_def)
  next
    case True
    define w2 where "w2 = (set_conn (c\<lparr>recv_queue1 := [], in1 := b, tcp_mode := tcp_receiving_ready,
      async_cancel1 := False\<rparr>) w1)\<lparr>conn_reading := None, async_sent := False\<rparr>"
    have "check_remaining Sock fuel lt react w = Inr w2"
      using w1(1) b(1) True w by (simp add: check_remaining_def read_stop_def w2_def set_conn_def)
    moreover have "progress w ds rs' y w2"
      using w1(2) True b(2)
      by (auto simp: progress_def after_def advanced_def w2_def pend_def delivered_def)
    ultimately show ?thesis
      by blast
  qed
qed

lemma settled_taken:
  assumes "settled r b" "till_ok n r" "inbuf_ok b"
  shows "taken n (pattern r) (got r @ held b) = None"
proof -
  have "length (got r @ held b) = cur r + len1 b" "cur r < n"
    using assms(2,3) by (auto simp: till_ok_def)
  then show ?thesis
    using assms(1) by (auto simp: settled_def taken_def split: option.splits)
qed

text \<open>After a read the first request waits on, or is complete; then the others are served.\<close>

lemma read_waits:
  assumes "quiet react" "conn w = Some c" "cur_alloc1 c = None" "pend w c ((t, n, pat) # rs) x"
    and "conn w1 = Some (c\<lparr>in1 := b\<rparr>)" "conn_reading w1 = Some Tcp_cb1" "tcp_uv_ok w1"
    and "continued w1 = continued w" "tills w1 = (tills w)(t := Some r)"
    and "till_ok n r" "pattern r = pat" "settled r b" "inbuf_ok b" "inroom b" "y = got r @ held b"
    and "length rs < fuel"
  shows "serve_spec ((t, n, pat) # rs) y = ([], (t, n, pat) # rs, y) \<and>
    (\<exists>w'. check_remaining Sock fuel lt react w1 = Inr w' \<and> progress w [] ((t, n, pat) # rs) y w')"
proof -
  have spec: "serve_spec ((t, n, pat) # rs) y = ([], (t, n, pat) # rs, y)"
    using settled_taken [OF assms(12,10,13)] assms(11,15) by simp
  let ?c = "c\<lparr>in1 := b\<rparr>"
  have "pend w1 ?c ((t, n, pat) # rs) y"
  proof -
    have "has_till w1 (t, n, pat) r" "clean r b"
      using assms(9-11) settled_clean_self [OF assms(12,10,13)] by (simp_all add: has_till_def)
    moreover have "\<exists>r. has_till w1 q r \<and> cur r = 0" if "q \<in> set rs" for q
    proof -
      have "fst q \<noteq> t" "\<exists>r. has_till w q r \<and> cur r = 0"
        using assms(4) that by (auto simp: pend_def)
      then show ?thesis
        using has_till_same [of w1 q w] assms(9) by auto
    qed
    ultimately show ?thesis
      using assms(4,13-15) by (auto simp: pend_def)
  qed
  then obtain w' where w': "check_remaining Sock fuel lt react w1 = Inr w'"
      "progress w1 [] ((t, n, pat) # rs) y w'"
    using check_remaining_progress [where fuel = fuel and lt = lt, OF assms(1,5) _ assms(6,7) _ _ spec] assms(3,16)
    by auto
  have "progress w ([] @ []) ((t, n, pat) # rs) y w'"
    by (rule progress_after [OF w'(2)]) (use assms(8,9) in auto)
  then show ?thesis
    using spec w'(1) by auto
qed

lemma read_completes:
  assumes "quiet react" "conn w = Some c" "cur_alloc1 c = None" "pend w c ((t, n, pat) # rs) x"
    and "conn w1 = Some (c\<lparr>recv_queue1 := map fst rs, in1 := b\<rparr>)" "conn_reading w1 = Some Tcp_cb1"
    and "tcp_uv_ok w1" "continued w1 = continued w @ [(t, success)]" "tills w1 = (tills w)(t := Some r)"
    and "inbuf_ok b" "inroom b" "taken n pat y = Some k" "held b = drop k y" "delivered w1 t (take k y)"
    and "length rs < fuel" "serve_spec ((t, n, pat) # rs) y = (ds, rs', z)"
  shows "\<exists>w'. check_remaining Sock fuel lt react w1 = Inr w' \<and> progress w ds rs' z w'"
proof -
  let ?c = "c\<lparr>recv_queue1 := map fst rs, in1 := b\<rparr>"
  have pend1: "pend w1 ?c rs (drop k y)"
    using pend_rest [OF assms(4), of ?c "drop k y" w1] assms(9-13) by simp
  obtain ds1 where ds1: "serve_spec rs (drop k y) = (ds1, rs', z)" "ds = [(t, take k y)] @ ds1"
    using assms(12,16) by (auto split: prod.splits)
  obtain w' where w': "check_remaining Sock fuel lt react w1 = Inr w'" "progress w1 ds1 rs' z w'"
    using check_remaining_progress [where fuel = fuel and lt = lt, OF assms(1,5) _ assms(6,7) pend1 _ ds1(1)]
      assms(3,15) by auto
  have "t \<notin> fst ` set rs"
    using assms(4) by (auto simp: pend_def)
  then have "t \<notin> fst ` set ds1" "t \<notin> fst ` set rs'"
    using serve_spec_tids [OF ds1(1)] by (metis image_set set_append UnI1 UnI2)+
  then have "progress w ([(t, take k y)] @ ds1) rs' z w'"
    using assms(8,9,14) by (intro progress_after [OF w'(2)]) auto
  then show ?thesis
    using w'(1) ds1(2) by auto
qed

lemma complete1_quiet:
  assumes "quiet react" "conn w = Some c" "tills w t = Some r"
  shows "complete1 lt react t w = Inr ((set_conn (c\<lparr>cur_alloc1 := None\<rparr>)
    (set_till t (r\<lparr>till_ret := success\<rparr>) w))\<lparr>continued := continued w @ [(t, success)]\<rparr>)"
  using assms by (simp add: complete1_def stand_quiet set_till_ret_def)

lemma requeue1_eq:
  "conn w = Some c \<Longrightarrow> requeue1 t w = Inr (set_conn (c\<lparr>recv_queue1 := t # recv_queue1 c, cur_alloc1 := None\<rparr>) w)"
  by (simp add: requeue1_def)

text \<open>
  The end of \<open>tcp_recv_cb1\<close>, for both ways of reading: the request taken for the read is \<open>r'\<close> now. It is
  complete and its task continues, or it goes back to the front of the queue; then the others are served.
\<close>

definition taken_out :: "'q tcp_world \<Rightarrow> 'q connected \<Rightarrow> tid \<Rightarrow> request list \<Rightarrow> till \<Rightarrow> inbuf \<Rightarrow> 'q tcp_world" where
  "taken_out w c t rs r b = set_till t r (set_conn (c\<lparr>cur_alloc1 := Some t, recv_queue1 := map fst rs, in1 := b\<rparr>) w)"

lemma taken_out_completes:
  assumes q: "quiet react" and w: "conn w = Some c" "cur_alloc1 c = None" "conn_reading w = Some Tcp_cb1" "tcp_uv_ok w"
    and "pend w c ((t, n, pat) # rs) x" "inbuf_ok b" "inroom b" "taken n pat y = Some k" "held b = drop k y"
    and r: "user_len r = k" "take k (till_buf r) = take k y" "k \<le> length y"
    and "length rs < fuel" "serve_spec ((t, n, pat) # rs) y = (ds, rs', z)"
  shows "\<exists>w'. res_bind (complete1 lt react t (taken_out w c t rs r b))
      (\<lambda>w. if conn w = None then Inr w else check_remaining Sock fuel lt react w) = Inr w' \<and> progress w ds rs' z w'"
proof -
  define w2 where "w2 = (set_conn (c\<lparr>recv_queue1 := map fst rs, in1 := b\<rparr>)
    (set_till t (r\<lparr>till_ret := success\<rparr>) w))\<lparr>continued := continued w @ [(t, success)]\<rparr>"
  have "c\<lparr>recv_queue1 := map fst rs, in1 := b, cur_alloc1 := None\<rparr> = c\<lparr>recv_queue1 := map fst rs, in1 := b\<rparr>"
    using w(2) by (cases c) simp
  then have "complete1 lt react t (taken_out w c t rs r b) = Inr w2"
    using complete1_quiet [OF q, of "taken_out w c t rs r b"] by (simp add: w2_def taken_out_def set_till_def set_conn_def)
  moreover have "\<exists>w'. check_remaining Sock fuel lt react w2 = Inr w' \<and> progress w ds rs' z w'"
  proof (rule read_completes [OF q w(1,2) assms(6) _ _ _ _ _ assms(7-10) _ assms(14,15)])
    show "delivered w2 t (take k y)"
      using r by (simp add: delivered_def w2_def min_absorb2)
  qed (use w in \<open>simp_all add: w2_def\<close>)
  ultimately show ?thesis
    by (simp add: w2_def)
qed

lemma requeue_taken_out:
  assumes "cur_alloc1 c = None" "recv_queue1 c = t # map fst rs"
  shows "requeue1 t (taken_out w c t rs r b) = Inr (set_till t r (set_conn (c\<lparr>in1 := b\<rparr>) w))"
proof -
  have "c\<lparr>in1 := b, recv_queue1 := t # map fst rs, cur_alloc1 := None\<rparr> = c\<lparr>in1 := b\<rparr>"
    using assms by (cases c) simp
  then show ?thesis
    using requeue1_eq [of "taken_out w c t rs r b"] by (simp add: taken_out_def set_till_def set_conn_def)
qed

lemma cb1_empty: "tcp_recv_cb1 fuel lt react 0 (taken_out w c t rs r b) = requeue1 t (taken_out w c t rs r b)"
  by (simp add: tcp_recv_cb1_def taken_out_def)

lemma taken_out_requeued:
  assumes q: "quiet react" and w: "conn w = Some c" "cur_alloc1 c = None" "conn_reading w = Some Tcp_cb1" "tcp_uv_ok w"
    and "pend w c ((t, n, pat) # rs) x"
    and "till_ok n r" "pattern r = pat" "settled r b" "inbuf_ok b" "inroom b" "y = got r @ held b"
    and "length rs < fuel" "serve_spec ((t, n, pat) # rs) y = (ds, rs', z)"
  shows "\<exists>w'. res_bind (requeue1 t (taken_out w c t rs r b))
      (\<lambda>w. if conn w = None then Inr w else check_remaining Sock fuel lt react w) = Inr w' \<and> progress w ds rs' z w'"
proof -
  define w2 where "w2 = set_till t r (set_conn (c\<lparr>in1 := b\<rparr>) w)"
  have "recv_queue1 c = t # map fst rs"
    using assms(6) by (auto simp: pend_def)
  then have "requeue1 t (taken_out w c t rs r b) = Inr w2"
    using requeue_taken_out [OF w(2)] by (simp add: w2_def)
  moreover have "serve_spec ((t, n, pat) # rs) y = ([], (t, n, pat) # rs, y) \<and>
      (\<exists>w'. check_remaining Sock fuel lt react w2 = Inr w' \<and> progress w [] ((t, n, pat) # rs) y w')"
    by (rule read_waits [OF q w(1,2) assms(6) _ _ _ _ _ assms(7-13)]) (use w in \<open>simp_all add: w2_def\<close>)
  ultimately show ?thesis
    using assms(14) by (auto simp: w2_def)
qed

text \<open>A read for a request of a number of bytes goes straight to the user's buffer.\<close>

lemma cb1_fixed:
  assumes q: "quiet react" and w: "conn w = Some c" "cur_alloc1 c = None" "conn_reading w = Some Tcp_cb1" "tcp_uv_ok w"
    and p: "pend w c ((t, n, None) # rs) x" "first_settled w c"
    and r: "tills w t = Some r" "till_ok n r" "pattern r = None"
    and "length rs < fuel" "bytes \<noteq> []" "length bytes \<le> left r"
    and w1: "w1 = set_till t (r\<lparr>till_buf := blit (till_buf r) (cur r) bytes\<rparr>)
      (set_conn (c\<lparr>cur_alloc1 := Some t, recv_queue1 := map fst rs\<rparr>) w)"
    and spec: "serve_spec ((t, n, None) # rs) (x @ bytes) = (ds, rs', y)"
  shows "\<exists>w'. tcp_recv_cb1 fuel lt react (int (length bytes)) w1 = Inr w' \<and> progress w ds rs' y w'"
proof -
  define m where "m = length bytes"
  define bf where "bf = blit (till_buf r) (cur r) bytes"
  have n: "n = cur r + left r" "n \<le> length (till_buf r)" "user_len r = n" "0 < m" "m \<le> left r"
    using r(2) assms(12,13) by (auto simp: till_ok_def m_def)
  have queue: "inbuf_ok (in1 c)" "inroom (in1 c)" "len1 (in1 c) = 0" "x = got r" "held (in1 c) = []"
    using p r by (auto simp: pend_def first_settled_def has_till_def settled_def held_def)
  have bf: "take (cur r + m) bf = x @ bytes" "length bf = length (till_buf r)" "length (x @ bytes) = cur r + m"
    using take_blit [of "cur r" bytes "till_buf r"] n queue(4) r(2) by (auto simp: bf_def m_def got_def)
  have w1': "w1 = taken_out w c t rs (r\<lparr>till_buf := bf\<rparr>) (in1 c)"
    by (simp add: w1 bf_def taken_out_def)
  define r' where "r' = r\<lparr>till_buf := bf, cur := cur r + m, left := left r - m\<rparr>"
  have "set_till t r' w1 = taken_out w c t rs r' (in1 c)"
    by (simp add: w1' taken_out_def set_till_def)
  then have cb: "tcp_recv_cb1 fuel lt react (int m) w1 =
      res_bind (if m = left r then complete1 lt react t w1 else requeue1 t (taken_out w c t rs r' (in1 c)))
        (\<lambda>w. if conn w = None then Inr w else check_remaining Sock fuel lt react w)"
    using n(4,5) r(3) by (simp add: tcp_recv_cb1_def with_till_def w1' r'_def taken_out_def)
  show ?thesis
  proof (cases "m = left r")
    case True
    then have "taken n None (x @ bytes) = Some n" "n \<le> length (x @ bytes)" "held (in1 c) = drop n (x @ bytes)"
        "take n bf = take n (x @ bytes)"
      using bf n(1) queue(5) by (simp_all add: taken_def)
    then show ?thesis
      using taken_out_completes [OF q w p(1) queue(1,2), of "x @ bytes" n "r\<lparr>till_buf := bf\<rparr>"] assms(11) spec cb True n(3)
      by (simp add: m_def w1')
  next
    case False
    then have "till_ok n r'" "x @ bytes = got r' @ held (in1 c)" "settled r' (in1 c)"
      using r(2,3) n bf queue(3,5) by (auto simp: till_ok_def r'_def got_def settled_def)
    then show ?thesis
      using taken_out_requeued [OF q w p(1), of r' "in1 c" "x @ bytes"] queue(1,2) r(3) assms(11) spec cb False
      by (simp add: m_def r'_def)
  qed
qed

text \<open>A read for a request with a pattern goes to the connection's buffer first.\<close>

text \<open>The callback appends the bytes to the connection's buffer and asks the first request.\<close>

lemma cb1_asks:
  assumes "conn w = Some c" "tills w t = Some r" "till_ok n r" "pattern r = Some p" "settled r (in1 c)" "inbuf_ok (in1 c)"
    and bytes: "bytes \<noteq> []" "len1 b + length bytes \<le> length (buf1 b)"
    and b: "inbuf_ok b" "inroom b" "held b = held (in1 c)" "len1 b = len1 (in1 c)"
    and w1: "w1 = set_conn (c\<lparr>cur_alloc1 := Some t, recv_queue1 := map fst rs,
      in1 := b\<lparr>buf1 := blit (buf1 b) (len1 b) bytes\<rparr>\<rparr>) w"
  obtains b2 fin r' b' where "held b2 = held (in1 c) @ bytes" "inroom b2" "moved n r b2 (fin, r', b')"
    "tcp_recv_cb1 fuel lt react (int (length bytes)) w1 =
       res_bind (if fin then complete1 lt react t (taken_out w c t rs r' b') else requeue1 t (taken_out w c t rs r' b'))
         (\<lambda>w. if conn w = None then Inr w else check_remaining Sock fuel lt react w)"
proof -
  define b2 where "b2 = b\<lparr>buf1 := blit (buf1 b) (len1 b) bytes, len1 := len1 b + length bytes\<rparr>"
  have b2: "inbuf_ok b2" "inroom b2" "held b2 = held (in1 c) @ bytes" "0 < len1 b2"
    using b bytes take_blit [of "len1 b" bytes "buf1 b"] by (auto simp: b2_def inbuf_ok_def inroom_def held_def)
  let ?c = "c\<lparr>cur_alloc1 := Some t, recv_queue1 := map fst rs, in1 := b2\<rparr>"
  define w2 where "w2 = set_conn ?c w"
  have "has_till w2 (t, n, Some p) r" "clean r b2"
    using assms(2-4) settled_clean [OF assms(5,3,6) b2(3,1)] by (simp_all add: has_till_def w2_def)
  then obtain fin r' b' where m: "moved n r b2 (fin, r', b')" "till_remaining t w2 = Inr (fin, set_till t r'
      (set_conn (c\<lparr>cur_alloc1 := Some t, recv_queue1 := map fst rs, in1 := b'\<rparr>) w2))"
    using till_remaining_eq [of w2 ?c t n "Some p" r] b2 by (auto simp: w2_def)
  have "set_conn (c\<lparr>cur_alloc1 := Some t, recv_queue1 := map fst rs, in1 := b\<lparr>buf1 := blit (buf1 b) (len1 b) bytes,
      len1 := len1 b + length bytes\<rparr>\<rparr>) w1 = w2"
    by (simp add: w1 w2_def b2_def)
  then have "tcp_recv_cb1 fuel lt react (int (length bytes)) w1 =
      res_bind (if fin then complete1 lt react t (taken_out w c t rs r' b') else requeue1 t (taken_out w c t rs r' b'))
        (\<lambda>w. if conn w = None then Inr w else check_remaining Sock fuel lt react w)"
    using m(2) bytes le_diff_conv2 [of "len1 b" "length (buf1 b)" "length bytes"] assms(2,4)
    by (simp add: tcp_recv_cb1_def with_till_def w1 w2_def taken_out_def add.commute)
  then show thesis
    using that b2(2,3) m(1) by blast
qed

lemma cb1_pattern:
  assumes q: "quiet react" and w: "conn w = Some c" "cur_alloc1 c = None" "conn_reading w = Some Tcp_cb1" "tcp_uv_ok w"
    and p: "pend w c ((t, n, Some p) # rs) x" "first_settled w c"
    and r: "tills w t = Some r" "till_ok n r" "pattern r = Some p"
    and fuel: "length rs < fuel" and bytes: "bytes \<noteq> []" "len1 b + length bytes \<le> length (buf1 b)"
    and b: "inbuf_ok b" "inroom b" "held b = held (in1 c)" "len1 b = len1 (in1 c)"
    and w1: "w1 = set_conn (c\<lparr>cur_alloc1 := Some t, recv_queue1 := map fst rs,
      in1 := b\<lparr>buf1 := blit (buf1 b) (len1 b) bytes\<rparr>\<rparr>) w"
    and spec: "serve_spec ((t, n, Some p) # rs) (x @ bytes) = (ds, rs', y)"
  shows "\<exists>w'. tcp_recv_cb1 fuel lt react (int (length bytes)) w1 = Inr w' \<and> progress w ds rs' y w'"
proof -
  have queue: "recv_queue1 c = t # map fst rs" "inbuf_ok (in1 c)" "settled r (in1 c)" "x = got r @ held (in1 c)"
    using p r by (auto simp: pend_def first_settled_def has_till_def)
  obtain b2 fin r' b' where b2: "held b2 = held (in1 c) @ bytes" "inroom b2" and m: "moved n r b2 (fin, r', b')"
    and cb: "tcp_recv_cb1 fuel lt react (int (length bytes)) w1 =
      res_bind (if fin then complete1 lt react t (taken_out w c t rs r' b') else requeue1 t (taken_out w c t rs r' b'))
        (\<lambda>w. if conn w = None then Inr w else check_remaining Sock fuel lt react w)"
    by (rule cb1_asks [OF w(1) r queue(3,2) bytes b w1])
  have x: "got r @ held b2 = x @ bytes"
    using b2(1) queue(4) by simp
  show ?thesis
  proof (cases "taken n (Some p) (x @ bytes)")
    case None
    note m' = moved_None [OF m, unfolded r(3) x, OF None]
    show ?thesis
      using taken_out_requeued [OF q w p(1) m'(3,4,5,2) m'(7) [OF b2(2)] m'(6) [symmetric] fuel spec] cb m'(1) by simp
  next
    case (Some k)
    note m' = moved_Some [OF m, unfolded r(3) x, OF Some]
    have "k \<le> length (x @ bytes)"
      using taken_bound [OF Some] r(2,3) by (simp add: till_ok_def)
    then show ?thesis
      using taken_out_completes [OF q w p(1) m'(2) m'(6) [OF b2(2)] Some m'(5,3,4) _ fuel spec] cb m'(1) by simp
  qed
qed

lemma progress_refl:
  assumes "till_state w rs x"
  shows "progress w [] rs x w"
  using assms by (auto simp: progress_def after_def till_state_def)

lemma till_state_idle:
  assumes "till_state w ((t, n, pat) # rs) x"
  shows "serve_spec ((t, n, pat) # rs) x = ([], (t, n, pat) # rs, x)"
proof -
  obtain c r where c: "has_till w (t, n, pat) r" "settled r (in1 c)" "inbuf_ok (in1 c)"
      "x = got r @ held (in1 c)" "conn w = Some c"
    using assms by (auto simp: till_state_def pend_def first_settled_def has_till_def)
  then show ?thesis
    using settled_taken [OF c(2) _ c(3), of n] by (auto simp: has_till_def)
qed

text \<open>The block \<open>tcp_alloc_cb1\<close> offers for a pattern: \<open>buf1\<close>, allocated if need be.\<close>

definition grown :: "inbuf \<Rightarrow> inbuf" where
  "grown b = (if buf1 b = [] then b\<lparr>buf1 := replicate 1024 0\<rparr> else b)"

lemma grown_ok:
  assumes "inbuf_ok b" "inroom b"
  shows "inbuf_ok (grown b)" "inroom (grown b)" "held (grown b) = held b" "len1 (grown b) = len1 b"
    "1024 \<le> length (buf1 (grown b))" "length (buf1 (grown b)) < 2 ^ 32"
  using assms by (auto simp: grown_def inbuf_ok_def inroom_def held_def)

text \<open>A read is its callback, and every outcome of the specification has to be met by it.\<close>

lemma read_by_callback:
  assumes "tcp_read fuel lt getter lener react k (s, w) = res_bind cb (\<lambda>w. Inr (drop m s, w))" "0 < k \<longrightarrow> 0 < m"
    and "\<And>ds rs' y. serve_spec rs (x @ take m s) = (ds, rs', y) \<Longrightarrow> \<exists>w'. cb = Inr w' \<and> progress w ds rs' y w'"
  shows "\<exists>m w'. tcp_read fuel lt getter lener react k (s, w) = Inr (drop m s, w') \<and> (0 < k \<longrightarrow> 0 < m) \<and>
    (case serve_spec rs (x @ take m s) of (ds, rs', y) \<Rightarrow> progress w ds rs' y w')"
proof -
  obtain ds rs' y where spec: "serve_spec rs (x @ take m s) = (ds, rs', y)"
    by (rule prod_cases3)
  from assms(3) [OF this] obtain w' where "cb = Inr w'" "progress w ds rs' y w'"
    by blast
  then show ?thesis
    using assms(1,2) spec by (intro exI [of _ m] exI [of _ w']) simp
qed

lemma read_fixed:
  assumes q: "quiet react" and st: "till_state w ((t, n, None) # rs) x" and fuel: "length rs < fuel"
  shows "\<exists>m w'. tcp_read fuel lt getter lener react k (s, w) = Inr (drop m s, w') \<and>
    (0 < k \<longrightarrow> 0 < m) \<and>
    (case serve_spec ((t, n, None) # rs) (x @ take m s) of (ds, rs', y) \<Rightarrow> progress w ds rs' y w')"
proof -
  obtain c r where w: "conn w = Some c" "cur_alloc1 c = None" "conn_reading w = Some Tcp_cb1" "tcp_uv_ok w"
      "pend w c ((t, n, None) # rs) x" "first_settled w c"
    and r: "tills w t = Some r" "till_ok n r" "pattern r = None"
    using st by (auto simp: till_state_def pend_def has_till_def)
  have c: "recv_queue1 c = t # map fst rs" "len1 (in1 c) = 0" "left r < 2 ^ 32" "0 < left r"
      "cur r + left r \<le> length (till_buf r)"
    using w(5,6) r by (auto simp: pend_def first_settled_def settled_def valid_request_def till_ok_def)
  let ?c = "c\<lparr>cur_alloc1 := Some t, recv_queue1 := map fst rs\<rparr>"
  define m where "m = min k (left r)"
  define bytes where "bytes = take m s"
  define w1 where "w1 = set_till t (r\<lparr>till_buf := blit (till_buf r) (cur r) bytes\<rparr>) (set_conn ?c w)"
  have len: "length bytes \<le> left r"
    by (simp add: bytes_def m_def)
  have "tcp_alloc_cb Tcp_cb1 w = Inr (In_till t (cur r), left r, set_conn ?c w)"
    using w(1,2) c(1-3) r by (simp add: tcp_alloc_cb_def tcp_alloc_cb1_def with_till_def uv_buf_size_def)
  moreover have "tcp_fill (In_till t (cur r)) bytes (set_conn ?c w) = Inr w1"
    using r(1) c(5) len by (simp add: tcp_fill_def with_till_def w1_def)
  ultimately have read: "tcp_read fuel lt getter lener react k (s, w) =
      res_bind (tcp_recv_cb1 fuel lt react (int (length bytes)) w1) (\<lambda>w. Inr (drop m s, w))"
    using w(3) by (simp add: tcp_read_def tcp_recv_cb_def bytes_def m_def)
  have m: "0 < k \<longrightarrow> 0 < m"
    using c(4) by (simp add: m_def)
  show ?thesis
  proof (rule read_by_callback [OF read m])
    fix ds rs' y assume "serve_spec ((t, n, None) # rs) (x @ take m s) = (ds, rs', y)"
    then have spec: "serve_spec ((t, n, None) # rs) (x @ bytes) = (ds, rs', y)"
      by (simp only: bytes_def)
    show "\<exists>w'. tcp_recv_cb1 fuel lt react (int (length bytes)) w1 = Inr w' \<and> progress w ds rs' y w'"
    proof (cases "bytes = []")
      case True
      then have "w1 = taken_out w c t rs r (in1 c)"
        by (simp add: w1_def taken_out_def)
      moreover have "set_till t r (set_conn (c\<lparr>in1 := in1 c\<rparr>) w) = w"
        using r(1) w(1) by (simp add: set_till_def fun_upd_idem)
      ultimately have "tcp_recv_cb1 fuel lt react (int (length bytes)) w1 = Inr w"
        using True requeue_taken_out [OF w(2) c(1)] by (simp add: cb1_empty)
      then show ?thesis
        using True spec till_state_idle [OF st] progress_refl [OF st] by (simp del: serve_spec.simps)
    next
      case False
      then show ?thesis
        using cb1_fixed [OF q w r fuel False len w1_def spec] by blast
    qed
  qed
qed

lemma alloc_pattern:
  assumes "conn w = Some c" "cur_alloc1 c = None" "recv_queue1 c = t # ts" "tills w t = Some r" "pattern r = Some p"
    and "inbuf_ok (in1 c)" "inroom (in1 c)"
  defines "b \<equiv> grown (in1 c)"
  shows "tcp_alloc_cb Tcp_cb1 w = Inr (In_buf1 (len1 b), length (buf1 b) - len1 b,
    set_conn (c\<lparr>cur_alloc1 := Some t, recv_queue1 := ts, in1 := b\<rparr>) w)"
proof -
  have "c\<lparr>cur_alloc1 := Some t, recv_queue1 := ts, in1 := in1 c\<rparr> = c\<lparr>cur_alloc1 := Some t, recv_queue1 := ts\<rparr>"
    by (cases c) simp
  moreover have "uv_buf_size (length (buf1 b) - len1 b) = length (buf1 b) - len1 b"
    using grown_ok(6) [OF assms(6,7)] by (simp add: uv_buf_size_def less_imp_diff_less b_def)
  ultimately show ?thesis
    using assms(1-5)
    by (cases "buf1 (in1 c) = []")
      (simp_all add: tcp_alloc_cb_def tcp_alloc_cb1_def with_till_def b_def grown_def Let_def)
qed

text \<open>A read that brings nothing only makes room.\<close>

lemma till_state_grown:
  assumes "till_state w rs x" "conn w = Some c" "inbuf_ok (in1 c)" "inroom (in1 c)"
  shows "till_state (set_conn (c\<lparr>in1 := grown (in1 c)\<rparr>) w) rs x"
proof -
  let ?w = "set_conn (c\<lparr>in1 := grown (in1 c)\<rparr>) w"
  note b = grown_ok [OF assms(3,4)]
  have same: "clean r (grown (in1 c)) \<longleftrightarrow> clean r (in1 c)" "settled r (grown (in1 c)) \<longleftrightarrow> settled r (in1 c)" for r
    using b(3,4) by (simp_all add: clean_def settled_def split: option.splits)
  have "has_till ?w q r \<longleftrightarrow> has_till w q r" for q r
    by (rule has_till_same) simp
  then have "pend ?w (c\<lparr>in1 := grown (in1 c)\<rparr>) rs x \<longleftrightarrow> pend w c rs x"
    by (simp add: pend_def b(1-3) assms(3,4) same(1) split: list.split)
  moreover have "first_settled ?w (c\<lparr>in1 := grown (in1 c)\<rparr>) \<longleftrightarrow> first_settled w c"
    using same(2) by (simp add: first_settled_def split: list.splits option.splits)
  ultimately show ?thesis
    using assms(1,2) by (simp add: till_state_def)
qed

lemma read_pattern:
  assumes q: "quiet react" and st: "till_state w ((t, n, Some p) # rs) x" and fuel: "length rs < fuel"
  shows "\<exists>m w'. tcp_read fuel lt getter lener react k (s, w) = Inr (drop m s, w') \<and>
    (0 < k \<longrightarrow> 0 < m) \<and>
    (case serve_spec ((t, n, Some p) # rs) (x @ take m s) of (ds, rs', y) \<Rightarrow> progress w ds rs' y w')"
proof -
  obtain c r where w: "conn w = Some c" "cur_alloc1 c = None" "conn_reading w = Some Tcp_cb1" "tcp_uv_ok w"
      "pend w c ((t, n, Some p) # rs) x" "first_settled w c"
    and r: "tills w t = Some r" "till_ok n r" "pattern r = Some p"
    using st by (auto simp: till_state_def pend_def has_till_def)
  have c: "recv_queue1 c = t # map fst rs" "len1 (in1 c) < length p" "length p \<le> 1024"
      "inbuf_ok (in1 c)" "inroom (in1 c)"
    using w(5,6) r by (auto simp: pend_def first_settled_def settled_def valid_request_def)
  define b where "b = grown (in1 c)"
  note b = grown_ok [OF c(4,5), folded b_def]
  define m where "m = min k (length (buf1 b) - len1 b)"
  define bytes where "bytes = take m s"
  define w1 where "w1 = set_conn (c\<lparr>cur_alloc1 := Some t, recv_queue1 := map fst rs,
      in1 := b\<lparr>buf1 := blit (buf1 b) (len1 b) bytes\<rparr>\<rparr>) w"
  have len: "len1 b + length bytes \<le> length (buf1 b)"
    using b(1) by (auto simp: bytes_def m_def inbuf_ok_def)
  have read: "tcp_read fuel lt getter lener react k (s, w) =
      res_bind (tcp_recv_cb1 fuel lt react (int (length bytes)) w1) (\<lambda>w. Inr (drop m s, w))"
    using w(3) alloc_pattern [OF w(1,2) c(1) r(1,3) c(4,5), folded b_def] len
    by (simp add: tcp_read_def tcp_recv_cb_def tcp_fill_def w1_def bytes_def m_def)
  have m: "0 < k \<longrightarrow> 0 < m"
    using c(2,3) b(4,5) by (simp add: m_def)
  show ?thesis
  proof (rule read_by_callback [OF read m])
    fix ds rs' y assume "serve_spec ((t, n, Some p) # rs) (x @ take m s) = (ds, rs', y)"
    then have spec: "serve_spec ((t, n, Some p) # rs) (x @ bytes) = (ds, rs', y)"
      by (simp only: bytes_def)
    show "\<exists>w'. tcp_recv_cb1 fuel lt react (int (length bytes)) w1 = Inr w' \<and> progress w ds rs' y w'"
    proof (cases "bytes = []")
      case True
      have same: "set_till t r (set_conn d w) = set_conn d w" for d
        using r(1) by (simp add: set_till_def set_conn_def fun_upd_idem)
      then have "w1 = taken_out w c t rs r b"
        using True by (simp add: w1_def taken_out_def)
      then have "tcp_recv_cb1 fuel lt react (int (length bytes)) w1 = Inr (set_conn (c\<lparr>in1 := b\<rparr>) w)"
        using True same requeue_taken_out [OF w(2) c(1)] by (simp add: cb1_empty)
      moreover have "progress w [] ((t, n, Some p) # rs) x (set_conn (c\<lparr>in1 := b\<rparr>) w)"
        using till_state_grown [OF st w(1) c(4,5)] by (auto simp: progress_def after_def b_def)
      ultimately show ?thesis
        using True spec till_state_idle [OF st] by (simp del: serve_spec.simps)
    next
      case False
      then show ?thesis
        using cb1_pattern [OF q w r fuel False len b(1-4) w1_def spec] by blast
    qed
  qed
qed

lemma read_one:
  assumes "quiet react" "after w rs x" "length rs \<le> fuel" "0 < k" "rs \<noteq> []"
  shows "\<exists>m w' ds rs' y. tcp_read fuel lt getter lener react k (s, w) = Inr (drop m s, w') \<and> 0 < m \<and>
    serve_spec rs (x @ take m s) = (ds, rs', y) \<and> progress w ds rs' y w'"
proof -
  obtain t n pat rs1 where rs: "rs = (t, n, pat) # rs1"
    using assms(5) by (metis neq_Nil_conv prod_cases3)
  have st: "till_state w ((t, n, pat) # rs1) x" "length rs1 < fuel"
    using assms(2,3) rs by (simp_all add: after_def)
  have "\<exists>m w'. tcp_read fuel lt getter lener react k (s, w) = Inr (drop m s, w') \<and> (0 < k \<longrightarrow> 0 < m) \<and>
    (case serve_spec rs (x @ take m s) of (ds, rs', y) \<Rightarrow> progress w ds rs' y w')"
  proof (cases pat)
    case None
    show ?thesis
      unfolding rs None by (rule read_fixed [OF assms(1) st [unfolded None]])
  next
    case (Some p)
    show ?thesis
      unfolding rs Some by (rule read_pattern [OF assms(1) st [unfolded Some]])
  qed
  then obtain m w' where mw: "tcp_read fuel lt getter lener react k (s, w) = Inr (drop m s, w')" "0 < k \<longrightarrow> 0 < m"
      "case serve_spec rs (x @ take m s) of (ds, rs', y) \<Rightarrow> progress w ds rs' y w'"
    by (elim exE conjE)
  obtain ds rs' y where "serve_spec rs (x @ take m s) = (ds, rs', y)"
    by (rule prod_cases3)
  then show ?thesis
    using mw assms(4) by (intro exI [of _ m] exI [of _ w'] exI [of _ ds] exI [of _ rs'] exI [of _ y]) simp
qed

lemma after_valid: "after w rs x \<Longrightarrow> list_all valid_request rs \<and> distinct (map fst rs)"
  by (auto simp: after_def till_state_def pend_def split: if_splits)

lemma tcp_reads_stopped:
  "conn_reading w = None \<Longrightarrow> tcp_reads fuel lt getter lener react ks (s, w) = Inr (s, w)"
  by (induction ks) (simp_all add: tcp_read_def)

lemma after_idle: "after w rs x \<Longrightarrow> serve_spec rs x = ([], rs, x)"
  using till_state_idle by (cases rs) (auto simp: after_def simp del: serve_spec.simps(2))

lemma progress_trans:
  assumes "progress w ds rs y w1" "progress w1 ds' rs' y' w'" "distinct (map fst ds @ map fst rs)"
    and "map fst rs = map fst ds' @ map fst rs'"
  shows "progress w (ds @ ds') rs' y' w'"
proof (rule progress_after [OF assms(2)])
  have tids: "fst ` set rs = fst ` set ds' \<union> fst ` set rs'"
    using assms(4) by (metis image_set set_append)
  show "continued w1 = continued w @ map (\<lambda>(t, _). (t, success)) ds" "\<forall>(t, bs)\<in>set ds. delivered w1 t bs"
    using assms(1) by (auto simp: progress_def)
  show "tills w1 t = tills w t" if t: "t \<notin> fst ` set ds" "t \<notin> fst ` set ds'" "t \<notin> fst ` set rs'" for t
  proof -
    have "t \<notin> fst ` set rs"
      using t(2,3) tids by blast
    then show ?thesis
      using assms(1) t(1) unfolding progress_def by blast
  qed
  show "t \<notin> fst ` set ds' \<and> t \<notin> fst ` set rs'" if t: "(t, bs) \<in> set ds" for t bs
  proof -
    have "t \<in> fst ` set ds"
      using imageI [OF t, of fst] by simp
    moreover have "fst ` set ds \<inter> fst ` set rs = {}"
      using assms(3) by simp
    ultimately show ?thesis
      using tids by blast
  qed
qed

lemma reads_served:
  assumes "quiet react" "length rs \<le> fuel" "list_all ((<) 0) ks" "length s \<le> length ks" "after w rs x"
    "distinct (map fst rs)" "list_all valid_request rs"
  shows "\<exists>y s' w' ds rs' z. s = y @ s' \<and> tcp_reads fuel lt getter lener react ks (s, w) = Inr (s', w') \<and>
    (s' = [] \<or> rs' = []) \<and> serve_spec rs (x @ y) = (ds, rs', z) \<and> progress w ds rs' z w'"
  using assms(2-)
proof (induction ks arbitrary: s w rs x)
  case Nil
  then have "progress w [] rs x w"
    by (auto simp: progress_def)
  then show ?case
    using Nil(3) after_idle [OF Nil(4)]
    by - (rule exI [of _ "[]"], rule exI [of _ "[]"], rule exI [of _ w], rule exI [of _ "[]"],
      rule exI [of _ rs], rule exI [of _ x], simp)
next
  case (Cons k ks)
  show ?case
  proof (cases "rs = []")
    case True
    then have "conn_reading w = None" "progress w [] rs x w"
      using Cons.prems(4) by (auto simp: after_def progress_def)
    then show ?thesis
      using tcp_reads_stopped [of w fuel lt getter lener react "k # ks" s] True
      by - (rule exI [of _ "[]"], rule exI [of _ s], rule exI [of _ w], rule exI [of _ "[]"],
        rule exI [of _ rs], rule exI [of _ x], simp)
  next
    case False
    obtain m w1 ds1 rs1 y1 where r: "tcp_read fuel lt getter lener react k (s, w) = Inr (drop m s, w1)" "0 < m"
        "serve_spec rs (x @ take m s) = (ds1, rs1, y1)" "progress w ds1 rs1 y1 w1"
      using read_one [where lt = lt and getter = getter and lener = lener and s = s,
          OF assms(1) Cons.prems(4,1), of k] False Cons.prems(2) by auto
    have tids: "map fst rs = map fst ds1 @ map fst rs1"
      using serve_spec_tids [OF r(3)] .
    have a1: "after w1 rs1 y1" "list_all valid_request rs1"
      using r(4) serve_spec_valid [OF Cons.prems(6) r(3)] by (simp_all add: progress_def)
    have "length rs1 \<le> fuel" "distinct (map fst rs1)"
      using Cons.prems(1,5) tids by (auto dest: arg_cong [where f = length])
    moreover have "length (drop m s) \<le> length ks" "list_all ((<) 0) ks"
      using Cons.prems(2,3) r(2) by auto
    ultimately obtain y s' w' ds rs' z where ih: "drop m s = y @ s'"
        "tcp_reads fuel lt getter lener react ks (drop m s, w1) = Inr (s', w')" "s' = [] \<or> rs' = []"
        "serve_spec rs1 (y1 @ y) = (ds, rs', z)" "progress w1 ds rs' z w'"
      using Cons.IH [of rs1 "drop m s" w1 y1] a1 by blast
    have "serve_spec rs ((x @ take m s) @ y) = (ds1 @ ds, rs', z)"
      using serve_spec_append [OF Cons.prems(6) r(3), of y] ih(4) by simp
    moreover have "progress w (ds1 @ ds) rs' z w'"
      using progress_trans [OF r(4) ih(5)] Cons.prems(5) tids serve_spec_tids [OF ih(4)] by simp
    moreover have "s = (take m s @ y) @ s'"
      using ih(1) by (metis append_assoc append_take_drop_id)
    ultimately show ?thesis
      using ih(2,3) r(1)
      by - (rule exI [of _ "take m s @ y"], rule exI [of _ s'], rule exI [of _ w'], rule exI [of _ "ds1 @ ds"],
        rule exI [of _ rs'], rule exI [of _ z], simp)
  qed
qed


text \<open>A connection with one request, for everything up to a line end.\<close>

definition line_world :: "u32 tcp_world" where
  "line_world = packet_world\<lparr>conn := Some (new_connected\<lparr>tcp_mode := tcp_receiving_recv_till, recv_queue1 := [1]\<rparr>),
     conn_reading := Some Tcp_cb1,
     tills := [1 \<mapsto> \<lparr>till_ret = unfinished, till_buf = replicate 8 0, user_len = 8, pattern = Some [13, 10],
       cur = 0, left = 8\<rparr>]\<rparr>"

lemma line_world_state: "till_state line_world [(1, 8, Some [13, 10])] []"
proof -
  let ?c = "new_connected\<lparr>tcp_mode := tcp_receiving_recv_till, recv_queue1 := [1]\<rparr> :: u32 connected"
  let ?r = "\<lparr>till_ret = unfinished, till_buf = replicate 8 0, user_len = 8, pattern = Some [13, 10],
       cur = 0, left = 8\<rparr>"
  have "has_till line_world (1, 8, Some [13, 10]) ?r"
    by (simp add: has_till_def line_world_def till_ok_def)
  moreover have "first_end [13, 10] [] = None"
    by code_simp
  ultimately show ?thesis
    by (auto simp: till_state_def line_world_def packet_world_def pend_def new_connected_def inbuf_ok_def
        inroom_def valid_request_def fresh_clean got_def held_def first_settled_def settled_def)
qed


section \<open>Canceling a request\<close>



end
