(* ===== verification/Tcp_Loops.thy ===== *)
theory Tcp_Loops
  imports Tcp_Till
begin

text \<open>
  The loops of a TCP connection that run user code in between: \<open>check_remaining\<close> ends whatever the
  continued tasks do, because every round uses up bytes; \<open>break_all_recv\<close> tells every waiting
  task, if the connection has a sequencer.
\<close>

section \<open>Every round uses up bytes\<close>

text \<open>The bytes that were received and not yet given away: in the buffer or taken by a waiting request.\<close>

definition taken_by :: "'q tcp_world \<Rightarrow> tid \<Rightarrow> nat" where
  "taken_by w t = (case tills w t of None \<Rightarrow> 0 | Some r \<Rightarrow> cur r)"

definition bytes_kept :: "'q tcp_world \<Rightarrow> nat" where
  "bytes_kept w = (case conn w of
       None \<Rightarrow> 0
     | Some c \<Rightarrow> len1 (in1 c) + sum_list (map (taken_by w) (recv_queue1 c)))"

definition live_till :: "till \<Rightarrow> bool" where
  "live_till r \<longleftrightarrow> 0 < left r \<and> cur r \<le> length (till_buf r) \<and> pattern r \<noteq> Some []"

definition kept_ok :: "'q tcp_world \<Rightarrow> bool" where
  "kept_ok w \<longleftrightarrow> (\<forall>c. conn w = Some c \<longrightarrow> inbuf_ok (in1 c) \<and> distinct (recv_queue1 c) \<and>
     (\<forall>t\<in>set (recv_queue1 c). \<exists>r. tills w t = Some r \<and> live_till r))"

lemma length_blit_ge: "at \<le> length b \<Longrightarrow> at + length xs \<le> length (blit b at xs)"
  by (simp add: blit_def)

lemma drop_front_count:
  assumes "inbuf_ok b" "0 < k" "k \<le> len1 b"
  shows "inbuf_ok (drop_front k b) \<and> len1 (drop_front k b) < len1 b"
  using drop_front_held [OF assms(1,3)] assms(2,3) by simp

lemma live_till_part:
  assumes "live_till r" "inbuf_ok b" "k < left r" "k \<le> len1 b"
  shows "live_till ((copy_out k b r)\<lparr>left := left r - k, cur := cur r + k\<rparr>)"
  using assms length_blit_ge [of "cur r" "till_buf r" "take k (buf1 b)"]
  by (auto simp: live_till_def copy_out_def inbuf_ok_def)

lemma remaining_count:
  assumes "remaining r b = Inr (fin, r', b')" "live_till r" "inbuf_ok b"
  shows "inbuf_ok b' \<and> (if fin then len1 b' < len1 b
    else live_till r' \<and> cur r' + len1 b' = cur r + len1 b)"
proof -
  have pos: "0 < len1 b" "0 < left r" "pattern r \<noteq> Some []"
    using assms(1,2) by (auto simp: remaining_def check_eq_Inr live_till_def)
  note count = drop_front_count [OF assms(3)] and part = live_till_part [OF assms(2,3)]
  from pos(1,3) show ?thesis
  proof (cases rule: remaining_cases)
    case fill
    then show ?thesis
      using assms(1) count [OF pos(2)] by (simp add: remaining_fill_def)
  next
    case part: part
    then show ?thesis
      using assms(1,3) live_till_part [OF assms(2,3) part(2)] by (auto simp: inbuf_ok_def)
  next
    case short
    then show ?thesis
      using assms by auto
  next
    case (found p k)
    then have "k \<le> len1 b" "length p \<le> k"
      using assms(3) suffix_take_short [of p k "held b"] by (auto simp: first_end_Some)
    moreover from this have "0 < k"
      using found(2) by (cases p) simp_all
    ultimately show ?thesis
      using assms(1) found(4) count [of "left r"] count [of k] pos(2) by (auto simp: remaining_fill_def split: if_splits)
  next
    case (scanned p k)
    then show ?thesis
      using assms(1) count [OF pos(2)] part [of k] drop_front_held [OF assms(3) scanned(4)]
      by (auto simp: remaining_fill_def split: if_splits)
  qed
qed

section \<open>User code does not add bytes\<close>

definition no_more :: "'q tcp_world \<Rightarrow> 'q tcp_world \<Rightarrow> bool" where
  "no_more w w' \<longleftrightarrow> kept_ok w' \<and> bytes_kept w' \<le> bytes_kept w"

lemma no_more_same:
  assumes "kept_ok w" "conn w = Some c" "conn w' = Some c'" "recv_queue1 c' = recv_queue1 c"
    "in1 c' = in1 c" "tills w' = tills w"
  shows "no_more w w'"
proof -
  have "taken_by w' = taken_by w"
    using assms(6) by (simp add: taken_by_def fun_eq_iff)
  then show ?thesis
    using assms by (simp add: no_more_def kept_ok_def bytes_kept_def)
qed

lemma no_more_destroyed: "conn w' = None \<Longrightarrow> no_more w w'"
  by (simp add: no_more_def kept_ok_def bytes_kept_def)

lemma taken_by_set_till:
  "taken_by (set_till t r w) = (taken_by w)(t := cur r)" "taken_by (set_conn c w) = taken_by w"
  by (auto simp: taken_by_def fun_eq_iff)

lemma till_remaining_kept:
  assumes "till_remaining t w = Inr (fin, w')" "conn w = Some c" "inbuf_ok (in1 c)"
    and "tills w t = Some r" "live_till r"
  shows "\<exists>r' b'. w' = set_till t r' (set_conn (c\<lparr>in1 := b'\<rparr>) w) \<and> inbuf_ok b' \<and>
    (if fin then len1 b' < len1 (in1 c) else live_till r' \<and> cur r' + len1 b' = cur r + len1 (in1 c))"
proof -
  obtain r' b' where r': "remaining r (in1 c) = Inr (fin, r', b')" "w' = set_till t r' (set_conn (c\<lparr>in1 := b'\<rparr>) w)"
    using assms(1,2,4) by (auto simp: till_remaining_def tcp_inr)
  with remaining_count [OF r'(1) assms(5,3)] show ?thesis
    by blast
qed

lemma till_run_kept:
  assumes "till_run t w = Inr (fin, w')" "conn w = Some c" "kept_ok w" "t \<notin> set (recv_queue1 c)"
    and "tills w t = Some r" "live_till r" "cur r = 0"
  shows "no_more w w'"
proof -
  have ok: "inbuf_ok (in1 c)" "distinct (recv_queue1 c)"
    using assms(2,3) by (auto simp: kept_ok_def)
  obtain f1 w1 where w1: "(if len1 (in1 c) \<noteq> 0 \<and> recv_queue1 c = [] then till_remaining t w
      else Inr (False, w)) = Inr (f1, w1)"
    and rest: "(if f1 then Inr (True, set_till_ret t success w1)
       else with_conn w1 (\<lambda>c. check (tcp_mode c = tcp_receiving_ready \<or> tcp_mode c = tcp_receiving_recv_till)
         (res_bind (if tcp_mode c = tcp_receiving_ready
            then read_start Tcp_cb1 (set_conn (c\<lparr>tcp_mode := tcp_receiving_recv_till, async_cancel1 := True\<rparr>) w1)
            else Inr w1)
           (\<lambda>w. with_conn w (\<lambda>c. Inr (False, set_conn (c\<lparr>recv_queue1 := recv_queue1 c @ [t]\<rparr>) w)))))) = Inr (fin, w')"
    using assms(1,2) by (auto simp: till_run_def tcp_inr)
  have waits: "\<exists>c'. conn w' = Some c' \<and> recv_queue1 c' = recv_queue1 c1 @ [t] \<and> in1 c' = in1 c1 \<and> tills w' = tills w1"
    if "\<not> f1" "conn w1 = Some c1" for c1
    using rest that by (auto simp: tcp_inr read_start_def split: if_splits)
  show ?thesis
  proof (cases "len1 (in1 c) \<noteq> 0 \<and> recv_queue1 c = []")
    case True
    then obtain r' b' where r': "w1 = set_till t r' (set_conn (c\<lparr>in1 := b'\<rparr>) w)" "inbuf_ok b'"
        "if f1 then len1 b' < len1 (in1 c) else live_till r' \<and> cur r' + len1 b' = cur r + len1 (in1 c)"
      using till_remaining_kept [OF _ assms(2) ok(1) assms(5,6), of f1 w1] w1 by auto
    show ?thesis
    proof (cases f1)
      case f: True
      then have "conn w' = Some (c\<lparr>in1 := b'\<rparr>)"
        using rest r'(1) by auto
      then show ?thesis
        using True f r'(2,3) assms(2) by (simp add: no_more_def kept_ok_def bytes_kept_def)
    next
      case f: False
      then obtain c' where "conn w' = Some c'" "recv_queue1 c' = [t]" "in1 c' = b'" "tills w' t = Some r'"
        using waits [of "c\<lparr>in1 := b'\<rparr>"] r'(1) True by auto
      then show ?thesis
        using True f r'(2,3) assms(2,7) by (simp add: no_more_def kept_ok_def bytes_kept_def taken_by_def)
    qed
  next
    case False
    then have "w1 = w" "\<not> f1"
      using w1 by (auto split: if_splits)
    then obtain c' where c': "conn w' = Some c'" "recv_queue1 c' = recv_queue1 c @ [t]" "in1 c' = in1 c" "tills w' = tills w"
      using waits assms(2) by blast
    moreover have "taken_by w' = taken_by w" "taken_by w t = 0"
      using c'(4) assms(5,7) by (simp_all add: taken_by_def fun_eq_iff)
    ultimately show ?thesis
      using assms(2-6) by (auto simp: no_more_def kept_ok_def bytes_kept_def)
  qed
qed

lemma fall_back_ok:
  assumes "inbuf_ok b"
  shows "inbuf_ok (fall_back bs b)" "len1 (fall_back bs b) = len1 b + length bs"
  using assms by (auto simp: fall_back_def inbuf_ok_def Let_def blit_def)

lemma sum_list_remove1:
  fixes f :: "'a \<Rightarrow> nat"
  shows "t \<in> set ts \<Longrightarrow> f t + sum_list (map f (remove1 t ts)) = sum_list (map f ts)"
  by (induction ts) auto

lemma till_cancel_kept:
  assumes "till_cancel t w = Inr w'" "conn w = Some c" "kept_ok w"
  shows "no_more w w'"
proof -
  obtain r where r: "tills w t = Some r" "t \<in> set (recv_queue1 c)"
    using assms(1,2) by (auto simp: till_cancel_def tcp_inr split: if_splits)
  have ok: "inbuf_ok (in1 c)" "distinct (recv_queue1 c)" "live_till r"
    using assms(2,3) r by (auto simp: kept_ok_def)
  define b where "b = (if cur r \<noteq> 0 then fall_back (take (cur r) (till_buf r)) (in1 c) else in1 c)"
  have b: "inbuf_ok b" "len1 b = len1 (in1 c) + cur r"
    using fall_back_ok [OF ok(1)] ok by (auto simp: b_def live_till_def)
  obtain c' where c': "conn w' = Some c'" "recv_queue1 c' = remove1 t (recv_queue1 c)" "in1 c' = b" "tills w' = tills w"
    using assms(1,2) r by (auto simp: till_cancel_def tcp_inr Let_def b_def with_till_def split: if_splits)
  have "taken_by w' = taken_by w" "taken_by w t = cur r"
    using c'(4) r(1) by (simp_all add: taken_by_def fun_eq_iff)
  moreover have "\<exists>r. tills w s = Some r \<and> live_till r" if "s \<in> set (remove1 t (recv_queue1 c))" for s
    using assms(2,3) that by (auto simp: kept_ok_def dest: notin_set_remove1 [of s _ t, THEN contrapos_pp])
  ultimately show ?thesis
    using c' b ok(2) assms(2) sum_list_remove1 [OF r(2), of "taken_by w"]
    by (auto simp: no_more_def kept_ok_def bytes_kept_def)
qed

lemma new_till_kept:
  assumes "new_till t b n pat w = Inr w1" "kept_ok w" "\<not> still_waiting t w"
  shows "kept_ok w1" "bytes_kept w1 = bytes_kept w" "conn w1 = conn w"
    "\<exists>r. tills w1 t = Some r \<and> live_till r \<and> cur r = 0"
proof -
  obtain r where w1: "w1 = set_till t r w" and r: "live_till r" "cur r = 0"
    using assms(1) by (auto simp: new_till_def tcp_inr live_till_def split: option.splits)
  have t: "t \<notin> set (recv_queue1 c)" if "conn w = Some c" for c
    using assms(3) that by (simp add: still_waiting_def)
  show "conn w1 = conn w" "\<exists>r. tills w1 t = Some r \<and> live_till r \<and> cur r = 0"
    using w1 r by simp_all
  show "kept_ok w1"
    using assms(2) w1 t by (auto simp: kept_ok_def)
  have "map (taken_by w1) (recv_queue1 c) = map (taken_by w) (recv_queue1 c)" if "conn w = Some c" for c
    using t [OF that] w1 by (auto simp: taken_by_set_till)
  then show "bytes_kept w1 = bytes_kept w"
    using w1 by (simp add: bytes_kept_def del: map_eq_conv split: option.splits)
qed

lemma do_tcp_kept:
  assumes "do_tcp lt p w = Inr w'" "kept_ok w"
  shows "no_more w w'"
proof -
  obtain c where c: "conn w = Some c"
    using assms(1) do_tcp_destroyed by (cases "conn w") blast+
  note same = no_more_same [OF assms(2) c]
  show ?thesis
  proof (cases p)
    case (Tcp_recv t b n)
    then show ?thesis
      using assms(1) c by (auto intro!: same simp: new_tcp_recv_def tcp_recv_run_def tcp_inr read_start_def
          split: if_splits)
  next
    case (Tcp_recv_cancel t)
    then show ?thesis
      using assms(1) c by (auto intro!: same simp: tcp_recv_cancel_def read_stop_def tcp_inr Let_def
          split: if_splits)
  next
    case (Till t b n pat)
    then obtain w1 fin where w1: "\<not> still_waiting t w" "new_till t (Some b) n pat w = Inr w1" "till_run t w1 = Inr (fin, w')"
      using assms(1) by (auto simp: tcp_inr split: if_splits)
    note n = new_till_kept [OF w1(2) assms(2) w1(1)]
    have "t \<notin> set (recv_queue1 c)"
      using w1(1) c by (simp add: still_waiting_def)
    then show ?thesis
      using till_run_kept [OF w1(3) _ n(1)] n c by (auto simp: no_more_def)
  next
    case (Till_cancel t)
    then show ?thesis
      using till_cancel_kept assms c by auto
  next
    case (Tcp_seq t b n q)
    then show ?thesis
      using assms(1) c by (auto intro!: same simp: new_tcp_recv_def tcp_seq_run_def tcp_inr
          split: if_splits option.splits)
  next
    case (Tcp_seq_cancel q)
    then show ?thesis
      using assms(1) c by (auto intro!: same simp: tcp_seq_cancel_def split: option.splits)
  next
    case (Connect_cancel t)
    then show ?thesis
      using assms(1) c by (auto intro!: same simp: connect_cancel_def)
  next
    case Tcp_destroy
    then show ?thesis
      using assms(1) c by (auto intro!: no_more_destroyed simp: tcp_destroy_def check_eq_Inr)
  qed
qed

lemma do_tcps_kept: "do_tcps lt ps w = Inr w' \<Longrightarrow> kept_ok w \<Longrightarrow> no_more w w'"
proof (induction ps arbitrary: w)
  case (Cons p ps)
  then obtain w1 where w1: "do_tcp lt p w = Inr w1" "do_tcps lt ps w1 = Inr w'"
    by (auto simp: res_bind_eq_Inr)
  then show ?case
    using do_tcp_kept [OF w1(1) Cons.prems(2)] Cons.IH [OF w1(2)] by (simp add: no_more_def)
qed (simp add: no_more_def)

lemma tcp_stand_kept:
  assumes "tcp_stand lt react t e w = Inr w'" "kept_ok w"
  shows "no_more w w'"
proof -
  define w1 where "w1 = w\<lparr>continued := continued w @ [(t, e)]\<rparr>"
  have "taken_by w1 = taken_by w"
    by (simp add: w1_def taken_by_def fun_eq_iff)
  then have "kept_ok w1" "bytes_kept w1 = bytes_kept w"
    using assms(2) by (auto simp: w1_def kept_ok_def bytes_kept_def split: option.splits)
  moreover have "do_tcps lt (react t w1) w1 = Inr w'"
    using assms(1) by (simp add: tcp_stand_def w1_def Let_def)
  ultimately show ?thesis
    using do_tcps_kept by (fastforce simp: no_more_def)
qed

section \<open>Faults of user code\<close>

text \<open>No operation of user code diverges.\<close>

lemma diverges:
  "with_conn w k = Inl Diverges \<longleftrightarrow> (\<exists>c. conn w = Some c \<and> k c = Inl Diverges)"
  "with_till w t k' = Inl Diverges \<longleftrightarrow> (\<exists>r. tills w t = Some r \<and> k' r = Inl Diverges)"
  "check b x = Inl Diverges \<longleftrightarrow> b \<and> x = Inl Diverges"
  "res_bind y f = Inl Diverges \<longleftrightarrow> y = Inl Diverges \<or> (\<exists>z. y = Inr z \<and> f z = Inl Diverges)"
  by (auto simp: with_conn_def with_till_def check_def split: option.splits) (cases y; simp)+

lemma remaining_not: "remaining r b \<noteq> Inl Diverges"
  by (auto simp: remaining_def check_def Let_def split: option.splits)

lemma till_remaining_not: "till_remaining t w \<noteq> Inl Diverges"
  by (auto simp: till_remaining_def diverges remaining_not)

lemma do_tcp_not: "do_tcp lt p w \<noteq> Inl Diverges"
proof (cases p)
  case (Till t b n pat)
  have "till_run t w \<noteq> Inl Diverges" for w :: "'a tcp_world"
    by (auto simp: till_run_def till_remaining_not read_start_def diverges split: if_splits)
  then show ?thesis
    using Till by (auto simp: new_till_def diverges)
qed (auto simp: new_tcp_recv_def tcp_recv_run_def read_start_def tcp_recv_cancel_def read_stop_def Let_def
    till_cancel_def tcp_seq_run_def tcp_seq_cancel_def connect_cancel_def tcp_destroy_def diverges
    split: option.splits if_splits)

lemma tcp_stand_not: "tcp_stand lt react t e w \<noteq> Inl Diverges"
proof -
  have "do_tcps lt ps w \<noteq> Inl Diverges" for ps and w :: "'a tcp_world"
    by (induction ps arbitrary: w) (auto simp: do_tcp_not diverges)
  then show ?thesis
    by (simp add: tcp_stand_def Let_def)
qed

section \<open>Serving ends\<close>

text \<open>A request that was completed from the buffer leaves the connection with fewer bytes.\<close>

lemma served_kept:
  assumes "kept_ok w" "conn w = Some c" "recv_queue1 c = t # ts" "inbuf_ok b" "len1 b < len1 (in1 c)"
    and w2: "w2 = set_conn (c\<lparr>in1 := b, recv_queue1 := ts\<rparr>)
      (set_till_ret t success (set_till t r' (set_conn (c\<lparr>in1 := b\<rparr>) w)))"
  shows "kept_ok w2" "bytes_kept w2 < bytes_kept w"
proof -
  have "t \<notin> set ts"
    using assms(1-3) by (auto simp: kept_ok_def)
  then have same: "tills w2 s = tills w s" if "s \<in> set ts" for s
    using that by (cases "s = t") (auto simp: w2 set_till_ret_def)
  then show "kept_ok w2"
    using assms(1-4) by (auto simp: kept_ok_def w2)
  have "map (taken_by w2) ts = map (taken_by w) ts"
    using same by (simp add: taken_by_def)
  then show "bytes_kept w2 < bytes_kept w"
    using assms(2,3,5) by (simp add: bytes_kept_def w2 del: map_eq_conv)
qed

text \<open>
  C17: \<open>check_remaining\<close> ends, whatever the continued tasks do with the connection (wait again,
  cancel others, destroy it): as many rounds as there are bytes kept are enough, since a request
  is complete only with at least one byte and user code never adds any.
\<close>

theorem serving_ends:
  assumes "kept_ok w" "bytes_kept w \<le> fuel"
  shows "serve_waiting Sock fuel lt react w \<noteq> Inl Diverges"
  using assms
proof (induction fuel arbitrary: w)
  case 0
  then show ?case
    by (subst serve_waiting.simps)
      (auto simp: diverges bytes_kept_def split: list.splits)
next
  case (Suc fuel)
  show ?case
  proof
    assume d: "serve_waiting Sock (Suc fuel) lt react w = Inl Diverges"
    note d' = d [unfolded serve_waiting.simps [of Sock "Suc fuel" lt react w]]
    obtain c where c0: "conn w = Some c"
      using d' by (auto simp: diverges)
    obtain t ts where c1: "recv_queue1 c = t # ts"
      using d' c0 by (cases "recv_queue1 c") auto
    have c: "conn w = Some c" "recv_queue1 c = t # ts" "len1 (in1 c) \<noteq> 0"
      using d' c0 c1 by (simp_all split: if_splits)
    obtain r where r: "tills w t = Some r" "live_till r" "inbuf_ok (in1 c)" "t \<notin> set ts"
      using Suc.prems(1) c by (auto simp: kept_ok_def)
    obtain fin w1 where w1: "till_remaining t w = Inr (fin, w1)" "fin"
      using d' c by (auto simp: diverges till_remaining_not split: if_splits)
    obtain r' b where b: "w1 = set_till t r' (set_conn (c\<lparr>in1 := b\<rparr>) w)" "inbuf_ok b" "len1 b < len1 (in1 c)"
      using till_remaining_kept [OF w1(1) c(1) r(3,1,2)] w1(2) by auto
    define w2 where "w2 = set_conn (c\<lparr>in1 := b, recv_queue1 := ts\<rparr>) (set_till_ret t success w1)"
    obtain w3 where w3: "tcp_stand lt react t success w2 = Inr w3" "conn w3 \<noteq> None"
        "serve_waiting Sock fuel lt react w3 = Inl Diverges"
      using d' c b(1) w1 by (auto simp: diverges tcp_stand_not w2_def split: if_splits)
    have "kept_ok w2" "bytes_kept w2 < bytes_kept w"
      using served_kept [OF Suc.prems(1) c(1,2) b(2,3)] by (simp_all add: w2_def b(1))
    then have "kept_ok w3" "bytes_kept w3 \<le> fuel"
      using tcp_stand_kept [OF w3(1)] Suc.prems(2) by (simp_all add: no_more_def)
    then show False
      using Suc.IH w3(3) by blast
  qed
qed

theorem serving_ends_witness:
  "bytes_kept line_world = 0 \<and> serve_waiting Sock 0 less_u32 (\<lambda>t _. [Till t [0] 1 None]) line_world \<noteq> Inl Diverges"
proof -
  have k: "kept_ok line_world" "bytes_kept line_world = 0"
    by (simp_all add: kept_ok_def bytes_kept_def taken_by_def line_world_def new_connected_def inbuf_ok_def
        live_till_def)
  then show ?thesis
    using serving_ends [OF k(1)] by simp
qed

section \<open>Breaking off\<close>

definition told_all :: "tid list \<Rightarrow> int \<Rightarrow> 'q tcp_world \<Rightarrow> 'q tcp_world \<Rightarrow> bool" where
  "told_all ts e w w' \<longleftrightarrow> continued w' = continued w @ map (\<lambda>t. (t, e)) ts \<and> iter_dead w' = iter_dead w"

lemma next_of_Cons [simp]: "next_of t (t # ts) = first_of ts"
  by (simp add: first_of_def)

lemma break_queue0_quiet:
  assumes "quiet react" "conn w = Some c" "iter0 w = first_of (recv_queue0 c)" "\<not> iter_dead w"
    and "length (recv_queue0 c) \<le> fuel"
  shows "\<exists>w'. break_queue0 fuel lt react e w = Inr w' \<and> told_all (recv_queue0 c) e w w' \<and>
    conn w' = Some (c\<lparr>recv_queue0 := []\<rparr>)"
  using assms(2-)
proof (induction "recv_queue0 c" arbitrary: w c fuel)
  case Nil
  then have "c\<lparr>recv_queue0 := []\<rparr> = c"
    by (cases c) simp
  then show ?case
    using Nil by (subst break_queue0.simps) (auto simp: first_of_def told_all_def)
next
  case (Cons t ts)
  obtain fuel' where fuel: "fuel = Suc fuel'" "length ts \<le> fuel'"
    using Cons.hyps(2) [symmetric] Cons.prems(4) by (cases fuel) auto
  define w1 where "w1 = ((set_conn (c\<lparr>recv_queue0 := ts\<rparr>) (set_recv_ret t e w))\<lparr>iter0 := first_of ts\<rparr>)
    \<lparr>continued := continued w @ [(t, e)]\<rparr>"
  have step: "break_queue0 fuel lt react e w = break_queue0 fuel' lt react e w1"
    using Cons.hyps(2) [symmetric] Cons.prems fuel(1) stand_quiet [OF assms(1), of lt t e]
    by (subst break_queue0.simps) (simp add: first_of_def w1_def)
  have "\<exists>w'. break_queue0 fuel' lt react e w1 = Inr w' \<and> told_all ts e w1 w' \<and>
      conn w' = Some ((c\<lparr>recv_queue0 := ts\<rparr>)\<lparr>recv_queue0 := []\<rparr>)"
    using Cons.hyps(1) [of "c\<lparr>recv_queue0 := ts\<rparr>" w1 fuel'] Cons.prems(3) fuel(2) by (simp add: w1_def)
  then show ?case
    using step Cons.hyps(2) [symmetric] by (auto simp: told_all_def w1_def)
qed

lemma break_queue1_quiet:
  assumes "quiet react" "conn w = Some c" "iter1 w = first_of (recv_queue1 c)" "\<not> iter_dead w"
    and "length (recv_queue1 c) \<le> fuel"
  shows "\<exists>w'. break_queue1 fuel lt react e w = Inr w' \<and> told_all (recv_queue1 c) e w w' \<and>
    conn w' = Some (c\<lparr>recv_queue1 := []\<rparr>)"
  using assms(2-)
proof (induction "recv_queue1 c" arbitrary: w c fuel)
  case Nil
  then have "c\<lparr>recv_queue1 := []\<rparr> = c"
    by (cases c) simp
  then show ?case
    using Nil by (subst break_queue1.simps) (auto simp: first_of_def told_all_def)
next
  case (Cons t ts)
  obtain fuel' where fuel: "fuel = Suc fuel'" "length ts \<le> fuel'"
    using Cons.hyps(2) [symmetric] Cons.prems(4) by (cases fuel) auto
  define w1 where "w1 = ((set_conn (c\<lparr>recv_queue1 := ts\<rparr>) (set_till_ret t e w))\<lparr>iter1 := first_of ts\<rparr>)
    \<lparr>continued := continued w @ [(t, e)]\<rparr>"
  have step: "break_queue1 fuel lt react e w = break_queue1 fuel' lt react e w1"
    using Cons.hyps(2) [symmetric] Cons.prems fuel(1) stand_quiet [OF assms(1), of lt t e]
    by (subst break_queue1.simps) (simp add: first_of_def w1_def)
  have "\<exists>w'. break_queue1 fuel' lt react e w1 = Inr w' \<and> told_all ts e w1 w' \<and>
      conn w' = Some ((c\<lparr>recv_queue1 := ts\<rparr>)\<lparr>recv_queue1 := []\<rparr>)"
    using Cons.hyps(1) [of "c\<lparr>recv_queue1 := ts\<rparr>" w1 fuel'] Cons.prems(3) fuel(2) by (simp add: w1_def)
  then show ?case
    using step Cons.hyps(2) [symmetric] by (auto simp: told_all_def w1_def)
qed

text \<open>The map's iterator: nothing before it, since its elements are dropped from the front.\<close>

lemma drop_all_quiet:
  assumes "quiet react" "\<And>k. \<not> lt k k"
    and "conn w = Some c" "tcp_seqer c = Some s" "iter2 w = map_option fst (first_of (seq_mapping s))"
    and "\<not> iter_dead w" "length (seq_mapping s) \<le> fuel"
  shows "\<exists>w'. drop_all fuel lt react e w = Inr w' \<and> told_all (map snd (seq_mapping s)) e w w'"
  using assms(3-)
proof (induction "seq_mapping s" arbitrary: w c s fuel)
  case Nil
  then show ?case
    by (subst drop_all.simps) (auto simp: first_of_def told_all_def)
next
  case (Cons kt m)
  obtain k t where kt: "kt = (k, t)"
    by (cases kt)
  obtain fuel' where fuel: "fuel = Suc fuel'" "length m \<le> fuel'"
    using Cons.hyps(2) [symmetric] Cons.prems(5) by (cases fuel) auto
  define w1 where "w1 = ((set_conn (c\<lparr>tcp_seqer := Some (s\<lparr>seq_mapping := m\<rparr>)\<rparr>) (set_recv_ret t e w))
    \<lparr>iter2 := map_option fst (first_of m)\<rparr>)\<lparr>continued := continued w @ [(t, e)]\<rparr>"
  have step: "drop_all fuel lt react e w = drop_all fuel' lt react e w1"
    using Cons.hyps(2) [symmetric] Cons.prems fuel(1) assms(2) stand_quiet [OF assms(1), of lt t e] kt
    by (subst drop_all.simps) (simp add: first_of_def w1_def)
  have "\<exists>w'. drop_all fuel' lt react e w1 = Inr w' \<and> told_all (map snd m) e w1 w'"
    using Cons.hyps(1) [of "s\<lparr>seq_mapping := m\<rparr>" w1 "c\<lparr>tcp_seqer := Some (s\<lparr>seq_mapping := m\<rparr>)\<rparr>" fuel']
      Cons.prems(4) fuel(2) by (simp add: w1_def)
  then show ?case
    using step Cons.hyps(2) [symmetric] kt by (auto simp: told_all_def w1_def)
qed



text \<open>
  C25: a connection without a sequencer crashes when it breaks off: after the waiting tasks were
  told, \<open>break_all_recv\<close> calls \<open>drop_all\<close> through the null pointer \<open>seqer\<close>. So a lost peer ends the
  program, unless a continued task destroys the connection at once.
\<close>

theorem plain_connection_crashes_on_loss:
  assumes "quiet react" "conn w = Some c" "tcp_seqer c = None" "conn_reading w = Some Tcp_cb0"
    and "cur_alloc0 c = None" "recv_queue0 c = t # ts" "recv_queue1 c = []"
    and "tcp_recvs w t = Some r" "recv_buf r \<noteq> None" "recv_len r > 0"
  shows "tcp_lost fuel lt getter lener react w = Inl Null_pointer"
proof -
  define c1 where "c1 = c\<lparr>recv_queue0 := ts, broken := True, cur_alloc0 := None\<rparr>"
  define w1 where "w1 = (set_conn c1 (set_recv_ret t failure w))\<lparr>continued := continued w @ [(t, failure)]\<rparr>"
  have c1: "conn w1 = Some c1" "tcp_seqer c1 = None" "recv_queue1 c1 = []" "recv_queue0 c1 = ts"
    using assms(3,7) by (simp_all add: w1_def c1_def)
  obtain w2 where w2: "break_queue0 (length ts) lt react failure
        (w1\<lparr>iter0 := first_of ts, iter_dead := False\<rparr>) = Inr w2" "conn w2 = Some (c1\<lparr>recv_queue0 := []\<rparr>)"
    using break_queue0_quiet [OF assms(1), of "w1\<lparr>iter0 := first_of ts, iter_dead := False\<rparr>" c1 "length ts" lt failure]
      c1 by auto
  have "break_all_recv lt react failure w1 = Inl Null_pointer"
    using c1 w2 by (simp add: break_all_recv_def break_queue1.simps first_of_def)
  moreover have "tcp_lost fuel lt getter lener react w = break_all_recv lt react failure w1"
  proof -
    let ?c = "c\<lparr>cur_alloc0 := Some t, recv_queue0 := ts\<rparr>"
    have a: "tcp_alloc_cb0 w = Inr (In_recv t, uv_buf_size (recv_len r), set_conn ?c w)"
      using assms(2,5,6,8-10) by (simp add: tcp_alloc_cb0_def with_tcp_recv_def)
    have "set_recv_ret t failure (set_conn ?c w) = set_conn ?c (set_recv_ret t failure w)"
      using assms(8) by (simp add: set_recv_ret_def set_tcp_recv_def set_conn_def)
    then have "tcp_recv_cb0 lt react (-1) (set_conn ?c w) = break_all_recv lt react failure w1"
      using stand_quiet [OF assms(1), of lt t failure] by (simp add: tcp_recv_cb0_def w1_def c1_def)
    then show ?thesis
      using a assms(4) by (simp add: tcp_lost_def tcp_alloc_cb_def tcp_recv_cb_def)
  qed
  ultimately show ?thesis
    by simp
qed

theorem plain_connection_crashes_on_loss_witness:
  "tcp_lost 0 less_u32 second_byte first_byte_len (\<lambda>_ _. []) (packet_world\<lparr>conn := Some (new_connected
     \<lparr>tcp_mode := tcp_receiving_recv, recv_queue0 := [1]\<rparr>), conn_reading := Some Tcp_cb0,
     tcp_recvs := [1 \<mapsto> \<lparr>recv_ret = unfinished, recv_buf = Some [0, 0], recv_len = 2\<rparr>]\<rparr>) = Inl Null_pointer"
proof -
  let ?w = "packet_world\<lparr>conn := Some (new_connected\<lparr>tcp_mode := tcp_receiving_recv, recv_queue0 := [1]\<rparr>),
     conn_reading := Some Tcp_cb0, tcp_recvs := [1 \<mapsto> \<lparr>recv_ret = unfinished, recv_buf = Some [0, 0], recv_len = 2\<rparr>]\<rparr>"
  have "quiet (\<lambda>_ _. [] :: u32 tcp_op list)"
    by (simp add: quiet_def)
  from plain_connection_crashes_on_loss [OF this, of ?w _ 1 "[]" _ 0 less_u32 second_byte first_byte_len]
  show ?thesis
    by (simp add: new_connected_def)
qed

end
