(* ===== verification/Tcp_Listen.thy ===== *)
theory Tcp_Listen
  imports Ccf_Prelude
begin

text \<open>
  Listening sockets (\<open>src/tcp.cc\<close>, \<open>tcp::listening\<close> and \<open>tcp::accept\<close>). The world holds one
  listening socket, the \<open>accept\<close> objects (each with the \<open>connected\<close> object it is to fill) and what can be
  observed. Continued tasks may start and cancel further \<open>accept\<close>s: the argument \<open>react\<close>.
\<close>

section \<open>State\<close>

record listening =
  backlog :: int
  accepting :: bool
  accept_queue :: "tid list"

record accept =
  accept_ret :: int
  conn_established :: bool

datatype listen_answer = Listen_ok | Listen_in_use | Listen_failed

record accept_world =
  listener :: listening
  accepts :: "tid \<Rightarrow> accept option"
  accept_uv_ok :: bool
  accepted :: "tid list"
  turned_away :: nat

definition new_listening :: "int \<Rightarrow> listening res" where
  "new_listening n = check (n > 0) (Inr \<lparr>backlog = n, accepting = False, accept_queue = []\<rparr>)"

definition listening_bind :: "accept_world \<Rightarrow> accept_world res" where
  "listening_bind w = check (\<not> accepting (listener w)) (Inr w)"

section \<open>accept\<close>

definition new_accept :: "tid \<Rightarrow> accept_world \<Rightarrow> accept_world" where
  "new_accept t w = w\<lparr>accepts := (accepts w)(t \<mapsto> \<lparr>accept_ret = -1, conn_established = False\<rparr>)\<rparr>"

text \<open>The object is destroyed when its task has ended.\<close>

definition destroy_accept :: "tid \<Rightarrow> accept_world \<Rightarrow> accept_world" where
  "destroy_accept t w = w\<lparr>accepts := (accepts w)(t := None)\<rparr>"

text \<open>\<open>accept::run\<close>, with the answer of \<open>uv_listen\<close>; \<open>True\<close> when it returns without waiting.\<close>

definition accept_run :: "listen_answer \<Rightarrow> tid \<Rightarrow> accept_world \<Rightarrow> (bool \<times> accept_world) res" where
  "accept_run answer t w =
     (case accepts w t of
        None \<Rightarrow> Inl Use_after_free
      | Some a \<Rightarrow>
          (let l = listener w; w = w\<lparr>listener := l\<lparr>accept_queue := accept_queue l @ [t]\<rparr>\<rparr>
           in if accepting l then Inr (False, w)
              else
                (case answer of
                   Listen_in_use \<Rightarrow>
                     Inr (True, w\<lparr>accepts := (accepts w)(t \<mapsto> a\<lparr>accept_ret := -21\<rparr>)\<rparr>)
                 | Listen_failed \<Rightarrow> Inl Check_failed
                 | Listen_ok \<Rightarrow> Inr (False, w\<lparr>listener := (listener w)\<lparr>accepting := True\<rparr>\<rparr>))))"

definition accept_cancel :: "tid \<Rightarrow> accept_world \<Rightarrow> accept_world res" where
  "accept_cancel t w =
     (let l = listener w
      in if t \<in> set (accept_queue l)
         then Inr (w\<lparr>listener := l\<lparr>accept_queue := remove1 t (accept_queue l)\<rparr>\<rparr>)
         else Inl Use_after_free)"

datatype accept_op = Accept tid | Accept_cancel tid | Accept_destroy tid

definition do_accept :: "accept_op \<Rightarrow> accept_world \<Rightarrow> accept_world res" where
  "do_accept p w =
     (case p of
        Accept t \<Rightarrow> res_bind (accept_run Listen_ok t (new_accept t w)) (\<lambda>(_, w). Inr w)
      | Accept_cancel t \<Rightarrow> accept_cancel t w
      | Accept_destroy t \<Rightarrow> Inr (destroy_accept t w))"

fun do_accepts :: "accept_op list \<Rightarrow> accept_world \<Rightarrow> accept_world res" where
  "do_accepts [] w = Inr w"
| "do_accepts (p # ps) w = res_bind (do_accept p w) (do_accepts ps)"

text \<open>
  \<open>tcp_accept_cb\<close>: a connection goes to the first waiting task; with none waiting it is accepted and
  closed at once.
\<close>

definition tcp_accept_cb :: "(tid \<Rightarrow> accept_world \<Rightarrow> accept_op list) \<Rightarrow> int \<Rightarrow> accept_world \<Rightarrow> accept_world res" where
  "tcp_accept_cb react st w =
     check (st = 0)
       (case accept_queue (listener w) of
          [] \<Rightarrow> check (accept_uv_ok w) (Inr (w\<lparr>turned_away := turned_away w + 1\<rparr>))
        | t # ts \<Rightarrow>
            (case accepts w t of
               None \<Rightarrow> Inl Use_after_free
             | Some a \<Rightarrow>
                 check (\<not> conn_established a) (check (accept_uv_ok w)
                   (let w = w\<lparr>accepts := (accepts w)(t \<mapsto> a\<lparr>conn_established := True, accept_ret := 0\<rparr>),
                          listener := (listener w)\<lparr>accept_queue := ts\<rparr>, accepted := accepted w @ [t]\<rparr>
                    in do_accepts (react t w) w))))"

fun arrivals :: "(tid \<Rightarrow> accept_world \<Rightarrow> accept_op list) \<Rightarrow> nat \<Rightarrow> accept_world \<Rightarrow> accept_world res" where
  "arrivals react 0 w = Inr w"
| "arrivals react (Suc n) w = res_bind (tcp_accept_cb react 0 w) (arrivals react n)"

section \<open>Connections in order\<close>

definition accept_inv :: "accept_world \<Rightarrow> bool" where
  "accept_inv w \<longleftrightarrow> accept_uv_ok w \<and> distinct (accept_queue (listener w)) \<and>
     (\<forall>t\<in>set (accept_queue (listener w)). \<exists>a. accepts w t = Some a \<and> \<not> conn_established a)"


definition two_accepts :: accept_world where
  "two_accepts = \<lparr>listener = \<lparr>backlog = 64, accepting = True, accept_queue = [4, 5]\<rparr>,
     accepts = (\<lambda>_. Some \<lparr>accept_ret = -1, conn_established = False\<rparr>), accept_uv_ok = True, accepted = [],
     turned_away = 0\<rparr>"


text \<open>
  An \<open>accept\<close> that fails because the address is in use stays in the queue of the listening
  socket after its task has ended. When a later \<open>accept\<close> succeeds in listening, the first connection
  is given to the object that no longer exists.
\<close>

theorem failed_accept_stays_queued:
  assumes "\<not> accepting (listener w)" "accept_queue (listener w) = []"
  shows "\<exists>w1 w2. accept_run Listen_in_use t (new_accept t w) = Inr (True, w1) \<and>
    do_accepts [Accept_destroy t, Accept u] w1 = Inr w2 \<and>
    (t \<noteq> u \<longrightarrow> tcp_accept_cb react 0 w2 = Inl Use_after_free)"
  using assms
  by (simp add: accept_run_def new_accept_def destroy_accept_def do_accept_def tcp_accept_cb_def Let_def)

theorem failed_accept_stays_queued_witness:
  "\<exists>w1 w2. accept_run Listen_in_use 1 (new_accept 1 (two_accepts\<lparr>listener := \<lparr>backlog = 64, accepting = False,
       accept_queue = []\<rparr>\<rparr>)) = Inr (True, w1) \<and>
     do_accepts [Accept_destroy 1, Accept 2] w1 = Inr w2 \<and> tcp_accept_cb (\<lambda>_ _. []) 0 w2 = Inl Use_after_free"
  using failed_accept_stays_queued [of "two_accepts\<lparr>listener := \<lparr>backlog = 64, accepting = False,
       accept_queue = []\<rparr>\<rparr>" 1 2 "\<lambda>_ _. []"] by auto

end
