(* ===== verification/Waits.thy ===== *)
theory Waits
  imports Ccf_Prelude
begin

text \<open>
  The tasks that wait for one event of the event library: \<open>sleep\<close> (\<open>src/sleep.cc\<close>), \<open>sync\<close>
  (\<open>src/sync.cc\<close>) and \<open>getaddrinfo\<close> (\<open>src/getaddrinfo.cc\<close>). The first two own a handle while they
  wait, which must be closed exactly once, whether the task is continued or canceled.
\<close>

section \<open>One-shot handles\<close>

text \<open>
  What the two share: starting to wait opens a handle, the event and the cancelation close it.
  A history is a sequence of these; \<open>play\<close> runs it.
\<close>

datatype handle_event = Start tid | Event tid | Cancel tid

fun play ::
  "(tid \<Rightarrow> 's \<Rightarrow> 's res) \<Rightarrow> (tid \<Rightarrow> 's \<Rightarrow> 's res) \<Rightarrow> (tid \<Rightarrow> 's \<Rightarrow> 's res) \<Rightarrow> handle_event list \<Rightarrow> 's \<Rightarrow> 's res"
where
  "play start wake cancel [] s = Inr s"
| "play start wake cancel (Start t # es) s = res_bind (start t s) (play start wake cancel es)"
| "play start wake cancel (Event t # es) s = res_bind (wake t s) (play start wake cancel es)"
| "play start wake cancel (Cancel t # es) s = res_bind (cancel t s) (play start wake cancel es)"

locale oneshot =
  fixes start wake cancel :: "tid \<Rightarrow> 's \<Rightarrow> 's res"
    and open_handles :: "'s \<Rightarrow> tid set"
    and closed :: "'s \<Rightarrow> tid list"
    and inv :: "'s \<Rightarrow> bool"
  assumes start_opens: "inv s \<Longrightarrow> start t s = Inr s' \<Longrightarrow>
      inv s' \<and> t \<notin> open_handles s \<and> open_handles s' = insert t (open_handles s) \<and> closed s' = closed s"
    and wake_closes: "inv s \<Longrightarrow> wake t s = Inr s' \<Longrightarrow>
      inv s' \<and> t \<in> open_handles s \<and> open_handles s' = open_handles s - {t} \<and> closed s' = closed s @ [t]"
    and cancel_closes: "inv s \<Longrightarrow> cancel t s = Inr s' \<Longrightarrow>
      inv s' \<and> t \<in> open_handles s \<and> open_handles s' = open_handles s - {t} \<and> closed s' = closed s @ [t]"
begin

definition pending :: "tid \<Rightarrow> 's \<Rightarrow> nat" where
  "pending t s = (if t \<in> open_handles s then 1 else 0)"

lemma play_inv: "inv s \<Longrightarrow> play start wake cancel es s = Inr s' \<Longrightarrow> inv s'"
proof (induction es arbitrary: s)
  case (Cons e es)
  then show ?case
    by (cases e) (auto simp: res_bind_eq_Inr dest: start_opens wake_closes cancel_closes)
qed simp

text \<open>Every handle that was opened is closed exactly once or still open.\<close>

lemma handles_balance:
  "inv s \<Longrightarrow> play start wake cancel es s = Inr s' \<Longrightarrow>
     count_list es (Start t) + count_list (closed s) t + pending t s = count_list (closed s') t + pending t s'"
proof (induction es arbitrary: s)
  case (Cons e es)
  show ?case
  proof (cases e)
    case (Start u)
    with Cons.prems obtain s1 where s1: "start u s = Inr s1" "play start wake cancel es s1 = Inr s'"
      by (auto simp: res_bind_eq_Inr)
    from start_opens [OF Cons.prems(1) s1(1)] Cons.IH [of s1] s1(2) Start show ?thesis
      by (auto simp: pending_def split: if_splits)
  next
    case (Event u)
    with Cons.prems obtain s1 where s1: "wake u s = Inr s1" "play start wake cancel es s1 = Inr s'"
      by (auto simp: res_bind_eq_Inr)
    from wake_closes [OF Cons.prems(1) s1(1)] Cons.IH [of s1] s1(2) Event show ?thesis
      by (auto simp: pending_def split: if_splits)
  next
    case (Cancel u)
    with Cons.prems obtain s1 where s1: "cancel u s = Inr s1" "play start wake cancel es s1 = Inr s'"
      by (auto simp: res_bind_eq_Inr)
    from cancel_closes [OF Cons.prems(1) s1(1)] Cons.IH [of s1] s1(2) Cancel show ?thesis
      by (auto simp: pending_def split: if_splits)
  qed
qed simp

end

section \<open>sleep\<close>

text \<open>A sleeping task's timer; \<open>fired\<close> lists the continued tasks.\<close>

record sleep_state =
  timeouts :: "tid \<Rightarrow> u64"
  timers :: "tid \<Rightarrow> u64 option"
  timers_closed :: "tid list"
  fired :: "tid list"
  timer_ok :: bool

definition new_sleep :: "tid \<Rightarrow> u64 \<Rightarrow> sleep_state \<Rightarrow> sleep_state" where
  "new_sleep t n s = s\<lparr>timeouts := (timeouts s)(t := n)\<rparr>"

text \<open>\<open>run\<close> up to the switch. A task runs once: its timer is not there yet.\<close>

definition sleep_run :: "tid \<Rightarrow> sleep_state \<Rightarrow> sleep_state res" where
  "sleep_run t s =
     (if timers s t \<noteq> None then Inl Use_after_free
      else check (timer_ok s) (Inr (s\<lparr>timers := (timers s)(t \<mapsto> timeouts s t)\<rparr>)))"

definition close_timer :: "tid \<Rightarrow> sleep_state \<Rightarrow> sleep_state res" where
  "close_timer t s =
     (case timers s t of
        None \<Rightarrow> Inl Double_close
      | Some _ \<Rightarrow> Inr (s\<lparr>timers := (timers s)(t := None), timers_closed := timers_closed s @ [t]\<rparr>))"

text \<open>\<open>sleep_cb\<close> continues the task, which closes its timer.\<close>

definition sleep_cb :: "tid \<Rightarrow> sleep_state \<Rightarrow> sleep_state res" where
  "sleep_cb t s = res_bind (close_timer t s) (\<lambda>s. Inr (s\<lparr>fired := fired s @ [t]\<rparr>))"

definition sleep_cancel :: "tid \<Rightarrow> sleep_state \<Rightarrow> sleep_state res" where
  "sleep_cancel t s = close_timer t s"

interpretation sleeping: oneshot sleep_run sleep_cb sleep_cancel "\<lambda>s. dom (timers s)" timers_closed "\<lambda>_. True"
  by unfold_locales
    (auto simp: sleep_run_def sleep_cb_def sleep_cancel_def close_timer_def check_eq_Inr res_bind_eq_Inr
      split: if_splits option.splits)

section \<open>sync\<close>

text \<open>
  A \<open>sync\<close> object: its name, if it has one. \<open>asyncs\<close> are the tasks with \<open>async != NULL\<close>, \<open>signaled\<close>
  those whose handle was sent to.
\<close>

record sync_state =
  names :: "tid \<Rightarrow> int option"
  ids :: "int \<rightharpoonup> tid"
  asyncs :: "tid set"
  signaled :: "tid set"
  asyncs_closed :: "tid list"
  synced :: "tid list"
  async_ok :: bool

definition sync_run :: "tid \<Rightarrow> sync_state \<Rightarrow> sync_state res" where
  "sync_run t s =
     (if t \<in> asyncs s then Inl Use_after_free
      else res_bind
        (case names s t of
           None \<Rightarrow> Inr s
         | Some i \<Rightarrow> check (ids s i = None) (Inr (s\<lparr>ids := (ids s)(i \<mapsto> t)\<rparr>)))
        (\<lambda>s. check (async_ok s) (Inr (s\<lparr>asyncs := insert t (asyncs s)\<rparr>))))"

text \<open>The end of \<open>run\<close>, and \<open>cancel\<close>: the name is free again and the handle closed.\<close>

definition sync_leave :: "tid \<Rightarrow> sync_state \<Rightarrow> sync_state res" where
  "sync_leave t s =
     (if t \<notin> asyncs s then Inl Double_close
      else
        (let s = (case names s t of None \<Rightarrow> s | Some i \<Rightarrow> s\<lparr>ids := (ids s)(i := None)\<rparr>)
         in Inr (s\<lparr>asyncs := asyncs s - {t}, signaled := signaled s - {t},
              asyncs_closed := asyncs_closed s @ [t]\<rparr>)))"

definition sync_cancel :: "tid \<Rightarrow> sync_state \<Rightarrow> sync_state res" where
  "sync_cancel t s = sync_leave t s"

text \<open>\<open>sync_cb\<close> continues the task. The library calls it for a handle that was sent to.\<close>

definition sync_cb :: "tid \<Rightarrow> sync_state \<Rightarrow> sync_state res" where
  "sync_cb t s = res_bind (sync_leave t s) (\<lambda>s. Inr (s\<lparr>synced := synced s @ [t]\<rparr>))"

text \<open>\<open>notify\<close> on an object and on a name; the result \<open>-1\<close> is \<open>False\<close>.\<close>

definition notify :: "tid \<Rightarrow> sync_state \<Rightarrow> (bool \<times> sync_state) res" where
  "notify t s =
     (if t \<in> asyncs s then check (async_ok s) (Inr (True, s\<lparr>signaled := insert t (signaled s)\<rparr>))
      else Inr (False, s))"

definition notify_id :: "int \<Rightarrow> sync_state \<Rightarrow> (bool \<times> sync_state) res" where
  "notify_id i s =
     (case ids s i of
        None \<Rightarrow> Inr (False, s)
      | Some t \<Rightarrow> check (async_ok s) (Inr (True, s\<lparr>signaled := insert t (signaled s)\<rparr>)))"

text \<open>The names in use are exactly those of the waiting tasks.\<close>

definition sync_inv :: "sync_state \<Rightarrow> bool" where
  "sync_inv s \<longleftrightarrow> (\<forall>i t. ids s i = Some t \<longleftrightarrow> t \<in> asyncs s \<and> names s t = Some i) \<and> signaled s \<subseteq> asyncs s"

lemma sync_run_eq:
  assumes "sync_run t s = Inr s'"
  shows "t \<notin> asyncs s \<and> (\<forall>i. names s t = Some i \<longrightarrow> ids s i = None) \<and>
    s' = s\<lparr>ids := (case names s t of None \<Rightarrow> ids s | Some i \<Rightarrow> (ids s)(i \<mapsto> t)), asyncs := insert t (asyncs s)\<rparr>"
  using assms
  by (auto simp: sync_run_def res_bind_eq_Inr check_eq_Inr split: if_splits option.splits)

lemma sync_leave_eq:
  assumes "sync_leave t s = Inr s'"
  shows "t \<in> asyncs s \<and> s' = s\<lparr>ids := (case names s t of None \<Rightarrow> ids s | Some i \<Rightarrow> (ids s)(i := None)),
    asyncs := asyncs s - {t}, signaled := signaled s - {t}, asyncs_closed := asyncs_closed s @ [t]\<rparr>"
  using assms by (auto simp: sync_leave_def Let_def split: if_splits option.splits)

lemma sync_ids: "sync_inv s \<Longrightarrow> ids s i = Some t \<longleftrightarrow> t \<in> asyncs s \<and> names s t = Some i"
  by (simp add: sync_inv_def)

lemma sync_run_inv:
  assumes "sync_inv s" "sync_run t s = Inr s'"
  shows "sync_inv s'"
proof -
  note e = sync_run_eq [OF assms(2)]
  have "u \<noteq> t \<and> names s u \<noteq> Some i" if "names s t = Some i" "u \<in> asyncs s" for i u
    using e that sync_ids [OF assms(1), of i u] by auto
  moreover have "signaled s \<subseteq> asyncs s"
    using assms(1) by (simp add: sync_inv_def)
  ultimately show ?thesis
    using e sync_ids [OF assms(1)] by (cases "names s t") (auto simp: sync_inv_def)
qed

lemma sync_leave_inv:
  assumes "sync_inv s" "sync_leave t s = Inr s'"
  shows "sync_inv s'"
proof -
  note e = sync_leave_eq [OF assms(2)]
  have "ids s' i = Some u \<longleftrightarrow> u \<in> asyncs s' \<and> names s' u = Some i" for i u
  proof (cases "names s t = Some i")
    case True
    have "u = t" if "u \<in> asyncs s" "names s u = Some i"
      using sync_ids [OF assms(1), of i u] sync_ids [OF assms(1), of i t] True e that by simp
    then show ?thesis
      using True e by auto
  next
    case False
    then have "ids s' i = ids s i"
      using e by (cases "names s t") auto
    then show ?thesis
      using sync_ids [OF assms(1), of i u] False e by auto
  qed
  moreover have "signaled s' \<subseteq> asyncs s'"
    using e assms(1) by (auto simp: sync_inv_def)
  ultimately show ?thesis
    by (simp add: sync_inv_def)
qed

lemma sync_leave_closes:
  assumes "sync_inv s" "sync_leave t s = Inr s'"
  shows "sync_inv s' \<and> t \<in> asyncs s \<and> asyncs s' = asyncs s - {t} \<and> asyncs_closed s' = asyncs_closed s @ [t]"
  using sync_leave_inv [OF assms] sync_leave_eq [OF assms(2)] by simp

interpretation syncing: oneshot sync_run sync_cb sync_cancel asyncs asyncs_closed sync_inv
proof unfold_locales
  fix s t s'
  assume "sync_inv s" "sync_run t s = Inr s'"
  then show "sync_inv s' \<and> t \<notin> asyncs s \<and> asyncs s' = insert t (asyncs s) \<and> asyncs_closed s' = asyncs_closed s"
    using sync_run_eq [of t s s'] sync_run_inv [of s t s'] by simp
next
  fix s t s'
  assume s: "sync_inv s" "sync_cb t s = Inr s'"
  then obtain s1 where s1: "sync_leave t s = Inr s1" "s' = s1\<lparr>synced := synced s1 @ [t]\<rparr>"
    by (auto simp: sync_cb_def res_bind_eq_Inr)
  have "sync_inv s' \<longleftrightarrow> sync_inv s1"
    by (simp add: sync_inv_def s1(2))
  moreover have "asyncs s' = asyncs s1" "asyncs_closed s' = asyncs_closed s1"
    by (simp_all add: s1(2))
  ultimately show "sync_inv s' \<and> t \<in> asyncs s \<and> asyncs s' = asyncs s - {t} \<and> asyncs_closed s' = asyncs_closed s @ [t]"
    using sync_leave_closes [OF s(1) s1(1)] by metis
next
  fix s t s'
  assume "sync_inv s" "sync_cancel t s = Inr s'"
  then show "sync_inv s' \<and> t \<in> asyncs s \<and> asyncs s' = asyncs s - {t} \<and> asyncs_closed s' = asyncs_closed s @ [t]"
    using sync_leave_closes [of s t] unfolding sync_cancel_def by blast
qed


definition no_sleep :: sleep_state where
  "no_sleep = \<lparr>timeouts = (\<lambda>_. 10), timers = Map.empty, timers_closed = [], fired = [], timer_ok = True\<rparr>"

definition no_sync :: sync_state where
  "no_sync = \<lparr>names = [1 \<mapsto> 7, 2 \<mapsto> 7], ids = Map.empty, asyncs = {}, signaled = {}, asyncs_closed = [],
     synced = [], async_ok = True\<rparr>"




section \<open>getaddrinfo\<close>

text \<open>
  A request: the user's result and message pointers may be \<open>NULL\<close> (\<open>want_result\<close>, \<open>want_msg\<close>);
  \<open>data\<close> is the pointer to the task that the library's request carries. \<open>lists\<close> counts what becomes
  of the address lists the library allocates.
\<close>

record gai =
  gai_ret :: int
  want_result :: bool
  gai_result :: "nat option"
  want_msg :: bool
  gai_msg :: "string option"
  req_data :: bool
  in_flight :: bool
  freed :: "nat list"
  gai_continued :: bool

definition new_getaddrinfo :: "bool \<Rightarrow> bool \<Rightarrow> gai" where
  "new_getaddrinfo r m = \<lparr>gai_ret = -1, want_result = r, gai_result = None, want_msg = m, gai_msg = None,
     req_data = False, in_flight = False, freed = [], gai_continued = False\<rparr>"

text \<open>\<open>run\<close>, with the library's answer to the request and its last error: \<open>True\<close> when the task waits.\<close>

definition gai_run :: "int \<Rightarrow> string \<Rightarrow> gai \<Rightarrow> bool \<times> gai" where
  "gai_run st err g =
     (if st = 0 then (True, g\<lparr>req_data := True, in_flight := True\<rparr>)
      else (False, g\<lparr>gai_ret := st, gai_msg := (if want_msg g then Some err else gai_msg g)\<rparr>))"

definition gai_cancel :: "gai \<Rightarrow> gai" where
  "gai_cancel g = g\<lparr>gai_msg := (if want_msg g then Some ''It was canceled'' else gai_msg g), req_data := False\<rparr>"

definition uv_free :: "nat option \<Rightarrow> gai \<Rightarrow> gai" where
  "uv_free res g = (case res of None \<Rightarrow> g | Some l \<Rightarrow> g\<lparr>freed := freed g @ [l]\<rparr>)"

definition getaddrinfo_cb :: "int \<Rightarrow> string \<Rightarrow> nat option \<Rightarrow> gai \<Rightarrow> gai res" where
  "getaddrinfo_cb st err res g =
     (let g = g\<lparr>in_flight := False\<rparr>
      in if st = 0 then
           Inr (if req_data g
             then (if want_result g then g\<lparr>gai_result := res\<rparr> else uv_free res g)
               \<lparr>gai_ret := 0, gai_continued := True\<rparr>
             else uv_free res g)
         else check (res = None)
           (Inr (if req_data g
             then g\<lparr>gai_ret := st, gai_msg := (if want_msg g then Some err else gai_msg g), gai_continued := True\<rparr>
             else g)))"

text \<open>
  C21: a resolved address list is handed over or freed, never both and never neither: the task gets
  it, with \<open>ret = 0\<close>, if it asked for it and still waits; otherwise the list is freed. A canceled
  task is not continued and its variables are not written any more.
\<close>

theorem resolved_list_has_one_owner:
  assumes "gai_run 0 err g = (True, g1)" "gai_result g = None" "freed g = []"
    and "g2 = (if canceled then gai_cancel g1 else g1)" "getaddrinfo_cb 0 err' (Some l) g2 = Inr g'"
  shows "(if \<not> canceled \<and> want_result g then gai_result g' = Some l \<and> freed g' = []
     else gai_result g' = None \<and> freed g' = [l]) \<and>
    (if canceled then gai_continued g' = gai_continued g \<and> gai_ret g' = gai_ret g
     else gai_continued g' \<and> gai_ret g' = 0)"
  using assms by (auto simp: gai_run_def gai_cancel_def getaddrinfo_cb_def uv_free_def Let_def)

theorem resolved_list_has_one_owner_witness:
  "\<exists>g'. getaddrinfo_cb 0 [] (Some 4) (gai_cancel (snd (gai_run 0 [] (new_getaddrinfo True False)))) = Inr g' \<and>
     freed g' = [4] \<and> \<not> gai_continued g'"
proof -
  let ?g = "new_getaddrinfo True False"
  obtain g1 where g1: "gai_run 0 [] ?g = (True, g1)"
    by (simp add: gai_run_def)
  obtain g' where g': "getaddrinfo_cb 0 [] (Some 4) (gai_cancel g1) = Inr g'"
    by (simp add: getaddrinfo_cb_def Let_def)
  from resolved_list_has_one_owner [OF g1, of "gai_cancel g1" True "[]" 4 g'] show ?thesis
    using g' g1 by (simp add: new_getaddrinfo_def)
qed

end
