(* ===== verification/Combinators.thy ===== *)
theory Combinators
  imports Scheduler
begin

text \<open>
  How \<open>all_of\<close> and \<open>any_of\<close> keep their children (\<open>include/cocoflow.h\<close>, \<open>src/cocoflow.cc\<close>). The constructors for
  two to six tasks store them in the object's own array; the constructor for an array keeps
  the user's pointer. The scheduler's model gives a combinator the list of its children: the list is what the
  loops over \<open>children[i]\<close> see.
\<close>

datatype children_ptr = Own_array | User_array "tid list"

record all_of_obj =
  num :: nat
  children :: children_ptr
  own_children :: "tid option list"

record any_of_obj = all_of_obj +
  who :: int

definition store_children :: "tid list \<Rightarrow> tid option list" where
  "store_children ts = foldl (\<lambda>a (i, t). a[i := Some t]) (replicate 6 None) (enumerate 0 ts)"

text \<open>The overloads for two to six targets.\<close>

definition all_of_targets :: "tid list \<Rightarrow> all_of_obj" where
  "all_of_targets ts = \<lparr>num = length ts, children = Own_array, own_children = store_children ts\<rparr>"

definition any_of_targets :: "tid list \<Rightarrow> any_of_obj" where
  "any_of_targets ts = \<lparr>num = length ts, children = Own_array, own_children = store_children ts, who = -1\<rparr>"

definition all_of_array :: "tid list \<Rightarrow> nat \<Rightarrow> all_of_obj res" where
  "all_of_array targets n =
     check (n \<noteq> 0) (Inr \<lparr>num = n, children = User_array targets, own_children = replicate 6 None\<rparr>)"

definition any_of_array :: "tid list \<Rightarrow> nat \<Rightarrow> any_of_obj res" where
  "any_of_array targets n =
     check (n \<noteq> 0) (Inr \<lparr>num = n, children = User_array targets, own_children = replicate 6 None, who = -1\<rparr>)"

definition who_completed :: "tid \<Rightarrow> machine \<Rightarrow> int res" where
  "who_completed t m = with_task m t (\<lambda>x. Inr (completed_id x))"

text \<open>What \<open>children[i]\<close> reads.\<close>

definition child_at :: "'a all_of_obj_scheme \<Rightarrow> nat \<Rightarrow> tid res" where
  "child_at c i =
     (case children c of
        Own_array \<Rightarrow>
          if i < length (own_children c)
          then (case own_children c ! i of None \<Rightarrow> Inl Null_pointer | Some t \<Rightarrow> Inr t)
          else Inl Out_of_bounds
      | User_array ts \<Rightarrow> if i < length ts then Inr (ts ! i) else Inl Out_of_bounds)"

fun children_from :: "'a all_of_obj_scheme \<Rightarrow> nat \<Rightarrow> nat \<Rightarrow> tid list res" where
  "children_from c i 0 = Inr []"
| "children_from c i (Suc n) = res_bind (child_at c i) (\<lambda>t. res_bind (children_from c (i + 1) n) (\<lambda>ts. Inr (t # ts)))"

definition children_seen :: "'a all_of_obj_scheme \<Rightarrow> tid list res" where
  "children_seen c = children_from c 0 (num c)"

lemma store_from:
  "k + length ts \<le> length a \<Longrightarrow>
    foldl (\<lambda>a (i, t). a[i := Some t]) a (enumerate k ts) = take k a @ map Some ts @ drop (k + length ts) a"
proof (induction ts arbitrary: k a)
  case (Cons t ts)
  have "take (Suc k) (a[k := Some t]) = take k a @ [Some t]" "drop (Suc k) (a[k := Some t]) = drop (Suc k) a"
    using Cons.prems by (simp_all add: take_Suc_conv_app_nth)
  then show ?case
    using Cons.prems Cons.IH [of "Suc k" "a[k := Some t]"] by (simp add: drop_update_cancel)
qed simp

lemma store_children_eq: "length ts \<le> 6 \<Longrightarrow> store_children ts = map Some ts @ replicate (6 - length ts) None"
  using store_from [of 0 ts "replicate 6 None"] by (simp add: store_children_def)

lemma children_from_eq:
  assumes "\<And>j. j < length ts \<Longrightarrow> child_at c (i + j) = Inr (ts ! j)"
  shows "children_from c i (length ts) = Inr ts"
  using assms
proof (induction ts arbitrary: i)
  case (Cons t ts)
  have "child_at c (Suc i + j) = Inr (ts ! j)" if "j < length ts" for j
    using Cons.prems [of "Suc j"] that by simp
  then show ?case
    using Cons.IH [of "Suc i"] Cons.prems [of 0] by simp
qed simp

text \<open>
  Each constructor gives the loops the children the user named, as long as a user's array is as long as the user
  says; a shorter one is read past its end.
\<close>

lemma children_of_targets:
  assumes "length ts \<le> 6"
  shows "children_seen (all_of_targets ts) = Inr ts" "children_seen (any_of_targets ts) = Inr ts"
  using assms
  by (simp_all add: children_seen_def all_of_targets_def any_of_targets_def children_from_eq child_at_def
      store_children_eq nth_append)

lemma children_from_array:
  assumes "children c = User_array ts" "n \<le> length ts"
  shows "children_from c 0 n = Inr (take n ts)"
  using children_from_eq [of "take n ts" c 0] assms by (simp add: child_at_def min_absorb2)

lemma children_of_array:
  assumes "n \<noteq> 0" "n \<le> length ts"
  shows "\<exists>c. all_of_array ts n = Inr c \<and> children_seen c = Inr (take n ts)"
    "\<exists>c. any_of_array ts n = Inr c \<and> children_seen c = Inr (take n ts)"
  using assms by (simp_all add: all_of_array_def any_of_array_def children_seen_def children_from_array)

lemma short_array_overrun:
  assumes "length ts < n" "children c = User_array ts" "i \<le> length ts"
  shows "children_from c i (n - i) = Inl Out_of_bounds"
  using assms
proof (induction "n - i" arbitrary: i)
  case (Suc k)
  show ?case
  proof (cases "i = length ts")
    case False
    have k: "k = n - (i + 1)"
      using Suc.hyps(2) by simp
    have "children_from c (i + 1) k = Inl Out_of_bounds"
      using Suc.hyps(1) [OF k] Suc.prems False k by simp
    then show ?thesis
      using Suc.hyps(2) Suc.prems False by (simp add: child_at_def flip: Suc.hyps(2))
  next
    case True
    then show ?thesis
      unfolding Suc.hyps(2) [symmetric] by (simp add: child_at_def Suc.prems(2))
  qed
qed simp

end
