(* ===== verification/Seq_Types.thy ===== *)
theory Seq_Types
  imports Ccf_Prelude
begin

text \<open>
  The check of sequence types. A receiver by sequence is a template over the type of the sequence and casts
  what the handle's sequencer has to that type. Its constructor (\<open>udp::recv_by_seq\<close>,
  \<open>tcp::recv_by_seq\<close> in \<open>include/cocoflow.h\<close>) compares the types, once for a handle: the addresses of the handles
  that passed are kept in a static set, one for each type.
\<close>

type_synonym seq_type = nat

text \<open>
  The handles at their addresses with the type their sequencer was bound with, if any, and the sets
  \<open>type_check\<close>.
\<close>

record typed_handles =
  seqer_types :: "nat \<Rightarrow> seq_type option option"
  type_check :: "seq_type \<Rightarrow> nat set"

definition no_handles :: typed_handles where
  "no_handles = \<lparr>seqer_types = (\<lambda>_. None), type_check = (\<lambda>_. {})\<rparr>"

text \<open>\<open>check_type_for_udp\<close> and \<open>check_type_for_tcp\<close>: the dynamic cast succeeds for the type of the sequencer.\<close>

definition check_type :: "seq_type \<Rightarrow> seq_type \<Rightarrow> bool" where
  "check_type own other \<longleftrightarrow> own = other"

definition recv_by_seq_ctor :: "nat \<Rightarrow> seq_type \<Rightarrow> typed_handles \<Rightarrow> typed_handles res" where
  "recv_by_seq_ctor h ty w =
     (if h \<notin> type_check w ty then
        (case seqer_types w h of
           None \<Rightarrow> Inl Use_after_free
         | Some None \<Rightarrow> Inl Null_pointer
         | Some (Some own) \<Rightarrow>
             if check_type own ty then Inr (w\<lparr>type_check := (type_check w)(ty := insert h (type_check w ty))\<rparr>)
             else Inl (Fatal ''Check seq type failed in udp::recv_by_seq<SeqType>''))
      else Inr w)"

text \<open>A handle is constructed, bound to a type unless it is already, and destroyed.\<close>

datatype type_op = Make nat | Bind nat seq_type | Delete nat | Receiver nat seq_type

fun handle_op :: "type_op \<Rightarrow> typed_handles \<Rightarrow> typed_handles res" where
  "handle_op (Make h) w = Inr (w\<lparr>seqer_types := (seqer_types w)(h \<mapsto> None)\<rparr>)"
| "handle_op (Bind h ty) w =
     Inr (if seqer_types w h = Some None then w\<lparr>seqer_types := (seqer_types w)(h \<mapsto> Some ty)\<rparr> else w)"
| "handle_op (Delete h) w = Inr (w\<lparr>seqer_types := (seqer_types w)(h := None)\<rparr>)"
| "handle_op (Receiver h ty) w = recv_by_seq_ctor h ty w"

fun handle_ops :: "type_op list \<Rightarrow> typed_handles \<Rightarrow> typed_handles res" where
  "handle_ops [] w = Inr w"
| "handle_ops (p # ps) w = res_bind (handle_op p w) (handle_ops ps)"

text \<open>
  The check is sound as long as no address is used for a second handle: a receiver that is constructed on a
  handle that exists has the type of its sequencer.
\<close>

definition made :: "type_op list \<Rightarrow> nat list" where
  "made ps = concat (map (\<lambda>p. case p of Make h \<Rightarrow> [h] | _ \<Rightarrow> []) ps)"

definition fits :: "typed_handles \<Rightarrow> nat \<Rightarrow> seq_type \<Rightarrow> bool" where
  "fits w h ty \<longleftrightarrow> (case seqer_types w h of None \<Rightarrow> True | Some own \<Rightarrow> own = Some ty)"

definition types_ok :: "nat set \<Rightarrow> typed_handles \<Rightarrow> bool" where
  "types_ok used w \<longleftrightarrow> (\<forall>ty. type_check w ty \<subseteq> used \<inter> {h. fits w h ty}) \<and> dom (seqer_types w) \<subseteq> used"

lemma types_ok_receiver:
  assumes "types_ok used w" "recv_by_seq_ctor h ty w = Inr w'"
  shows "types_ok used w'" "fits w h ty"
proof -
  show "fits w h ty"
    using assms by (auto simp: types_ok_def recv_by_seq_ctor_def check_type_def fits_def split: if_splits option.splits)
  show "types_ok used w'"
  proof (cases "h \<in> type_check w ty")
    case False
    then have own: "seqer_types w h = Some (Some ty)"
      and w': "w' = w\<lparr>type_check := (type_check w)(ty := insert h (type_check w ty))\<rparr>"
      using assms(2) by (auto simp: recv_by_seq_ctor_def check_type_def split: if_splits option.splits)
    have "fits w' = fits w" "h \<in> used" "fits w h ty"
      using own assms(1) by (auto simp: fits_def [abs_def] w' types_ok_def)
    then show ?thesis
      using assms(1) by (auto simp: types_ok_def w')
  qed (use assms in \<open>simp add: recv_by_seq_ctor_def\<close>)
qed

text \<open>A change at one address, where no receiver has passed the check or the handle is gone.\<close>

lemma types_ok_update:
  assumes "types_ok used w" "x = None \<or> (\<forall>ty. h \<notin> type_check w ty)"
  shows "types_ok (insert h used) (w\<lparr>seqer_types := (seqer_types w)(h := x)\<rparr>)"
proof -
  have "fits (w\<lparr>seqer_types := (seqer_types w)(h := x)\<rparr>) k ty" if "k \<in> type_check w ty" for k ty
    using assms that by (cases "k = h") (auto simp: fits_def types_ok_def)
  then show ?thesis
    using assms(1) by (auto simp: types_ok_def split: if_splits)
qed

lemma types_ok_op:
  assumes "types_ok used w" "handle_op p w = Inr w'" "\<And>h. p = Make h \<Longrightarrow> h \<notin> used"
  shows "types_ok (used \<union> set (made [p])) w'"
proof (cases p)
  case (Make h)
  then have "\<forall>ty. h \<notin> type_check w ty"
    using assms(1,3) by (auto simp: types_ok_def)
  then show ?thesis
    using types_ok_update [OF assms(1), of "Some None" h] assms(2) Make by (auto simp: made_def)
next
  case (Bind h ty)
  show ?thesis
  proof (cases "seqer_types w h = Some None")
    case True
    then have "\<not> fits w h ty'" for ty'
      by (simp add: fits_def)
    then have "\<forall>ty. h \<notin> type_check w ty" "h \<in> used"
      using assms(1) True by (auto simp: types_ok_def)
    then show ?thesis
      using types_ok_update [OF assms(1), of "Some (Some ty)" h] assms(2) Bind True by (auto simp: made_def insert_absorb)
  qed (use assms(1,2) Bind in \<open>auto simp: made_def\<close>)
next
  case (Delete h)
  have "h \<in> used \<or> (seqer_types w)(h := None) = seqer_types w"
    using assms(1) by (cases "seqer_types w h") (auto simp: types_ok_def)
  then show ?thesis
    using types_ok_update [OF assms(1), of None h] assms(1,2) Delete by (auto simp: made_def insert_absorb)
next
  case (Receiver h ty)
  then show ?thesis
    using assms(1,2) types_ok_receiver(1) by (auto simp: made_def)
qed

lemma types_ok_ops:
  assumes "types_ok used w" "handle_ops ps w = Inr w'" "distinct (made ps)" "used \<inter> set (made ps) = {}"
  shows "types_ok (used \<union> set (made ps)) w'"
  using assms
proof (induction ps arbitrary: used w)
  case (Cons p ps)
  obtain w1 where w1: "handle_op p w = Inr w1" "handle_ops ps w1 = Inr w'"
    using Cons.prems(2) by (auto simp: res_bind_eq_Inr)
  have m: "made (p # ps) = made [p] @ made ps"
    by (simp add: made_def)
  have "types_ok (used \<union> set (made [p])) w1"
    using Cons.prems(1,4) w1(1) by (intro types_ok_op) (auto simp: made_def)
  from Cons.IH [OF this w1(2)] show ?case
    using Cons.prems(3,4) by (auto simp: m Un_assoc)
qed (simp add: made_def)

lemma receivers_have_their_type:
  assumes "handle_ops ps no_handles = Inr w" "distinct (made ps)" "handle_op (Receiver h ty) w = Inr w'" "seqer_types w h \<noteq> None"
  shows "seqer_types w h = Some (Some ty)"
proof -
  have "types_ok {} no_handles"
    by (simp add: types_ok_def no_handles_def)
  from types_ok_ops [OF this assms(1,2)] have "types_ok (set (made ps)) w"
    by simp
  then have "fits w h ty"
    using types_ok_receiver(2) assms(3) by simp
  then show ?thesis
    using assms(4) by (auto simp: fits_def)
qed

text \<open>
  Once an address is used again the check passes for a handle of another type, or of none, and the receiver
  reads sequences of the wrong type.
\<close>

lemma reused_address_confuses_types:
  assumes "ty \<noteq> ty'"
  shows "\<exists>w. handle_ops [Make h, Bind h ty, Receiver h ty, Delete h, Make h, Bind h ty', Receiver h ty] no_handles = Inr w \<and>
    seqer_types w h = Some (Some ty')"
  using assms by (simp add: no_handles_def recv_by_seq_ctor_def check_type_def)

end
