(* ===== verification/Http_Tables.thy ===== *)
theory Http_Tables
  imports Ccf_Prelude "HOL-Library.Char_ord" "HOL-Library.List_Lexorder"
begin

text \<open>
  The tables of the HTTP extension (\<open>extensions/http/cocoflow-http.cc\<close>, namespace \<open>header\<close>): the names
  of the header fields and the phrases of the status codes, both searched with
  \<open>std::lower_bound\<close>. The search is shown to find exactly what is in the table.
\<close>

section \<open>Binary search\<close>

text \<open>
  \<open>std::lower_bound\<close> on the range of \<open>len\<close> elements from \<open>first\<close> on: the first element that does not
  come before the target.
\<close>

function lower_bound :: "('a \<Rightarrow> bool) \<Rightarrow> 'a list \<Rightarrow> nat \<Rightarrow> nat \<Rightarrow> nat" where
  "lower_bound before xs first len =
     (if len > 0 then
        (let half = len div 2; mid = first + half
         in if before (xs ! mid) then lower_bound before xs (mid + 1) (len - half - 1)
            else lower_bound before xs first half)
      else first)"
  by pat_completeness auto

termination
  by (relation "measure (\<lambda>(_, _, _, len). len)") auto

declare lower_bound.simps [simp del]

section \<open>Header fields\<close>

datatype field =
    Unknown | Accept | AcceptCharset | AcceptEncoding | AcceptLanguage | AcceptRanges | Age
  | Allow | Authorization | CacheControl | Connection | ContentEncoding | ContentLanguage
  | ContentLength | ContentLocation | ContentMD5 | ContentRange | ContentType | Date | ETag
  | Expect | Expires | From | Host | IfMatch | IfModifiedSince | IfNoneMatch | IfRange
  | IfUnmodifiedSince | LastModified | Location | MaxForwards | Pragma | ProxyAuthenticate
  | ProxyAuthorization | Range | Referer | RetryAfter | Server | TE | Trailer
  | TransferEncoding | Upgrade | UserAgent | Vary | Via | Warning | WWWAuthenticate

definition field_seek_arrays :: "(string \<times> field) list" where
  "field_seek_arrays =
    [(''accept'', Accept),
     (''accept-charset'', AcceptCharset),
     (''accept-encoding'', AcceptEncoding),
     (''accept-language'', AcceptLanguage),
     (''accept-ranges'', AcceptRanges),
     (''age'', Age),
     (''allow'', Allow),
     (''authorization'', Authorization),
     (''cache-control'', CacheControl),
     (''connection'', Connection),
     (''content-encoding'', ContentEncoding),
     (''content-language'', ContentLanguage),
     (''content-length'', ContentLength),
     (''content-location'', ContentLocation),
     (''content-md5'', ContentMD5),
     (''content-range'', ContentRange),
     (''content-type'', ContentType),
     (''date'', Date),
     (''etag'', ETag),
     (''expect'', Expect),
     (''expires'', Expires),
     (''from'', From),
     (''host'', Host),
     (''if-match'', IfMatch),
     (''if-modified-since'', IfModifiedSince),
     (''if-none-match'', IfNoneMatch),
     (''if-range'', IfRange),
     (''if-unmodified-since'', IfUnmodifiedSince),
     (''last-modified'', LastModified),
     (''location'', Location),
     (''max-forwards'', MaxForwards),
     (''pragma'', Pragma),
     (''proxy-authenticate'', ProxyAuthenticate),
     (''proxy-authorization'', ProxyAuthorization),
     (''range'', Range),
     (''referer'', Referer),
     (''retry-after'', RetryAfter),
     (''server'', Server),
     (''te'', TE),
     (''trailer'', Trailer),
     (''transfer-encoding'', TransferEncoding),
     (''upgrade'', Upgrade),
     (''user-agent'', UserAgent),
     (''vary'', Vary),
     (''via'', Via),
     (''warning'', Warning),
     (''www-authenticate'', WWWAuthenticate)]"

text \<open>\<open>strcmp(a, b) < 0\<close> is the lexicographic order on strings of bytes.\<close>

definition check_field :: "string \<Rightarrow> field" where
  "check_field name =
     (let n = length field_seek_arrays;
          ret = lower_bound (\<lambda>(a, _). a < name) field_seek_arrays 0 n
      in if ret \<noteq> n \<and> fst (field_seek_arrays ! ret) = name then snd (field_seek_arrays ! ret)
         else Unknown)"

section \<open>Status codes\<close>

text \<open>The enumerators of \<open>include/cocoflow-http.h\<close> that are status codes, with their phrases.\<close>

definition status_seek_arrays :: "(int \<times> string) list" where
  "status_seek_arrays =
    [(100, ''Continue''),
     (101, ''Switching Protocols''),
     (200, ''OK''),
     (201, ''Created''),
     (202, ''Accepted''),
     (203, ''Non-Authoritative Information''),
     (204, ''No Content''),
     (205, ''Reset Content''),
     (206, ''Partial Content''),
     (300, ''Multiple Choices''),
     (301, ''Moved Permanently''),
     (302, ''Found''),
     (303, ''See Other''),
     (304, ''Not Modified''),
     (305, ''Use Proxy''),
     (307, ''Temporary Redirect''),
     (400, ''Bad Request''),
     (401, ''Unauthorized''),
     (402, ''Payment Required''),
     (403, ''Forbidden''),
     (404, ''Not Found''),
     (405, ''Method Not Allowed''),
     (406, ''Not Acceptable''),
     (407, ''Proxy Authentication Required''),
     (408, ''Request Timeout''),
     (409, ''Conflict''),
     (410, ''Gone''),
     (411, ''Length Required''),
     (412, ''Precondition Failed''),
     (413, ''Request Entity Too Large''),
     (414, ''Request-URI Too Long''),
     (415, ''Unsupported Media Type''),
     (416, ''Requested Range Not Satisfiable''),
     (417, ''Expectation Failed''),
     (500, ''Internal Server Error''),
     (501, ''Not Implemented''),
     (502, ''Bad Gateway''),
     (503, ''Service Unavailable''),
     (504, ''Gateway Timeout''),
     (505, ''HTTP Version Not Supported'')]"

text \<open>The code is passed as a \<open>short\<close>.\<close>

definition check_status :: "16 word \<Rightarrow> string" where
  "check_status status_code =
     (let n = length status_seek_arrays;
          ret = lower_bound (\<lambda>(a, _). a < sint status_code) status_seek_arrays 0 n
      in if ret \<noteq> n \<and> fst (status_seek_arrays ! ret) = sint status_code
         then snd (status_seek_arrays ! ret) else ''Unknown'')"

section \<open>What the search finds\<close>

lemma lower_bound_splits:
  assumes "first + len \<le> length xs" "\<And>i j. i < j \<Longrightarrow> j < length xs \<Longrightarrow> before (xs ! j) \<Longrightarrow> before (xs ! i)"
    and "\<And>i. i < first \<Longrightarrow> before (xs ! i)"
    and "\<And>i. first + len \<le> i \<Longrightarrow> i < length xs \<Longrightarrow> \<not> before (xs ! i)"
  shows "lower_bound before xs first len \<le> length xs \<and>
    (\<forall>i < length xs. before (xs ! i) \<longleftrightarrow> i < lower_bound before xs first len)"
  using assms
proof (induction before xs first len rule: lower_bound.induct)
  case (1 before xs first len)
  show ?case
  proof (cases "len > 0")
    case False
    then have "before (xs ! i) \<longleftrightarrow> i < first" if "i < length xs" for i
      using that "1.prems"(3) [of i] "1.prems"(4) [of i] by (cases "i < first") auto
    then show ?thesis
      using False "1.prems"(1) by (simp add: lower_bound.simps [of before xs first 0])
  next
    case True
    define mid where "mid = first + len div 2"
    have mid: "mid < length xs" "mid < first + len" "mid + 1 + (len - len div 2 - 1) = first + len"
      using True "1.prems"(1) by (auto simp: mid_def)
    show ?thesis
    proof (cases "before (xs ! mid)")
      case below: True
      have "before (xs ! i)" if "i < mid + 1" for i
        using that below mid "1.prems"(2) [of i mid] by (cases "i = mid") auto
      then have "lower_bound before xs (mid + 1) (len - len div 2 - 1) \<le> length xs \<and>
          (\<forall>i < length xs. before (xs ! i) \<longleftrightarrow> i < lower_bound before xs (mid + 1) (len - len div 2 - 1))"
        using "1.prems" mid(3) by (intro "1.IH"(1) [OF True refl mid_def below]) auto
      then show ?thesis
        using True below by (simp add: lower_bound.simps [of before xs first len] Let_def mid_def)
    next
      case above: False
      have "\<not> before (xs ! i)" if "mid \<le> i" "i < length xs" for i
        using that above "1.prems"(2) [of mid i] by (cases "i = mid") auto
      then have "lower_bound before xs first (len div 2) \<le> length xs \<and>
          (\<forall>i < length xs. before (xs ! i) \<longleftrightarrow> i < lower_bound before xs first (len div 2))"
        using "1.prems" mid(1) by (intro "1.IH"(2) [OF True refl mid_def above]) (auto simp: mid_def)
      then show ?thesis
        using True above by (simp add: lower_bound.simps [of before xs first len] Let_def mid_def)
    qed
  qed
qed

text \<open>A table whose keys increase: looking up a key by binary search is \<open>map_of\<close>.\<close>

locale sorted_table =
  fixes table :: "('k :: linorder \<times> 'v) list"
  assumes increasing: "sorted_wrt (\<lambda>a b. fst a < fst b) table"
begin

definition seek :: "'k \<Rightarrow> nat" where
  "seek k = lower_bound (\<lambda>(a, _). a < k) table 0 (length table)"

lemma seek_splits:
  "seek k \<le> length table" "i < length table \<Longrightarrow> fst (table ! i) < k \<longleftrightarrow> i < seek k"
proof -
  have "seek k \<le> length table \<and> (\<forall>i < length table. (case table ! i of (a, _) \<Rightarrow> a < k) \<longleftrightarrow> i < seek k)"
    unfolding seek_def using increasing
    by (intro lower_bound_splits) (auto simp: sorted_wrt_iff_nth_less case_prod_unfold dest: less_trans)
  then show "seek k \<le> length table" "i < length table \<Longrightarrow> fst (table ! i) < k \<longleftrightarrow> i < seek k"
    by (auto simp: case_prod_unfold)
qed

lemma keys_distinct: "distinct (map fst table)"
proof -
  have "sorted_wrt (<) (map fst table)"
    using increasing by (simp add: sorted_wrt_map)
  then show ?thesis
    by (simp add: strict_sorted_iff)
qed

lemma seek_lookup:
  "map_of table k =
     (if seek k \<noteq> length table \<and> fst (table ! seek k) = k then Some (snd (table ! seek k)) else None)"
proof (cases "seek k \<noteq> length table \<and> fst (table ! seek k) = k")
  case True
  then have "(k, snd (table ! seek k)) \<in> set table"
    using seek_splits(1) [of k] by (metis le_neq_implies_less nth_mem prod.collapse)
  then show ?thesis
    using True keys_distinct by simp
next
  case False
  have "k \<notin> fst ` set table"
  proof
    assume "k \<in> fst ` set table"
    then obtain i where i: "i < length table" "fst (table ! i) = k"
      by (auto simp: in_set_conv_nth)
    then have "\<not> i < seek k"
      using seek_splits(2) [of i k] by simp
    moreover have "\<not> seek k < i"
    proof
      assume "seek k < i"
      moreover from this have "fst (table ! seek k) < k"
        using increasing i by (auto simp: sorted_wrt_iff_nth_less)
      ultimately show False
        using seek_splits(2) [of "seek k" k] i(1) by simp
    qed
    ultimately show False
      using False i by (metis linorder_neqE_nat nat_less_le)
  qed
  then show ?thesis
    using False map_of_eq_None_iff [of table k] by auto
qed

end

lemma increasing_fields: "sorted_wrt (\<lambda>a b. fst a < fst b) field_seek_arrays"
  by code_simp

lemma increasing_statuses: "sorted_wrt (\<lambda>a b. fst a < fst b) status_seek_arrays"
  by code_simp

interpretation fields: sorted_table field_seek_arrays
  by unfold_locales (rule increasing_fields)

interpretation statuses: sorted_table status_seek_arrays
  by unfold_locales (rule increasing_statuses)

definition HTTP_FIELD_NAME_MAX_LEN :: nat where
  "HTTP_FIELD_NAME_MAX_LEN = 19"

lemma field_names_fit: "list_all (\<lambda>(n, _). length n \<le> HTTP_FIELD_NAME_MAX_LEN) field_seek_arrays"
  by code_simp

text \<open>
  C34: the binary searches find what a search from front to back would. A field name is known exactly
  if it is in the table, and a name longer than \<open>HTTP_FIELD_NAME_MAX_LEN\<close> never is, so the parser
  loses no field by not looking long names up; a status code has its phrase from the table, or
  \<open>Unknown\<close>.
\<close>

theorem table_lookups:
  "check_field name = (case map_of field_seek_arrays name of None \<Rightarrow> Unknown | Some f \<Rightarrow> f) \<and>
   (check_field name = Unknown \<or> length name \<le> HTTP_FIELD_NAME_MAX_LEN) \<and>
   check_status c = (case map_of status_seek_arrays (sint c) of None \<Rightarrow> ''Unknown'' | Some s \<Rightarrow> s)"
proof (intro conjI)
  show f: "check_field name = (case map_of field_seek_arrays name of None \<Rightarrow> Unknown | Some f \<Rightarrow> f)"
    by (simp add: check_field_def fields.seek_lookup fields.seek_def Let_def)
  show "check_status c = (case map_of status_seek_arrays (sint c) of None \<Rightarrow> ''Unknown'' | Some s \<Rightarrow> s)"
    by (simp add: check_status_def statuses.seek_lookup statuses.seek_def Let_def)
  show "check_field name = Unknown \<or> length name \<le> HTTP_FIELD_NAME_MAX_LEN"
    unfolding f using field_names_fit
    by (auto simp: list_all_iff split: option.splits dest!: map_of_SomeD)
qed

end
