(* ===== verification/Http_Url.thy ===== *)
theory Http_Url
  imports Sockaddr "HOL-Library.Char_ord"
begin

text \<open>
  \<open>url_parse\<close> of the HTTP extension (\<open>extensions/http/cocoflow-http.cc\<close>). A C string is the list of
  the characters before its terminator, a pointer into it a position, \<open>NULL\<close> is \<open>None\<close>. The
  parser walks over the text once and remembers where the parts begin and end; it is shown to
  compute the same parts as a parser that collects their texts, and to read back every
  URL that is written from parts of the right form.
\<close>

section \<open>Characters\<close>

definition is_lower :: "char \<Rightarrow> bool" where "is_lower c \<longleftrightarrow> CHR ''a'' \<le> c \<and> c \<le> CHR ''z''"
definition is_upper :: "char \<Rightarrow> bool" where "is_upper c \<longleftrightarrow> CHR ''A'' \<le> c \<and> c \<le> CHR ''Z''"
definition is_digit :: "char \<Rightarrow> bool" where "is_digit c \<longleftrightarrow> CHR ''0'' \<le> c \<and> c \<le> CHR ''9''"

definition lowercase :: "char \<Rightarrow> char" where
  "lowercase c = (if is_upper c then char_of (of_char c + (97 - 65) :: nat) else c)"

text \<open>
  \<open>atoi\<close> on a text that begins with a digit: \<open>(int) strtol(s, NULL, 10)\<close>. \<open>strtol\<close> reads digits
  as long as there are any and stops at the largest \<open>long\<close>; the conversion keeps the low 32 bits.
\<close>

definition atoi :: "string \<Rightarrow> int" where
  "atoi s = sint (of_nat (min (digits_value (takeWhile is_digit s)) (2 ^ 63 - 1)) :: i32)"

section \<open>The parser\<close>

record url_parts =
  protocol :: string
  user :: string
  password :: string
  host :: string
  port :: int
  path :: string
  query :: string
  comment :: string

record authority =
  user_bgn :: "nat option"
  user_end :: "nat option"
  pass_bgn :: "nat option"
  pass_end :: "nat option"
  host_bgn :: "nat option"
  host_end :: "nat option"
  port_bgn :: "nat option"
  port_end :: "nat option"

definition slice :: "string \<Rightarrow> nat \<Rightarrow> nat \<Rightarrow> string" where
  "slice s b e = take (e - b) (drop b s)"

text \<open>\<open>string.append(bgn, end)\<close> of a part that is there and not empty.\<close>

definition url_part :: "string \<Rightarrow> nat option \<Rightarrow> nat option \<Rightarrow> string" where
  "url_part s b e = (case (b, e) of (Some b, Some e) \<Rightarrow> slice s b e | _ \<Rightarrow> [])"

definition protocol_char :: "char \<Rightarrow> bool" where
  "protocol_char c \<longleftrightarrow> is_lower c \<or> is_upper c \<or> is_digit c \<or> c \<in> set ''.+-''"

definition host_char :: "char \<Rightarrow> bool" where
  "host_char c \<longleftrightarrow> is_lower c \<or> is_upper c \<or> is_digit c \<or> c \<in> set ''._-''"

text \<open>The loops have the text that \<open>p\<close> points to as an argument beside \<open>p\<close>; \<open>[]\<close> is the terminator.\<close>

fun scan_protocol :: "string \<Rightarrow> nat \<Rightarrow> int + nat" where
  "scan_protocol [] p = Inl (-2)"
| "scan_protocol (c # r) p =
     (if c = CHR '':'' then (if p = 0 then Inl (-2) else Inr p)
      else if protocol_char c then scan_protocol r (p + 1)
      else Inl (-1))"

text \<open>What the loop over the authority does at one of the characters that end a host.\<close>

definition authority_end :: "nat \<Rightarrow> authority \<Rightarrow> authority" where
  "authority_end p a =
     (if user_bgn a = Some p then a\<lparr>user_bgn := None\<rparr>
      else if user_end a = None then
        a\<lparr>user_bgn := None, host_bgn := user_bgn a, host_end := Some p\<rparr>
      else if pass_bgn a \<noteq> None \<and> pass_end a = None then
        a\<lparr>user_bgn := None, pass_bgn := None, host_bgn := user_bgn a, host_end := user_end a,
          port_bgn := pass_bgn a, port_end := Some p\<rparr>
      else if host_end a = None then a\<lparr>host_end := Some p\<rparr>
      else a\<lparr>port_end := Some p\<rparr>)"

fun scan_authority :: "string \<Rightarrow> nat \<Rightarrow> authority \<Rightarrow> int + (nat \<times> authority)" where
  "scan_authority [] p a = Inr (p, authority_end p a)"
| "scan_authority (c # r) p a =
     (if c \<in> set ''/?#'' then Inr (p, authority_end p a)
      else if c = CHR '':'' then
        if host_bgn a = None then
          if user_end a = None
          then scan_authority r (p + 1) (a\<lparr>user_end := Some p, pass_bgn := Some (p + 1)\<rparr>)
          else Inl (-4)
        else
          if host_end a = None
          then scan_authority r (p + 1) (a\<lparr>host_end := Some p, port_bgn := Some (p + 1)\<rparr>)
          else Inl (-5)
      else if c = CHR ''@'' then
        if user_end a = None
        then scan_authority r (p + 1) (a\<lparr>user_end := Some p, host_bgn := Some (p + 1)\<rparr>)
        else if pass_bgn a \<noteq> None \<and> pass_end a = None
        then scan_authority r (p + 1) (a\<lparr>pass_end := Some p, host_bgn := Some (p + 1)\<rparr>)
        else Inl (-6)
      else scan_authority r (p + 1) a)"

text \<open>
  The checks of the host and of the port. The pointers of the port are into \<open>url\<close>, so \<open>atoi\<close>
  reads on to the first character that is not a digit.
\<close>

definition parse_host :: "string \<Rightarrow> authority \<Rightarrow> int + string" where
  "parse_host url a =
     (let h = url_part url (host_bgn a) (host_end a)
      in if \<forall>c \<in> set h. host_char c then Inr (map lowercase h) else Inl (-7))"

definition parse_port :: "string \<Rightarrow> authority \<Rightarrow> int + int" where
  "parse_port url a =
     (let q = url_part url (port_bgn a) (port_end a)
      in if q = [] then Inr 0
         else if \<exists>c \<in> set q. \<not> is_digit c then Inl (-8)
         else
           (let n = atoi (drop (the (port_bgn a)) url)
            in if n \<le> 0 \<or> n > 65535 then Inl (-9) else Inr n))"

text \<open>The last three loops: each stops at one of the given characters or at the terminator.\<close>

fun scan_to :: "string \<Rightarrow> string \<Rightarrow> nat \<Rightarrow> nat" where
  "scan_to stops [] p = p"
| "scan_to stops (c # r) p = (if c \<in> set stops then p else scan_to stops r (p + 1))"

definition char_at :: "string \<Rightarrow> nat \<Rightarrow> char" where
  "char_at s p = (if p < length s then s ! p else CHR 0x00)"

definition parse_comment :: "string \<Rightarrow> nat \<Rightarrow> nat option \<Rightarrow> string" where
  "parse_comment url p note_bgn =
     (case note_bgn of None \<Rightarrow> [] | Some b \<Rightarrow> slice url b (scan_to [] (drop p url) p))"

definition parse_query :: "string \<Rightarrow> nat \<Rightarrow> nat option \<Rightarrow> nat option \<Rightarrow> string \<times> string" where
  "parse_query url p qstr_bgn note_bgn =
     (case qstr_bgn of
        None \<Rightarrow> ([], parse_comment url p note_bgn)
      | Some b \<Rightarrow>
          (let e = scan_to ''#'' (drop p url) p
           in (slice url b e,
               parse_comment url e (if char_at url e = CHR ''#'' then Some (e + 1) else note_bgn))))"

definition parse_path :: "string \<Rightarrow> nat \<Rightarrow> string \<times> string \<times> string" where
  "parse_path url p =
     (if char_at url p = CHR ''/'' then
        (let e = scan_to ''?#'' (drop p url) p; pa = slice url p e
         in (if pa = [] then ''/'' else pa,
             parse_query url e
               (if char_at url e = CHR ''?'' then Some (e + 1) else None)
               (if char_at url e = CHR ''#'' then Some (e + 1) else None)))
      else if char_at url p = CHR ''?'' then (''/'', parse_query url p (Some (p + 1)) None)
      else if char_at url p = CHR ''#'' then (''/'', parse_query url p None (Some (p + 1)))
      else (''/'', parse_query url p None None))"

definition url_parse :: "string \<Rightarrow> int + url_parts" where
  "url_parse url =
     (case scan_protocol url 0 of
        Inl e \<Rightarrow> Inl e
      | Inr p \<Rightarrow>
          if char_at url (p + 1) \<noteq> CHR ''/'' \<or> char_at url (p + 2) \<noteq> CHR ''/'' then Inl (-3)
          else
            (case scan_authority (drop (p + 3) url) (p + 3)
                 \<lparr>user_bgn = Some (p + 3), user_end = None, pass_bgn = None, pass_end = None,
                  host_bgn = None, host_end = None, port_bgn = None, port_end = None\<rparr> of
               Inl e \<Rightarrow> Inl e
             | Inr (q, a) \<Rightarrow>
                 (case parse_host url a of
                    Inl e \<Rightarrow> Inl e
                  | Inr h \<Rightarrow>
                      (case parse_port url a of
                         Inl e \<Rightarrow> Inl e
                       | Inr n \<Rightarrow>
                           (case parse_path url q of (pa, qu, co) \<Rightarrow>
                              Inr \<lparr>protocol = map lowercase (take p url),
                                user = url_part url (user_bgn a) (user_end a),
                                password = url_part url (pass_bgn a) (pass_end a),
                                host = h, port = n, path = pa, query = qu, comment = co\<rparr>)))))"

section \<open>A parser that collects texts\<close>

text \<open>
  The same grammar without pointers. The authority has been read as far as one of four shapes: a
  first part, two parts around a colon, the user and the host, the user, the host and the
  port; the password is there or not.
\<close>

datatype shape =
    First string
  | Second string string
  | Host_part string "string option" string
  | Port_part string "string option" string string

fun add_char :: "char \<Rightarrow> shape \<Rightarrow> shape" where
  "add_char c (First u) = First (u @ [c])"
| "add_char c (Second u v) = Second u (v @ [c])"
| "add_char c (Host_part u w h) = Host_part u w (h @ [c])"
| "add_char c (Port_part u w h q) = Port_part u w h (q @ [c])"

fun add_colon :: "shape \<Rightarrow> int + shape" where
  "add_colon (First u) = Inr (Second u [])"
| "add_colon (Second u v) = Inl (-4)"
| "add_colon (Host_part u w h) = Inr (Port_part u w h [])"
| "add_colon (Port_part u w h q) = Inl (-5)"

fun add_at :: "shape \<Rightarrow> int + shape" where
  "add_at (First u) = Inr (Host_part u None [])"
| "add_at (Second u v) = Inr (Host_part u (Some v) [])"
| "add_at (Host_part u w h) = Inl (-6)"
| "add_at (Port_part u w h q) = Inl (-6)"

fun collect :: "string \<Rightarrow> shape \<Rightarrow> int + shape" where
  "collect [] sh = Inr sh"
| "collect (c # r) sh =
     (if c \<in> set ''/?#'' then Inr sh
      else if c = CHR '':'' then case_sum Inl (collect r) (add_colon sh)
      else if c = CHR ''@'' then case_sum Inl (collect r) (add_at sh)
      else collect r (add_char c sh))"

text \<open>User, password, host and port of a shape, its text, and the pointers that stand for it.\<close>

definition opt_text :: "string option \<Rightarrow> string" where
  "opt_text w = (case w of None \<Rightarrow> [] | Some w \<Rightarrow> w)"

fun shape_parts :: "shape \<Rightarrow> string \<times> string \<times> string \<times> string" where
  "shape_parts (First h) = ([], [], h, [])"
| "shape_parts (Second h q) = ([], [], h, q)"
| "shape_parts (Host_part u w h) = (u, opt_text w, h, [])"
| "shape_parts (Port_part u w h q) = (u, opt_text w, h, q)"

definition user_text :: "string \<Rightarrow> string option \<Rightarrow> string" where
  "user_text u w = u @ (case w of None \<Rightarrow> [] | Some w \<Rightarrow> CHR '':'' # w)"

fun shape_text :: "shape \<Rightarrow> string" where
  "shape_text (First u) = u"
| "shape_text (Second u v) = u @ CHR '':'' # v"
| "shape_text (Host_part u w h) = user_text u w @ CHR ''@'' # h"
| "shape_text (Port_part u w h q) = user_text u w @ CHR ''@'' # h @ CHR '':'' # q"

definition no_pointers :: authority where
  "no_pointers = \<lparr>user_bgn = None, user_end = None, pass_bgn = None, pass_end = None,
     host_bgn = None, host_end = None, port_bgn = None, port_end = None\<rparr>"

definition user_pointers :: "nat \<Rightarrow> string \<Rightarrow> string option \<Rightarrow> authority" where
  "user_pointers p u w =
     (case w of
        None \<Rightarrow> no_pointers\<lparr>user_bgn := Some p, user_end := Some (p + length u),
          host_bgn := Some (p + length u + 1)\<rparr>
      | Some w \<Rightarrow> no_pointers\<lparr>user_bgn := Some p, user_end := Some (p + length u),
          pass_bgn := Some (p + length u + 1), pass_end := Some (p + length u + 1 + length w),
          host_bgn := Some (p + length u + 1 + length w + 1)\<rparr>)"

fun pointers :: "nat \<Rightarrow> shape \<Rightarrow> authority" where
  "pointers p (First u) = no_pointers\<lparr>user_bgn := Some p\<rparr>"
| "pointers p (Second u v) = no_pointers\<lparr>user_bgn := Some p, user_end := Some (p + length u),
     pass_bgn := Some (p + length u + 1)\<rparr>"
| "pointers p (Host_part u w h) = user_pointers p u w"
| "pointers p (Port_part u w h q) =
     (let e = p + length (user_text u w) + 1 + length h
      in (user_pointers p u w)\<lparr>host_end := Some e, port_bgn := Some (e + 1)\<rparr>)"

lemma text_add_char [simp]: "shape_text (add_char c sh) = shape_text sh @ [c]"
  by (cases sh) (simp_all add: user_text_def)

lemma text_add_colon: "add_colon sh = Inr sh' \<Longrightarrow> shape_text sh' = shape_text sh @ '':''"
  by (cases sh) (auto simp: user_text_def)

lemma text_add_at: "add_at sh = Inr sh' \<Longrightarrow> shape_text sh' = shape_text sh @ ''@''"
  by (cases sh) (auto simp: user_text_def)

lemma pointers_add_char [simp]: "pointers p (add_char c sh) = pointers p sh"
  by (cases sh) auto

lemma scan_authority_collects:
  "scan_authority r (p + length (shape_text sh)) (pointers p sh) =
     (case collect r sh of
        Inl e \<Rightarrow> Inl e
      | Inr sh' \<Rightarrow> Inr (p + length (shape_text sh'),
          authority_end (p + length (shape_text sh')) (pointers p sh')))"
proof (induction r arbitrary: sh)
  case (Cons c r)
  consider "c \<in> set ''/?#''" | "c = CHR '':''" | "c = CHR ''@''" | "c \<notin> set ''/?#:@''"
    by auto
  then show ?case
  proof cases
    case 2
    then show ?thesis
      using Cons [of "the (case add_colon sh of Inr x \<Rightarrow> Some x | _ \<Rightarrow> None)"]
      by (cases sh) (auto simp: no_pointers_def user_pointers_def user_text_def Let_def algebra_simps split: option.splits)
  next
    case 3
    then show ?thesis
      using Cons [of "the (case add_at sh of Inr x \<Rightarrow> Some x | _ \<Rightarrow> None)"]
      by (cases sh) (auto simp: no_pointers_def user_pointers_def user_text_def Let_def algebra_simps split: option.splits)
  next
    case 4
    then show ?thesis
      using Cons [of "add_char c sh"] by simp
  qed simp
qed simp

lemma collect_text:
  "collect r sh = Inr sh' \<Longrightarrow> shape_text sh' = shape_text sh @ takeWhile (\<lambda>c. c \<notin> set ''/?#'') r"
proof (induction r arbitrary: sh)
  case (Cons c r)
  then show ?case
    by (auto dest!: Cons.IH dest: text_add_colon text_add_at split: if_splits sum.splits)
qed simp

lemma slice_middle: "slice (pre @ x @ r) (length pre) (length pre + length x) = x"
  by (simp add: slice_def)

lemma slice_at: "s = pre @ x @ r \<Longrightarrow> b = length pre \<Longrightarrow> e = b + length x \<Longrightarrow> slice s b e = x"
  using slice_middle by blast

text \<open>The pointers at the end of the authority delimit the parts of its shape.\<close>

lemma authority_parts_aux:
  "shape_parts sh = (u, w, h, q) \<Longrightarrow>
   (let a = authority_end (length pre + length (shape_text sh)) (pointers (length pre) sh);
        url = pre @ shape_text sh @ r
    in url_part url (user_bgn a) (user_end a) = u \<and> url_part url (pass_bgn a) (pass_end a) = w \<and>
       url_part url (host_bgn a) (host_end a) = h \<and> url_part url (port_bgn a) (port_end a) = q \<and>
       (q \<noteq> [] \<longrightarrow> drop (the (port_bgn a)) url = q @ r))"
proof (induction sh)
  case (First x)
  then show ?case
    by (cases x) (simp_all add: authority_end_def no_pointers_def url_part_def slice_def)
next
  case (Second x1 x2)
  then show ?case
    by (simp add: authority_end_def no_pointers_def url_part_def slice_def Let_def)
next
  case (Host_part x1 x2 x3)
  then show ?case
    by (cases x2) (simp_all add: authority_end_def no_pointers_def user_pointers_def user_text_def
      url_part_def opt_text_def slice_def Let_def)
next
  case (Port_part x1 x2 x3 x4)
  then show ?case
    by (cases x2) (simp_all add: authority_end_def no_pointers_def user_pointers_def user_text_def
      url_part_def opt_text_def slice_def Let_def numeral_3_eq_3)
qed

section \<open>The whole parser\<close>

lemma scan_protocol_spec:
  "scan_protocol s p =
     (let pr = takeWhile (\<lambda>c. c \<noteq> CHR '':'' \<and> protocol_char c) s; r = drop (length pr) s
      in if r = [] then Inl (-2)
         else if hd r \<noteq> CHR '':'' then Inl (-1)
         else if p + length pr = 0 then Inl (-2)
         else Inr (p + length pr))"
  by (induction s p rule: scan_protocol.induct) (auto simp: Let_def)

lemma scan_to_spec: "scan_to stops s p = p + length (takeWhile (\<lambda>c. c \<notin> set stops) s)"
  by (induction stops s p rule: scan_to.induct) auto

definition query_parts :: "string \<Rightarrow> string \<times> string" where
  "query_parts t =
     (let q = (if t \<noteq> [] \<and> hd t = CHR ''?'' then takeWhile (\<lambda>c. c \<noteq> CHR ''#'') t else []);
          t = drop (length q) t
      in (tl q, if t \<noteq> [] \<and> hd t = CHR ''#'' then tl t else []))"

definition path_parts :: "string \<Rightarrow> string \<times> string \<times> string" where
  "path_parts t =
     (let pa = (if t \<noteq> [] \<and> hd t = CHR ''/'' then takeWhile (\<lambda>c. c \<notin> set ''?#'') t else [])
      in (if pa = [] then ''/'' else pa, query_parts (drop (length pa) t)))"

lemma char_at_append: "char_at (pre @ t) (length pre) = (if t = [] then CHR 0x00 else hd t)"
  by (cases t) (auto simp: char_at_def)

lemma slice_takeWhile:
  "slice (pre @ t) (length pre) (length pre + length (takeWhile P t)) = takeWhile P t"
  using slice_middle [of pre "takeWhile P t" "dropWhile P t"] by simp

lemma tl_slice:
  "t \<noteq> [] \<Longrightarrow> P (hd t) \<Longrightarrow>
   slice (pre @ t) (Suc (length pre)) (length pre + length (takeWhile P t)) = tl (takeWhile P t)"
  using slice_takeWhile [of "pre @ [hd t]" "tl t" P] by (cases t) auto

lemma takeWhile_True [simp]: "takeWhile (\<lambda>_. True) t = t"
  by (induction t) auto

lemma comment_read:
  "parse_comment (pre @ t) (length pre) (if t \<noteq> [] \<and> hd t = CHR ''#'' then Some (Suc (length pre)) else None) =
     (if t \<noteq> [] \<and> hd t = CHR ''#'' then tl t else [])"
  using tl_slice [of t "\<lambda>_. True" pre]
  by (auto simp: parse_comment_def scan_to_spec)

lemma split_stop:
  assumes "s = pre @ t"
  obtains pre' t' where "s = pre' @ t'" "pre' = pre @ takeWhile P t" "t' = dropWhile P t"
    "length pre + length (takeWhile P t) = length pre'"
  using assms by (metis append.assoc length_append takeWhile_dropWhile_id)

lemma if_char_at:
  "c \<noteq> CHR 0x00 \<Longrightarrow> char_at (pre @ t) (length pre) = c \<longleftrightarrow> t \<noteq> [] \<and> hd t = c"
  by (auto simp: char_at_append)

lemma query_read:
  assumes "t = [] \<or> hd t \<in> set ''?#''"
  shows "parse_query (pre @ t) (length pre)
      (if t \<noteq> [] \<and> hd t = CHR ''?'' then Some (Suc (length pre)) else None)
      (if t \<noteq> [] \<and> hd t = CHR ''#'' then Some (Suc (length pre)) else None) =
    query_parts t"
proof (cases "t \<noteq> [] \<and> hd t = CHR ''?''")
  case True
  then obtain x where t: "t = CHR ''?'' # x"
    by (cases t) auto
  let ?q = "takeWhile (\<lambda>c. c \<noteq> CHR ''#'') t" and ?t = "dropWhile (\<lambda>c. c \<noteq> CHR ''#'') t"
  have e: "scan_to ''#'' (drop (length pre) (pre @ t)) (length pre) = length (pre @ ?q)"
    by (simp add: scan_to_spec)
  have s: "pre @ t = (pre @ ?q) @ ?t"
    by simp
  have "slice (pre @ t) (Suc (length pre)) (length (pre @ ?q)) = tl ?q"
    using tl_slice [of t "\<lambda>c. c \<noteq> CHR ''#''" pre] by (simp add: t)
  then show ?thesis
    using True e comment_read [of "pre @ ?q" ?t, folded s] if_char_at [of "CHR ''#''" "pre @ ?q" ?t, folded s]
    by (auto simp: parse_query_def query_parts_def Let_def dropWhile_eq_drop)
next
  case False
  then show ?thesis
    using comment_read [of pre t] by (auto simp: parse_query_def query_parts_def)
qed

lemma path_read:
  assumes "t = [] \<or> hd t \<in> set ''/?#''"
  shows "parse_path (pre @ t) (length pre) = path_parts t"
proof (cases "t \<noteq> [] \<and> hd t = CHR ''/''")
  case True
  then obtain x where t: "t = CHR ''/'' # x"
    by (cases t) auto
  define pa where "pa = takeWhile (\<lambda>c. c \<notin> set ''?#'') t"
  define t' where "t' = dropWhile (\<lambda>c. c \<notin> set ''?#'') t"
  have e: "scan_to ''?#'' t (length pre) = length pre + length pa"
    by (simp add: scan_to_spec pa_def)
  have s: "pre @ t = (pre @ pa) @ t'"
    by (simp add: pa_def t'_def)
  have tw: "takeWhile (\<lambda>c. c \<notin> set ''?#'') t = pa"
    by (simp add: pa_def)
  have d: "drop (length pa) t = t'"
    by (simp add: pa_def t'_def dropWhile_eq_drop)
  have pa: "slice (pre @ t) (length pre) (length pre + length pa) = pa" "pa \<noteq> []"
    by (simp_all add: pa_def slice_takeWhile) (simp add: t)
  have "t' = [] \<or> hd t' \<in> set ''?#''"
    using hd_dropWhile [of "\<lambda>c. c \<notin> set ''?#''" t] unfolding t'_def by blast
  from query_read [OF this, of "pre @ pa", folded s, unfolded length_append] True show ?thesis
    using if_char_at [of "CHR ''#''" "pre @ pa" t', folded s] if_char_at [of "CHR ''?''" "pre @ pa" t', folded s]
      if_char_at [of "CHR ''/''" pre t] pa(2)
    by (auto simp add: parse_path_def path_parts_def e pa(1) tw d Let_def simp del: set_simps)
next
  case False
  then have t: "t = [] \<or> hd t \<in> set ''?#''"
    using assms by auto
  consider "t = []" | "t \<noteq> []" "hd t = CHR ''?''" | "t \<noteq> []" "hd t = CHR ''#''"
    using t by auto
  then show ?thesis
    using query_read [OF t, of pre]
    by cases (simp_all add: parse_path_def path_parts_def char_at_append char_at_append [of pre "[]", simplified])
qed

lemma atoi_stops:
  assumes "\<forall>c\<in>set q. is_digit c" "r = [] \<or> hd r \<in> set ''/?#''"
  shows "atoi (q @ r) = atoi q"
proof -
  have "takeWhile is_digit (q @ r) = q"
    using assms by (cases r) (auto simp: is_digit_def takeWhile_append2)
  moreover have "takeWhile is_digit q = q"
    using assms(1) by (simp add: takeWhile_eq_all_conv)
  ultimately show ?thesis
    by (simp only: atoi_def)
qed

text \<open>The parts of the authority and what follows it, with the checks of the parser.\<close>

definition assemble :: "string \<Rightarrow> string \<Rightarrow> shape \<Rightarrow> int + url_parts" where
  "assemble pr t sh =
     (case shape_parts sh of (u, w, h, q) \<Rightarrow>
        if \<exists>c\<in>set h. \<not> host_char c then Inl (-7)
        else if \<exists>c\<in>set q. \<not> is_digit c then Inl (-8)
        else if q \<noteq> [] \<and> (atoi q \<le> 0 \<or> atoi q > 65535) then Inl (-9)
        else case path_parts t of (pa, qu, co) \<Rightarrow>
          Inr \<lparr>protocol = map lowercase pr, user = u, password = w, host = map lowercase h,
            port = (if q = [] then 0 else atoi q), path = pa, query = qu, comment = co\<rparr>)"

lemma parse_authority:
  assumes "url = pre @ rest" "collect rest (First []) = Inr sh"
    "a = authority_end (length pre + length (shape_text sh)) (pointers (length pre) sh)"
    "shape_parts sh = (u, w, h, q)"
  defines "t \<equiv> dropWhile (\<lambda>c. c \<notin> set ''/?#'') rest"
  shows "parse_host url a = (if \<exists>c\<in>set h. \<not> host_char c then Inl (-7) else Inr (map lowercase h))"
    "parse_port url a = (if \<exists>c\<in>set q. \<not> is_digit c then Inl (-8)
       else if q \<noteq> [] \<and> (atoi q \<le> 0 \<or> atoi q > 65535) then Inl (-9)
       else Inr (if q = [] then 0 else atoi q))"
    "parse_path url (length pre + length (shape_text sh)) = path_parts t"
    "url_part url (user_bgn a) (user_end a) = u" "url_part url (pass_bgn a) (pass_end a) = w"
proof -
  have r: "rest = shape_text sh @ t"
    using collect_text [OF assms(2)] unfolding t_def by (simp add: takeWhile_dropWhile_id)
  have t: "t = [] \<or> hd t \<in> set ''/?#''"
    using hd_dropWhile [of "\<lambda>c. c \<notin> set ''/?#''" rest] unfolding t_def by blast
  note parts = authority_parts_aux [OF assms(4), of pre t, folded r assms(1,3), unfolded Let_def]
  show "parse_host url a = (if \<exists>c\<in>set h. \<not> host_char c then Inl (-7) else Inr (map lowercase h))"
    using parts by (auto simp: parse_host_def)
  have "atoi (q @ t) = atoi q" if "\<forall>c\<in>set q. is_digit c"
    using atoi_stops [OF that t] .
  then show "parse_port url a = (if \<exists>c\<in>set q. \<not> is_digit c then Inl (-8)
       else if q \<noteq> [] \<and> (atoi q \<le> 0 \<or> atoi q > 65535) then Inl (-9)
       else Inr (if q = [] then 0 else atoi q))"
    using parts by (auto simp: parse_port_def)
  show "parse_path url (length pre + length (shape_text sh)) = path_parts t"
    using path_read [OF t, of "pre @ shape_text sh"] by (simp add: assms(1) r)
  show "url_part url (user_bgn a) (user_end a) = u" "url_part url (pass_bgn a) (pass_end a) = w"
    using parts by simp_all
qed

lemma url_parse_eq:
  assumes "url = pr @ ''://'' @ rest" "pr \<noteq> []" "\<forall>c\<in>set pr. protocol_char c"
  shows "url_parse url = (case collect rest (First []) of
      Inl e \<Rightarrow> Inl e
    | Inr sh \<Rightarrow> assemble pr (dropWhile (\<lambda>c. c \<notin> set ''/?#'') rest) sh)"
proof -
  have colon: "protocol_char c \<Longrightarrow> c \<noteq> CHR '':''" for c
    by (auto simp: protocol_char_def is_lower_def is_upper_def is_digit_def)
  have "takeWhile (\<lambda>c. c \<noteq> CHR '':'' \<and> protocol_char c) url = pr"
    using assms(1,3) colon by (simp add: takeWhile_append2)
  then have p: "scan_protocol url 0 = Inr (length pr)"
    using assms(1,2) by (simp add: scan_protocol_spec)
  have at: "char_at url (length pr + 1) = CHR ''/''" "char_at url (length pr + 2) = CHR ''/''"
    by (simp_all add: assms(1) char_at_def nth_append)
  have d: "drop (length pr + 3) url = rest" "url = (pr @ ''://'') @ rest" "take (length pr) url = pr"
    using assms(1) by (simp_all add: numeral_3_eq_3)
  have s: "scan_authority rest (length pr + 3) (pointers (length pr + 3) (First [])) =
     (case collect rest (First []) of
        Inl e \<Rightarrow> Inl e
      | Inr sh' \<Rightarrow> Inr (length pr + 3 + length (shape_text sh'),
          authority_end (length pr + 3 + length (shape_text sh')) (pointers (length pr + 3) sh')))"
    using scan_authority_collects [of rest "length pr + 3" "First []"] by simp
  show ?thesis
  proof (cases "collect rest (First [])")
    case (Inl e)
    then show ?thesis
      using s by (simp add: url_parse_def p at [simplified] d(1) no_pointers_def)
  next
    case (Inr sh)
    obtain u w h q where parts: "shape_parts sh = (u, w, h, q)"
      by (cases "shape_parts sh")
    have l: "length (pr @ ''://'') = length pr + 3"
      by simp
    note a = parse_authority [OF d(2) Inr refl parts, unfolded l]
    show ?thesis
      using s Inr by (simp add: url_parse_def p at [simplified] d(1,3) no_pointers_def a assemble_def parts
          split: prod.splits)
  qed
qed

lemma url_parse_protocol:
  assumes "url_parse url = Inr u"
  obtains pr rest where "url = pr @ ''://'' @ rest" "pr \<noteq> []" "\<forall>c\<in>set pr. protocol_char c"
proof -
  let ?pr = "takeWhile (\<lambda>c. c \<noteq> CHR '':'' \<and> protocol_char c) url"
  obtain p where p: "scan_protocol url 0 = Inr p"
    using assms by (cases "scan_protocol url 0") (auto simp: url_parse_def)
  then have pr: "p = length ?pr" "?pr \<noteq> []" "drop (length ?pr) url \<noteq> []" "hd (drop (length ?pr) url) = CHR '':''"
    by (auto simp: scan_protocol_spec Let_def split: if_splits)
  obtain x where x: "drop (length ?pr) url = CHR '':'' # x"
    using pr(3,4) by (cases "drop (length ?pr) url") auto
  then obtain q where url: "url = q @ CHR '':'' # x" and q: "q = ?pr"
    by (metis append_take_drop_id takeWhile_eq_take)
  have "char_at url (p + 1) = CHR ''/''" "char_at url (p + 2) = CHR ''/''"
    using assms p by (auto simp: url_parse_def split: if_splits)
  then have "x \<noteq> []" "hd x = CHR ''/''" "tl x \<noteq> []" "hd (tl x) = CHR ''/''"
    unfolding pr(1) q [symmetric] unfolding url
    by (cases x; cases "tl x"; simp add: char_at_def nth_append)+
  then obtain y where "x = ''//'' @ y"
    by (cases x; cases "tl x") auto
  moreover have "\<forall>c\<in>set q. protocol_char c" "q \<noteq> []"
    unfolding q using pr(2) by (auto dest: set_takeWhileD)
  ultimately show thesis
    using that [of q y] url by simp
qed

section \<open>URLs and their parts\<close>

text \<open>Parts of the right form, and how a URL is written from them.\<close>

definition plain :: "string \<Rightarrow> bool" where
  "plain s \<longleftrightarrow> (\<forall>c\<in>set s. c \<notin> set ''/?#:@'')"

definition url_ok :: "url_parts \<Rightarrow> bool" where
  "url_ok u \<longleftrightarrow>
     protocol u \<noteq> [] \<and> (\<forall>c\<in>set (protocol u). protocol_char c \<and> \<not> is_upper c) \<and>
     plain (user u) \<and> plain (password u) \<and>
     (\<forall>c\<in>set (host u). host_char c \<and> \<not> is_upper c) \<and> 0 \<le> port u \<and> port u \<le> 65535 \<and>
     path u \<noteq> [] \<and> hd (path u) = CHR ''/'' \<and> (\<forall>c\<in>set (path u). c \<notin> set ''?#'') \<and>
     CHR ''#'' \<notin> set (query u)"

definition url_text :: "url_parts \<Rightarrow> string" where
  "url_text u =
     protocol u @ ''://'' @
     (if user u = [] \<and> password u = [] then []
      else user u @ (if password u = [] then [] else CHR '':'' # password u) @ ''@'') @
     host u @ (if port u = 0 then [] else CHR '':'' # print_u16 (nat (port u))) @
     path u @ (if query u = [] then [] else CHR ''?'' # query u) @
     (if comment u = [] then [] else CHR ''#'' # comment u)"

lemma of_char_lowercase: "is_upper c \<Longrightarrow> of_char (lowercase c) = of_char c + (32 :: nat)"
  by (auto simp: is_upper_def lowercase_def less_eq_char_def)

lemma lowercase_kind [simp]:
  "\<not> is_upper (lowercase c)" "is_digit (lowercase c) \<longleftrightarrow> is_digit c"
  "is_lower (lowercase c) \<longleftrightarrow> is_lower c \<or> is_upper c"
  using of_char_lowercase [of c]
  by (cases "is_upper c"; auto simp: is_upper_def is_lower_def is_digit_def lowercase_def less_eq_char_def)+

lemma lowercase_id [simp]: "\<not> is_upper c \<Longrightarrow> lowercase c = c"
  by (simp add: lowercase_def)

lemma lowercase_legal:
  "protocol_char c \<Longrightarrow> protocol_char (lowercase c)" "host_char c \<Longrightarrow> host_char (lowercase c)"
  by (cases "is_upper c"; auto simp: protocol_char_def host_char_def)+

fun add_text :: "string \<Rightarrow> shape \<Rightarrow> shape" where
  "add_text x (First u) = First (u @ x)"
| "add_text x (Second u v) = Second u (v @ x)"
| "add_text x (Host_part u w h) = Host_part u w (h @ x)"
| "add_text x (Port_part u w h q) = Port_part u w h (q @ x)"

lemma add_text_Nil [simp]: "add_text [] sh = sh"
  by (cases sh) auto

lemma add_text_Cons: "add_text (c # x) sh = add_text x (add_char c sh)"
  by (cases sh) auto

lemma collect_plain: "plain x \<Longrightarrow> collect (x @ r) sh = collect r (add_text x sh)"
  by (induction x arbitrary: sh) (auto simp: plain_def add_text_Cons)

lemma collect_stop: "t = [] \<or> hd t \<in> set ''/?#'' \<Longrightarrow> collect t sh = Inr sh"
  by (cases t) auto

lemma plain_host: "\<forall>c\<in>set h. host_char c \<Longrightarrow> plain h"
  by (fastforce simp: plain_def host_char_def is_lower_def is_upper_def is_digit_def)

lemma decimal_digits_digit: "c \<in> set (decimal_digits k n) \<Longrightarrow> is_digit c"
proof (induction k n rule: decimal_digits.induct)
  case (2 k n)
  have "is_digit (char_of (48 + d))" if "d < 10" for d :: nat
    using that by (simp add: is_digit_def less_eq_char_def)
  then show ?case
    using 2 by (auto split: if_splits)
qed simp

lemma digit_print: "c \<in> set (print_u16 n) \<Longrightarrow> is_digit c"
  unfolding print_u16_def by (rule decimal_digits_digit)

lemma decimal_digits_nonempty: "decimal_digits (Suc k) n \<noteq> []"
  by simp

lemma print_nonempty: "print_u16 n \<noteq> []"
  using decimal_digits_nonempty [of 4 n] by (simp add: print_u16_def)

lemma plain_print: "plain (print_u16 n)"
proof -
  have "c \<notin> set ''/?#:@''" if "is_digit c" for c
    using that by (auto simp: is_digit_def)
  then show ?thesis
    unfolding plain_def using digit_print by blast
qed

lemma atoi_print:
  assumes "0 < n" "n \<le> 65535"
  shows "atoi (print_u16 (nat n)) = n"
proof -
  have "takeWhile is_digit (print_u16 (nat n)) = print_u16 (nat n)"
    by (auto simp: takeWhile_eq_all_conv dest: digit_print)
  moreover have "digits_value (print_u16 (nat n)) = nat n"
    using assms by (simp add: print_u16_def digits_value_decimal)
  ultimately have "atoi (print_u16 (nat n)) = sint (of_nat (min (nat n) (2 ^ 63 - 1)) :: i32)"
    by (simp only: atoi_def)
  also have "\<dots> = n"
    using assms by (simp add: signed_of_int signed_take_bit_int_eq_self)
  finally show ?thesis .
qed

lemma query_parts_text:
  assumes "CHR ''#'' \<notin> set q"
  shows "query_parts ((if q = [] then [] else CHR ''?'' # q) @ (if co = [] then [] else CHR ''#'' # co)) = (q, co)"
proof -
  have "takeWhile (\<lambda>c. c \<noteq> CHR ''#'') (q @ r) = q @ takeWhile (\<lambda>c. c \<noteq> CHR ''#'') r" for r
    using assms by (intro takeWhile_append2) auto
  from this [of "[]"] this [of "CHR ''#'' # co"] show ?thesis
    by (auto simp: query_parts_def)
qed

lemma path_parts_text:
  assumes "pa \<noteq> []" "hd pa = CHR ''/''" "\<forall>c\<in>set pa. c \<notin> set ''?#''" "CHR ''#'' \<notin> set q"
  shows "path_parts (pa @ (if q = [] then [] else CHR ''?'' # q) @ (if co = [] then [] else CHR ''#'' # co)) =
    (pa, q, co)"
proof -
  let ?r = "(if q = [] then [] else CHR ''?'' # q) @ (if co = [] then [] else CHR ''#'' # co)"
  have "takeWhile (\<lambda>c. c \<notin> set ''?#'') (pa @ ?r) = pa @ takeWhile (\<lambda>c. c \<notin> set ''?#'') ?r"
    using assms(3) by (intro takeWhile_append2) auto
  also have "takeWhile (\<lambda>c. c \<notin> set ''?#'') ?r = []"
    by simp
  finally have "takeWhile (\<lambda>c. c \<notin> set ''?#'') (pa @ ?r) = pa"
    by simp
  then show ?thesis
    using assms(1,2) query_parts_text [OF assms(4), of co] unfolding path_parts_def Let_def by simp
qed

definition shape_of :: "url_parts \<Rightarrow> shape" where
  "shape_of u =
     (let q = print_u16 (nat (port u)); w = (if password u = [] then None else Some (password u))
      in if user u = [] \<and> password u = [] then
           if port u = 0 then First (host u) else Second (host u) q
         else if port u = 0 then Host_part (user u) w (host u)
         else Port_part (user u) w (host u) q)"

lemma collect_shape_of:
  assumes "url_ok u" "t = [] \<or> hd t \<in> set ''/?#''"
  shows "collect ((if user u = [] \<and> password u = [] then []
      else user u @ (if password u = [] then [] else CHR '':'' # password u) @ ''@'') @
     host u @ (if port u = 0 then [] else CHR '':'' # print_u16 (nat (port u))) @ t) (First []) =
    Inr (shape_of u)"
proof -
  have p: "plain (user u)" "plain (password u)" "plain (host u)" "plain (print_u16 n)" for n
    using assms(1) plain_host plain_print by (auto simp: url_ok_def)
  note c = p [THEN collect_plain] collect_stop [OF assms(2)]
  show ?thesis
    by (simp add: c shape_of_def Let_def)
qed

lemma path_text_stops:
  "url_ok u \<Longrightarrow> hd (path u @ r) \<in> set ''/?#''"
  by (auto simp: url_ok_def)

lemma rest_after:
  assumes "collect rest (First []) = Inr sh" "rest = shape_text sh @ t"
  shows "dropWhile (\<lambda>c. c \<notin> set ''/?#'') rest = t"
  using collect_text [OF assms(1)] assms(2) by (metis append_Nil same_append_eq shape_text.simps(1) takeWhile_dropWhile_id)

lemma url_text_parsed:
  assumes "url_ok u"
  shows "url_parse (url_text u) = Inr u"
proof -
  let ?t = "path u @ (if query u = [] then [] else CHR ''?'' # query u) @
     (if comment u = [] then [] else CHR ''#'' # comment u)"
  let ?rest = "((if user u = [] \<and> password u = [] then []
      else user u @ (if password u = [] then [] else CHR '':'' # password u) @ ''@'') @
     host u @ (if port u = 0 then [] else CHR '':'' # print_u16 (nat (port u)))) @ ?t"
  note ok = assms [unfolded url_ok_def]
  have c: "collect ?rest (First []) = Inr (shape_of u)"
    using collect_shape_of [OF assms, of ?t] path_text_stops [OF assms] by simp
  have "?rest = shape_text (shape_of u) @ ?t"
    by (auto simp: shape_of_def Let_def user_text_def)
  note t = rest_after [OF c this]
  have path: "path_parts ?t = (path u, query u, comment u)"
    using ok by (intro path_parts_text) auto
  have lower: "map lowercase (protocol u) = protocol u" "map lowercase (host u) = host u"
    using ok by (auto intro: map_idI)
  have port: "port u \<noteq> 0 \<Longrightarrow> atoi (print_u16 (nat (port u))) = port u"
    using ok atoi_print [of "port u"] by simp
  have "assemble (protocol u) ?t (shape_of u) = Inr u"
    using ok path lower port digit_print [of _ "nat (port u)"] print_nonempty [of "nat (port u)"]
    by (auto simp: assemble_def shape_of_def Let_def opt_text_def)
  moreover have "url_text u = protocol u @ ''://'' @ ?rest"
    by (simp add: url_text_def)
  ultimately show ?thesis
    using url_parse_eq [of "url_text u" "protocol u" ?rest] ok c t by simp
qed

text \<open>
  C28: what is written is read back. A URL written from parts of the right form (protocol and host
  in small letters, no separator inside a part, a port up to 65535 with 0 for none, a path from
  the root) is parsed into the same parts.
\<close>

theorem url_round_trip:
  assumes "url_ok u"
  shows "url_parse (url_text u) = Inr u"
  using assms by (rule url_text_parsed)

lemma decimal_digits_numeral:
  "decimal_digits (numeral k) n =
     (if n < 10 then [char_of (48 + n)]
      else decimal_digits (pred_numeral k) (n div 10) @ [char_of (48 + n mod 10)])"
  by (simp only: numeral_eq_Suc decimal_digits.simps)

lemma print_8080: "print_u16 8080 = ''8080''"
  by (simp add: print_u16_def decimal_digits_numeral char_of_def bit_0)

theorem url_round_trip_witness:
  "url_parse ''http://me:pw@example.org:8080/a/b?x=1#top'' =
     Inr \<lparr>protocol = ''http'', user = ''me'', password = ''pw'', host = ''example.org'', port = 8080,
       path = ''/a/b'', query = ''x=1'', comment = ''top''\<rparr>"
proof -
  let ?u = "\<lparr>protocol = ''http'', user = ''me'', password = ''pw'', host = ''example.org'', port = 8080,
       path = ''/a/b'', query = ''x=1'', comment = ''top''\<rparr>"
  have ok: "url_ok ?u"
    by code_simp
  have written: "url_text ?u = ''http://me:pw@example.org:8080/a/b?x=1#top''"
    by (simp add: url_text_def print_8080)
  show ?thesis
    using url_round_trip [OF ok] unfolding written .
qed

fun plain_shape :: "shape \<Rightarrow> bool" where
  "plain_shape (First u) = plain u"
| "plain_shape (Second u v) = (plain u \<and> plain v)"
| "plain_shape (Host_part u w h) = (plain u \<and> plain (opt_text w) \<and> plain h)"
| "plain_shape (Port_part u w h q) = (plain u \<and> plain (opt_text w) \<and> plain h \<and> plain q)"

lemma plain_simps [simp]:
  "plain []" "plain (x @ y) \<longleftrightarrow> plain x \<and> plain y" "plain (c # x) \<longleftrightarrow> c \<notin> set ''/?#:@'' \<and> plain x"
  by (auto simp: plain_def)

lemma collect_plain_shape:
  "collect r sh = Inr sh' \<Longrightarrow> plain_shape sh \<Longrightarrow> plain_shape sh'"
proof (induction r arbitrary: sh)
  case (Cons c r)
  have "plain_shape s" if "add_colon sh = Inr s \<or> add_at sh = Inr s" for s
    using that Cons.prems(2) by (cases sh) (auto simp: opt_text_def)
  moreover have "plain_shape (add_char c sh)" if "c \<notin> set ''/?#:@''"
    using that Cons.prems(2) by (cases sh) auto
  ultimately show ?case
    using Cons by (auto split: if_splits sum.splits)
qed simp

lemma path_parts_ok:
  assumes "path_parts t = (pa, q, co)"
  shows "pa \<noteq> []" "hd pa = CHR ''/''" "\<forall>c\<in>set pa. c \<notin> set ''?#''" "CHR ''#'' \<notin> set q"
proof -
  let ?pa = "if t \<noteq> [] \<and> hd t = CHR ''/'' then takeWhile (\<lambda>c. c \<notin> set ''?#'') t else []"
  have pa: "pa = (if ?pa = [] then ''/'' else ?pa)"
    using assms by (auto simp: path_parts_def Let_def)
  have "?pa \<noteq> [] \<Longrightarrow> hd ?pa = CHR ''/''"
    by (cases t) auto
  then show "pa \<noteq> []" "hd pa = CHR ''/''"
    unfolding pa by auto
  show "\<forall>c\<in>set pa. c \<notin> set ''?#''"
    unfolding pa by (auto dest: set_takeWhileD split: if_splits)
  have "q = fst (query_parts (drop (length ?pa) t))"
    using assms by (auto simp: path_parts_def Let_def)
  moreover have "CHR ''#'' \<notin> set (fst (query_parts x))" for x
    by (cases x) (auto simp: query_parts_def Let_def dest: set_takeWhileD list.set_sel(2))
  ultimately show "CHR ''#'' \<notin> set q"
    by blast
qed

text \<open>
  C35: a successful parse gives parts of the right form: protocol and host in small letters with
  legal characters only, no separator inside user and password, the port 0 or between 1 and
  65535, a path from the root without query or comment, a query without comment. Whatever URL
  the parts came from, writing them and parsing again gives the same parts.
\<close>

theorem url_parse_ok:
  assumes "url_parse url = Inr u"
  shows "url_ok u \<and> url_parse (url_text u) = Inr u"
proof -
  obtain pr rest where url: "url = pr @ ''://'' @ rest" "pr \<noteq> []" "\<forall>c\<in>set pr. protocol_char c"
    using url_parse_protocol [OF assms] by blast
  then obtain sh where sh: "collect rest (First []) = Inr sh"
      "assemble pr (dropWhile (\<lambda>c. c \<notin> set ''/?#'') rest) sh = Inr u"
    using assms url_parse_eq [OF url] by (auto split: sum.splits)
  obtain v w h q pa qu co where parts: "shape_parts sh = (v, w, h, q)"
      "path_parts (dropWhile (\<lambda>c. c \<notin> set ''/?#'') rest) = (pa, qu, co)"
    by (metis prod_cases3 prod_cases4)
  have "plain v" "plain w"
    using collect_plain_shape [OF sh(1)] parts(1) by (cases sh; auto)+
  moreover have "\<forall>c\<in>set h. host_char c" "q \<noteq> [] \<Longrightarrow> 0 < atoi q \<and> atoi q \<le> 65535"
      and u: "u = \<lparr>protocol = map lowercase pr, user = v, password = w, host = map lowercase h,
            port = (if q = [] then 0 else atoi q), path = pa, query = qu, comment = co\<rparr>"
    using sh(2) parts by (auto simp: assemble_def split: if_splits)
  ultimately have "url_ok u"
    using url(2,3) path_parts_ok [OF parts(2)] lowercase_legal by (auto simp: url_ok_def u)
  then show ?thesis
    using url_text_parsed by blast
qed

theorem url_parse_ok_witness:
  "\<exists>u. url_parse ''HTTP://Example.ORG?x'' = Inr u \<and> url_ok u \<and> url_text u = ''http://example.org/?x''"
proof -
  let ?u = "\<lparr>protocol = ''http'', user = [], password = [], host = ''example.org'', port = 0,
       path = ''/'', query = ''x'', comment = []\<rparr>"
  have u: "url_parse ''HTTP://Example.ORG?x'' = Inr ?u"
    by code_simp
  have "url_text ?u = ''http://example.org/?x''"
    by (simp add: url_text_def)
  then show ?thesis
    using u url_parse_ok [OF u] by blast
qed

lemma atoi_wraps:
  assumes "\<forall>c\<in>set q. is_digit c" "digits_value q = 2 ^ 32 * k + n" "digits_value q < 2 ^ 63" "n < 2 ^ 31"
  shows "atoi q = int n"
proof -
  have "takeWhile is_digit q = q"
    using assms(1) by (simp add: takeWhile_eq_all_conv)
  then have "atoi q = sint (of_nat (2 ^ 32 * k + n) :: i32)"
    using assms(2,3) by (simp only: atoi_def min_def) simp
  also have "(of_nat (2 ^ 32 * k + n) :: i32) = of_nat n"
    unfolding word_unat_eq_iff unat_of_nat by simp
  also have "sint (of_nat n :: i32) = int n"
    using assms(4) by (simp add: signed_of_nat signed_take_bit_int_eq_self)
  finally show ?thesis .
qed

lemma is_digit_plain: "\<forall>c\<in>set q. is_digit c \<Longrightarrow> plain q"
  unfolding plain_def by (fastforce simp: is_digit_def)

text \<open>
  The port of a URL is taken modulo \<open>2 ^ 32\<close>. A number of ten digits or more passes for the port
  it equals modulo \<open>2 ^ 32\<close>, where the parser means to refuse every number above 65535.
\<close>

theorem long_port_accepted:
  assumes "\<forall>c\<in>set h. host_char c \<and> \<not> is_upper c" "\<forall>c\<in>set q. is_digit c" "q \<noteq> []"
    and "digits_value q = 2 ^ 32 * k + n" "digits_value q < 2 ^ 63" "0 < n" "n \<le> 65535"
  shows "url_parse (''http://'' @ h @ '':'' @ q @ ''/'') =
    Inr \<lparr>protocol = ''http'', user = [], password = [], host = h, port = int n,
      path = ''/'', query = [], comment = []\<rparr>"
proof -
  let ?r = "h @ '':'' @ q @ ''/''"
  have c: "collect ?r (First []) = Inr (Second h q)"
    using plain_host [of h] is_digit_plain [of q] assms(1,2) by (simp add: collect_plain)
  have lower: "map lowercase h = h" "map lowercase ''http'' = ''http''"
    using assms(1) map_idI [of h lowercase] by (simp, code_simp)
  have "assemble ''http'' ''/'' (Second h q) = Inr \<lparr>protocol = ''http'', user = [], password = [],
      host = h, port = int n, path = ''/'', query = [], comment = []\<rparr>"
    using assms atoi_wraps [of q k n] lower
    by (auto simp: assemble_def path_parts_def query_parts_def simp del: list.map)
  moreover have "dropWhile (\<lambda>c. c \<notin> set ''/?#'') ?r = ''/''"
    by (rule rest_after [OF c]) simp
  moreover have "\<forall>c\<in>set ''http''. protocol_char c"
    by code_simp
  ultimately show ?thesis
    using url_parse_eq [of _ "''http''" ?r] c by simp
qed

theorem long_port_accepted_witness:
  "url_parse ''http://h:4294967376/'' = Inr \<lparr>protocol = ''http'', user = [], password = [], host = ''h'',
     port = 80, path = ''/'', query = [], comment = []\<rparr>"
proof -
  have "digits_value ''4294967376'' = 4294967376"
    by (simp add: digits_value_def)
  moreover have "\<forall>c\<in>set ''4294967376''. is_digit c" "\<forall>c\<in>set ''h''. host_char c \<and> \<not> is_upper c"
    by code_simp+
  ultimately show ?thesis
    using long_port_accepted [of "''h''" "''4294967376''" 1 80] by simp
qed

end
