(* ===== verification/Http_Parse.thy ===== *)
theory Http_Parse
  imports Http_Tables Http_Url
begin

text \<open>
  The parsers of responses (\<open>extensions/http/cocoflow-http.cc\<close>, \<open>http_rsp_parse\<close> and
  \<open>http_chunk_parse\<close>). Every loop of the code walks an index \<open>i\<close> towards \<open>len\<close>; here it has the text from
  \<open>i\<close> to \<open>len\<close> as its argument, so \<open>i < len\<close> means that there is a character and \<open>i + 1 < len\<close>
  that there are two. An index beyond \<open>len\<close>, which the code can reach after a key without a value,
  is the empty text: the code does not read there either.
\<close>

abbreviation CR :: char where "CR \<equiv> CHR 0x0D"
abbreviation LF :: char where "LF \<equiv> CHR 0x0A"

section \<open>The response header\<close>

record response =
  status_code :: int
  reason_phrase :: string
  header_fields :: "field \<Rightarrow> string option"

text \<open>The digits of the status code, and the text from the blank on.\<close>

fun scan_code :: "string \<Rightarrow> (string \<times> string) option" where
  "scan_code [] = Some ([], [])"
| "scan_code (c # r) =
     (if is_digit c then map_option (\<lambda>(x, y). (c # x, y)) (scan_code r)
      else if c = CHR '' '' then Some ([], c # r)
      else None)"

definition phrase_char :: "char \<Rightarrow> bool" where
  "phrase_char c \<longleftrightarrow> is_lower c \<or> is_upper c \<or> c \<in> set '' -''"

fun scan_phrase :: "string \<Rightarrow> (string \<times> string) option" where
  "scan_phrase (c # d # r) =
     (if c = CR \<and> d = LF then Some ([], c # d # r)
      else if phrase_char c then map_option (\<lambda>(x, y). (c # x, y)) (scan_phrase (d # r))
      else None)"
| "scan_phrase r = Some ([], r)"

definition key_char :: "char \<Rightarrow> bool" where
  "key_char c \<longleftrightarrow> is_digit c \<or> is_lower c \<or> is_upper c \<or> c = CHR ''-''"

fun scan_key :: "string \<Rightarrow> (string \<times> string) option" where
  "scan_key [] = Some ([], [])"
| "scan_key (c # r) =
     (if key_char c then map_option (\<lambda>(x, y). (c # x, y)) (scan_key r)
      else if c = CHR '':'' then Some ([], c # r)
      else None)"

fun scan_value :: "string \<Rightarrow> string \<times> string" where
  "scan_value (c # d # r) =
     (if c = CR \<and> d = LF then ([], c # d # r)
      else (case scan_value (d # r) of (x, y) \<Rightarrow> (c # x, y)))"
| "scan_value r = ([], r)"

text \<open>One header field: its key, its value without the blanks before it, and the text after its line.\<close>

definition next_field :: "string \<Rightarrow> int + (string \<times> string \<times> string)" where
  "next_field r =
     (case scan_key r of
        None \<Rightarrow> Inl (-5)
      | Some (key, r) \<Rightarrow>
          if key = [] then Inl (-5)
          else (case scan_value (dropWhile (\<lambda>c. c = CHR '' '') (tl r)) of
                  (v, r) \<Rightarrow> Inr (key, v, drop 2 r)))"

text \<open>The copy of the key into \<open>field_name\<close>: empty if the key is too long.\<close>

definition field_name :: "string \<Rightarrow> string" where
  "field_name key = (if length key \<le> HTTP_FIELD_NAME_MAX_LEN then map lowercase key else [])"

definition put_field ::
  "field set \<Rightarrow> string \<Rightarrow> string \<Rightarrow> (field \<Rightarrow> string option) \<Rightarrow> int + (field \<Rightarrow> string option)" where
  "put_field needs key v hf =
     (if field_name key = [] then Inr hf
      else
        (let cur = check_field (field_name key)
         in if cur = Unknown then Inr hf
            else if cur = ContentLength \<and> (v = [] \<or> (\<exists>c\<in>set v. \<not> is_digit c)) then Inl (-6)
            else if cur = TransferEncoding \<and> v \<noteq> ''chunked'' then Inl (-6)
            else if cur \<in> needs \<and> v \<noteq> [] then
              (case hf cur of None \<Rightarrow> Inr (hf(cur \<mapsto> v)) | Some _ \<Rightarrow> Inl (-7))
            else Inr hf))"

lemma scan_key_shorter: "scan_key r = Some (k, r') \<Longrightarrow> length k + length r' = length r"
  by (induction r arbitrary: k) (auto split: if_splits)

lemma scan_value_shorter: "length (snd (scan_value r)) \<le> length r"
  by (induction r rule: scan_value.induct) (auto split: prod.splits)

lemma next_field_shorter:
  assumes "next_field r = Inr (k, v, r')"
  shows "length r' < length r"
proof -
  obtain y where y: "scan_key r = Some (k, y)" "k \<noteq> []" "r' = drop 2 (snd (scan_value (dropWhile (\<lambda>c. c = CHR '' '') (tl y))))"
    using assms by (auto simp: next_field_def split: option.splits prod.splits if_splits)
  have "length r' \<le> length (dropWhile (\<lambda>c. c = CHR '' '') (tl y))"
    using scan_value_shorter [of "dropWhile (\<lambda>c. c = CHR '' '') (tl y)"] y(3) by simp
  also have "\<dots> \<le> length y"
    using length_dropWhile_le [of "\<lambda>c. c = CHR '' ''" "tl y"] by simp
  also have "\<dots> < length r"
    using scan_key_shorter [OF y(1)] y(2) by (cases k) auto
  finally show ?thesis .
qed

text \<open>
  The loop over the fields. The loop that means to cut blanks off the end of a value has an empty
  body, so it does not end if there is one.
\<close>

function parse_fields ::
  "field set \<Rightarrow> string \<Rightarrow> (field \<Rightarrow> string option) \<Rightarrow> (int + (field \<Rightarrow> string option)) res" where
  "parse_fields needs r hf =
     (if length r \<ge> 2 then
        if r ! 0 = CR \<and> r ! 1 = LF then Inr (if drop 2 r = [] then Inr hf else Inl (-4))
        else
          (case next_field r of
             Inl e \<Rightarrow> Inr (Inl e)
           | Inr (key, v, r') \<Rightarrow>
               if v \<noteq> [] \<and> last v = CHR '' '' then Inl Diverges
               else (case put_field needs key v hf of
                       Inl e \<Rightarrow> Inr (Inl e)
                     | Inr hf' \<Rightarrow> parse_fields needs r' hf'))
      else Inr (Inl (-4)))"
  by pat_completeness auto

termination
  by (relation "measure (\<lambda>(_, r, _). length r)") (auto dest: next_field_shorter)

declare parse_fields.simps [simp del]

definition http_rsp_parse :: "field set \<Rightarrow> string \<Rightarrow> (int + response) res" where
  "http_rsp_parse needs s =
     (if length s < 9 \<or> take 9 s \<noteq> ''HTTP/1.1 '' then Inr (Inl (-1))
      else
        (case scan_code (drop 9 s) of
           None \<Rightarrow> Inr (Inl (-2))
         | Some (code, r) \<Rightarrow>
             if length code \<noteq> 3 \<or> r = [] then Inr (Inl (-2))
             else
               (case scan_phrase (tl r) of
                  None \<Rightarrow> Inr (Inl (-3))
                | Some (phrase, t) \<Rightarrow>
                    if phrase = [] \<or> length t = 1 then Inr (Inl (-3))
                    else
                      res_bind (parse_fields needs (drop 2 t) (\<lambda>_. None)) (\<lambda>x. Inr
                        (case x of
                           Inl e \<Rightarrow> Inl e
                         | Inr hf \<Rightarrow> Inr \<lparr>status_code = atoi (code @ r), reason_phrase = phrase,
                             header_fields = hf\<rparr>)))))"

section \<open>The size of a chunk\<close>

definition is_hex :: "char \<Rightarrow> bool" where
  "is_hex c \<longleftrightarrow> is_digit c \<or> (CHR ''a'' \<le> c \<and> c \<le> CHR ''f'') \<or> (CHR ''A'' \<le> c \<and> c \<le> CHR ''F'')"

definition hex_value :: "char \<Rightarrow> nat" where
  "hex_value c =
     (if is_digit c then of_char c - 48
      else if is_lower c then of_char c - 87 else of_char c - 55)"

text \<open>
  \<open>sscanf\<close> with \<open>%zx\<close> and \<open>%zu\<close> on a text that begins with a digit of the base reads as
  \<open>strtoul\<close> does: digits as long as there are any, and the largest value if they denote more.
\<close>

definition saturate :: "nat \<Rightarrow> size_t" where
  "saturate n = of_nat (min n (2 ^ 64 - 1))"

definition scan_hex :: "string \<Rightarrow> size_t" where
  "scan_hex s = saturate (foldl (\<lambda>v c. 16 * v + hex_value c) 0 (takeWhile is_hex s))"

definition scan_dec :: "string \<Rightarrow> size_t" where
  "scan_dec s = saturate (digits_value (takeWhile is_digit s))"

fun scan_chunk :: "string \<Rightarrow> (string \<times> string) option" where
  "scan_chunk (c # d # r) =
     (if (c = CR \<and> d = LF) \<or> c = CHR '';'' then Some ([], c # d # r)
      else if is_hex c then map_option (\<lambda>(x, y). (c # x, y)) (scan_chunk (d # r))
      else None)"
| "scan_chunk r = Some ([], r)"

definition http_chunk_parse :: "string \<Rightarrow> int + size_t" where
  "http_chunk_parse s =
     (case scan_chunk s of
        None \<Rightarrow> Inl (-1)
      | Some (x, r) \<Rightarrow> if x = [] \<or> length r = 1 then Inl (-1) else Inr (scan_hex s))"

section \<open>Reading what was written\<close>

lemma scan_code_digits: "\<forall>c\<in>set ds. is_digit c \<Longrightarrow> scan_code (ds @ CHR '' '' # r) = Some (ds, CHR '' '' # r)"
  by (induction ds) (auto simp: is_digit_def)

lemma CR_no_char: "\<not> phrase_char CR" "\<not> key_char CR" "\<not> key_char (CHR '':'')"
  by code_simp+

lemma scan_phrase_text:
  "\<forall>c\<in>set p. phrase_char c \<Longrightarrow> scan_phrase (p @ CR # LF # r) = Some (p, CR # LF # r)"
proof (induction p)
  case (Cons c p)
  then show ?case
    using CR_no_char by (cases p) auto
qed simp

lemma scan_key_text: "\<forall>c\<in>set k. key_char c \<Longrightarrow> scan_key (k @ CHR '':'' # r) = Some (k, CHR '':'' # r)"
  using CR_no_char by (induction k) auto

lemma scan_value_text: "CR \<notin> set v \<Longrightarrow> scan_value (v @ CR # LF # r) = (v, CR # LF # r)"
proof (induction v)
  case (Cons c v)
  then show ?case
    by (cases v) auto
qed simp

text \<open>A header field as it is written, and the fields that can be written.\<close>

definition field_line :: "string \<times> string \<Rightarrow> string" where
  "field_line kv = fst kv @ '': '' @ snd kv @ [CR, LF]"

definition legal_field :: "string \<times> string \<Rightarrow> bool" where
  "legal_field kv \<longleftrightarrow> fst kv \<noteq> [] \<and> (\<forall>c\<in>set (fst kv). key_char c) \<and> CR \<notin> set (snd kv) \<and>
     (snd kv \<noteq> [] \<longrightarrow> hd (snd kv) \<noteq> CHR '' '')"

lemma next_field_line:
  assumes "legal_field (k, v)"
  shows "next_field (field_line (k, v) @ r) = Inr (k, v, r)"
proof -
  have "dropWhile (\<lambda>c. c = CHR '' '') (CHR '' '' # v @ CR # LF # r) = v @ CR # LF # r"
    using assms by (cases v) (auto simp: legal_field_def)
  then show ?thesis
    using assms scan_key_text [of k "CHR '' '' # v @ CR # LF # r"] scan_value_text [of v r]
    by (simp add: next_field_def field_line_def legal_field_def)
qed

fun put_fields ::
  "field set \<Rightarrow> (string \<times> string) list \<Rightarrow> (field \<Rightarrow> string option) \<Rightarrow> int + (field \<Rightarrow> string option)" where
  "put_fields needs [] hf = Inr hf"
| "put_fields needs ((k, v) # fs) hf = case_sum Inl (put_fields needs fs) (put_field needs k v hf)"

lemma field_line_start:
  assumes "legal_field kv"
  shows "length (field_line kv @ r) \<ge> 2 \<and> (field_line kv @ r) ! 0 \<noteq> CR"
  using assms CR_no_char(2) by (cases "fst kv") (auto simp: legal_field_def field_line_def)

lemma parse_fields_line:
  assumes "legal_field (k, v)"
  shows "parse_fields needs (field_line (k, v) @ r) hf =
    (if v \<noteq> [] \<and> last v = CHR '' '' then Inl Diverges
     else case put_field needs k v hf of
        Inl e \<Rightarrow> Inr (Inl e)
      | Inr hf' \<Rightarrow> parse_fields needs r hf')"
  using field_line_start [OF assms, of r] next_field_line [OF assms, of r]
  by (simp add: parse_fields.simps [of needs "field_line (k, v) @ r"] split: sum.splits)

definition writable :: "string \<times> string \<Rightarrow> bool" where
  "writable kv \<longleftrightarrow> legal_field kv \<and> (snd kv \<noteq> [] \<longrightarrow> last (snd kv) \<noteq> CHR '' '')"

lemma parse_fields_through:
  assumes "list_all writable fs" "put_fields needs fs hf = Inr hf'"
  shows "parse_fields needs (concat (map field_line fs) @ r) hf = parse_fields needs r hf'"
  using assms
proof (induction fs arbitrary: hf)
  case (Cons kv fs)
  then show ?case
    using parse_fields_line [of "fst kv" "snd kv" needs "concat (map field_line fs) @ r" hf]
    by (cases kv) (auto simp: writable_def split: sum.splits)
qed simp

text \<open>
  Which fields the client gets to see: those that are asked for, are known and have a value. The
  values of the length and of the encoding must have their form, and no field may come twice.
\<close>

definition seen_fields :: "field set \<Rightarrow> (string \<times> string) list \<Rightarrow> (field \<times> string) list" where
  "seen_fields needs fs =
     filter (\<lambda>(f, v). f \<in> needs \<and> f \<noteq> Unknown \<and> v \<noteq> []) (map (\<lambda>(k, v). (check_field (field_name k), v)) fs)"

definition value_ok :: "string \<times> string \<Rightarrow> bool" where
  "value_ok kv \<longleftrightarrow>
     (check_field (field_name (fst kv)) = ContentLength \<longrightarrow>
        snd kv \<noteq> [] \<and> (\<forall>c\<in>set (snd kv). is_digit c)) \<and>
     (check_field (field_name (fst kv)) = TransferEncoding \<longrightarrow> snd kv = ''chunked'')"

lemma check_field_empty: "check_field [] = Unknown"
  by code_simp

lemma put_fields_seen:
  assumes "list_all value_ok fs" "distinct (map fst (seen_fields needs fs))"
    "\<forall>f\<in>fst ` set (seen_fields needs fs). hf f = None"
  shows "put_fields needs fs hf = Inr (hf ++ map_of (seen_fields needs fs))"
  using assms
proof (induction fs arbitrary: hf)
  case Nil
  then show ?case
    by (simp add: seen_fields_def)
next
  case (Cons kv fs)
  obtain k v where kv: "kv = (k, v)"
    by (cases kv)
  let ?f = "check_field (field_name k)"
  show ?case
  proof (cases "?f \<in> needs \<and> ?f \<noteq> Unknown \<and> v \<noteq> []")
    case True
    then have s: "seen_fields needs (kv # fs) = (?f, v) # seen_fields needs fs"
      by (simp add: seen_fields_def kv)
    have "field_name k \<noteq> []"
      using True check_field_empty by metis
    moreover have "hf ?f = None"
      using Cons.prems(3) s by simp
    ultimately have "put_field needs k v hf = Inr (hf(?f \<mapsto> v))"
      using Cons.prems(1) True by (auto simp: put_field_def kv value_ok_def Let_def)
    moreover have "put_fields needs fs (hf(?f \<mapsto> v)) = Inr (hf(?f \<mapsto> v) ++ map_of (seen_fields needs fs))"
      using Cons.prems by (intro Cons.IH) (force simp: s)+
    moreover have "hf(?f \<mapsto> v) ++ map_of (seen_fields needs fs) = hf ++ map_of ((?f, v) # seen_fields needs fs)"
      using Cons.prems(2) map_of_eq_None_iff [of "seen_fields needs fs" ?f]
      by (auto simp: s fun_eq_iff map_add_def split: option.split)
    ultimately show ?thesis
      by (simp add: kv s [unfolded kv] del: map_of.simps)
  next
    case False
    then have s: "seen_fields needs (kv # fs) = seen_fields needs fs"
      by (auto simp: seen_fields_def kv)
    have "put_field needs k v hf = Inr hf"
      using Cons.prems False by (auto simp: put_field_def kv value_ok_def Let_def)
    then show ?thesis
      using Cons by (simp add: kv s [unfolded kv])
  qed
qed

definition rsp_head :: "nat \<Rightarrow> string \<Rightarrow> (string \<times> string) list \<Rightarrow> string" where
  "rsp_head code phrase fs =
     ''HTTP/1.1 '' @ decimal_digits 3 code @ '' '' @ phrase @ [CR, LF] @ concat (map field_line fs)"

lemma decimal_digits_2: "decimal_digits 2 n = (if n < 10 then [char_of (48 + n)]
      else decimal_digits 1 (n div 10) @ [char_of (48 + n mod 10)])"
  by (simp add: decimal_digits_numeral)

lemma three_digits:
  assumes "100 \<le> n" "n \<le> 999"
  shows "length (decimal_digits 3 n) = 3" "atoi (decimal_digits 3 n @ CHR '' '' # r) = int n"
proof -
  have d: "\<forall>c\<in>set (decimal_digits 3 n). is_digit c"
    using decimal_digits_digit by blast
  have "n div 10 \<ge> 10" "n div 10 div 10 < 10"
    using assms by (simp_all add: div_mult2_eq [symmetric] less_mult_imp_div_less)
  then show "length (decimal_digits 3 n) = 3"
    using assms by (simp add: decimal_digits_numeral decimal_digits_2)
  have "takeWhile is_digit (decimal_digits 3 n @ CHR '' '' # r) = decimal_digits 3 n"
    using d by (simp add: takeWhile_append2 is_digit_def)
  moreover have "digits_value (decimal_digits 3 n) = n"
    using assms by (simp add: digits_value_decimal)
  ultimately have "atoi (decimal_digits 3 n @ CHR '' '' # r) = sint (of_nat (min n (2 ^ 63 - 1)) :: i32)"
    by (simp only: atoi_def)
  also have "\<dots> = int n"
    using assms by (simp add: signed_of_nat signed_take_bit_int_eq_self)
  finally show "atoi (decimal_digits 3 n @ CHR '' '' # r) = int n" .
qed

lemma rsp_parse_head:
  assumes "100 \<le> code" "code \<le> 999" "phrase \<noteq> []" "\<forall>c\<in>set phrase. phrase_char c"
  shows "http_rsp_parse needs (rsp_head code phrase fs @ r) =
    res_bind (parse_fields needs (concat (map field_line fs) @ r) (\<lambda>_. None)) (\<lambda>x. Inr
      (case x of
         Inl e \<Rightarrow> Inl e
       | Inr hf \<Rightarrow> Inr \<lparr>status_code = int code, reason_phrase = phrase, header_fields = hf\<rparr>))"
proof -
  have "\<forall>c\<in>set (decimal_digits 3 code). is_digit c"
    using decimal_digits_digit by blast
  note digits = scan_code_digits [OF this] and n = three_digits [OF assms(1,2)]
  show ?thesis
    using assms(3)
    by (cases "parse_fields needs (concat (map field_line fs) @ r) (\<lambda>_. None)")
      (auto simp: http_rsp_parse_def rsp_head_def digits n scan_phrase_text [OF assms(4)] split: sum.split)
qed

lemma rsp_head_parsed:
  assumes "100 \<le> code" "code \<le> 999" "phrase \<noteq> []" "\<forall>c\<in>set phrase. phrase_char c"
    and "list_all writable fs" "list_all value_ok fs" "distinct (map fst (seen_fields needs fs))"
  shows "http_rsp_parse needs (rsp_head code phrase fs @ [CR, LF]) =
    Inr (Inr \<lparr>status_code = int code, reason_phrase = phrase, header_fields = map_of (seen_fields needs fs)\<rparr>)"
proof -
  have "put_fields needs fs (\<lambda>_. None) = Inr (map_of (seen_fields needs fs))"
    using put_fields_seen [OF assms(6,7), of "\<lambda>_. None"] by simp
  then have "parse_fields needs (concat (map field_line fs) @ [CR, LF]) (\<lambda>_. None) =
      Inr (Inr (map_of (seen_fields needs fs)))"
    by (simp add: parse_fields_through [OF assms(5)] parse_fields.simps [of needs "[CR, LF]"])
  then show ?thesis
    using rsp_parse_head [OF assms(1-4), of needs fs "[CR, LF]"] by simp
qed

text \<open>
  C29: the header of a response is read as it was written. From a status line with a code of three
  digits and a phrase of letters, blanks and hyphens, followed by well-formed fields, the parser
  gets the code, the phrase, and the fields it was asked for: those whose name (in any case of
  letters) is in the table and whose value is not empty, each with its value.
\<close>

theorem rsp_round_trip:
  assumes "100 \<le> code" "code \<le> 999" "phrase \<noteq> []" "\<forall>c\<in>set phrase. phrase_char c"
    and "list_all writable fs" "list_all value_ok fs" "distinct (map fst (seen_fields needs fs))"
  shows "http_rsp_parse needs (rsp_head code phrase fs @ [CR, LF]) =
    Inr (Inr \<lparr>status_code = int code, reason_phrase = phrase, header_fields = map_of (seen_fields needs fs)\<rparr>)"
  using assms by (rule rsp_head_parsed)

theorem rsp_round_trip_witness:
  "http_rsp_parse {ContentLength, TransferEncoding}
     (rsp_head 200 ''OK'' [(''Content-Length'', ''12''), (''X'', ''y'')] @ [CR, LF]) =
   Inr (Inr \<lparr>status_code = 200, reason_phrase = ''OK'', header_fields = [ContentLength \<mapsto> ''12'']\<rparr>)"
proof -
  let ?fs = "[(''Content-Length'', ''12''), (''X'', ''y'')]" and ?n = "{ContentLength, TransferEncoding}"
  have s: "seen_fields ?n ?fs = [(ContentLength, ''12'')]"
    by code_simp
  have "\<forall>c\<in>set ''OK''. phrase_char c" "list_all writable ?fs" "list_all value_ok ?fs"
    by code_simp+
  then show ?thesis
    using rsp_round_trip [of 200 "''OK''" ?fs ?n] by (simp add: s)
qed

text \<open>
  C37: a blank at the end of a header value hangs the client. The loop that means to cut such blanks off
  never moves its index, so a response with one in any of its fields is never parsed to the end.
\<close>

theorem trailing_blank_hangs:
  assumes "100 \<le> code" "code \<le> 999" "phrase \<noteq> []" "\<forall>c\<in>set phrase. phrase_char c"
    and "list_all writable fs" "list_all value_ok fs" "distinct (map fst (seen_fields needs fs))"
    and "legal_field (k, v @ '' '')"
  shows "http_rsp_parse needs (rsp_head code phrase (fs @ [(k, v @ '' '')]) @ r) = Inl Diverges"
proof -
  have "put_fields needs fs (\<lambda>_. None) = Inr (map_of (seen_fields needs fs))"
    using put_fields_seen [OF assms(6,7), of "\<lambda>_. None"] by simp
  then have "parse_fields needs (concat (map field_line fs) @ x) (\<lambda>_. None) =
      parse_fields needs x (map_of (seen_fields needs fs))" for x
    by (rule parse_fields_through [OF assms(5)])
  then show ?thesis
    using rsp_parse_head [OF assms(1-4), of needs "fs @ [(k, v @ '' '')]" r]
      parse_fields_line [OF assms(8), of needs r] by simp
qed

theorem trailing_blank_hangs_witness:
  "http_rsp_parse {ContentLength, TransferEncoding} (rsp_head 200 ''OK'' [(''Server'', ''x '')] @ [CR, LF]) =
     Inl Diverges"
proof -
  have "\<forall>c\<in>set ''OK''. phrase_char c" "legal_field (''Server'', ''x '')"
    by code_simp+
  then show ?thesis
    using trailing_blank_hangs [of 200 "''OK''" "[]" "{ContentLength, TransferEncoding}" "''Server''" "''x''" "[CR, LF]"]
    by (simp add: seen_fields_def)
qed

end
