(* ===== verification/Http_Client.thy ===== *)
theory Http_Client
  imports Http_Parse Tcp
begin

text \<open>
  The tasks \<open>http::get\<close> and \<open>http::post\<close> (\<open>extensions/http/cocoflow-http.cc\<close>): parse the URL, resolve the
  host, connect, send the request, receive the response. The tasks they await answer through
  parameters: the resolver, the result of connecting and of sending, and the bytes the server sends
  before the connection is lost. A \<open>recv_till\<close> on the connection takes from these bytes what its
  abstract request takes (\<open>taken\<close>).
\<close>

section \<open>The tasks\<close>

definition http_unfinished :: int where "http_unfinished = -1"
definition err_url_parse :: int where "err_url_parse = -2"
definition err_dns_resolve :: int where "err_dns_resolve = -3"
definition err_tcp_connect :: int where "err_tcp_connect = -4"
definition err_send_request :: int where "err_send_request = -5"
definition err_recv_response :: int where "err_recv_response = -6"
definition err_response_header_parse :: int where "err_response_header_parse = -7"
definition err_response_body_parse :: int where "err_response_body_parse = -8"
definition err_response_body_too_long :: int where "err_response_body_too_long = -9"

text \<open>
  The members of both classes. \<open>ret\<close>, \<open>errmsg\<close> and \<open>len\<close> are the user's variables; the user may pass no
  \<open>errmsg\<close>. The message is \<open>None\<close> while it is \<open>NULL\<close>. A \<open>get\<close> has no body to send.
\<close>

record http_task =
  http_ret :: int
  has_errmsg :: bool
  http_errmsg :: "string option"
  http_url :: string
  http_pbuf :: "u8 list option"
  http_plen :: size_t
  http_buf :: "u8 list option"
  http_len :: size_t

definition set_errmsg :: "string \<Rightarrow> http_task \<Rightarrow> http_task" where
  "set_errmsg msg x = (if has_errmsg x then x\<lparr>http_errmsg := Some msg\<rparr> else x)"

definition get_ctor :: "bool \<Rightarrow> string option \<Rightarrow> u8 list option \<Rightarrow> size_t \<Rightarrow> http_task res" where
  "get_ctor e url buf len =
     (case url of
        None \<Rightarrow> Inl Check_failed
      | Some url \<Rightarrow> check (len \<noteq> 0 \<longrightarrow> buf \<noteq> None)
          (Inr \<lparr>http_ret = http_unfinished, has_errmsg = e, http_errmsg = None, http_url = url,
             http_pbuf = None, http_plen = 0, http_buf = buf, http_len = len\<rparr>))"

definition post_ctor ::
  "bool \<Rightarrow> string option \<Rightarrow> u8 list option \<Rightarrow> size_t \<Rightarrow> u8 list option \<Rightarrow> size_t \<Rightarrow> http_task res" where
  "post_ctor e url pbuf plen buf len =
     (case url of
        None \<Rightarrow> Inl Check_failed
      | Some url \<Rightarrow> check (plen \<noteq> 0 \<longrightarrow> pbuf \<noteq> None) (check (len \<noteq> 0 \<longrightarrow> buf \<noteq> None)
          (Inr \<lparr>http_ret = http_unfinished, has_errmsg = e, http_errmsg = None, http_url = url,
             http_pbuf = pbuf, http_plen = plen, http_buf = buf, http_len = len\<rparr>)))"

text \<open>\<open>cancel\<close> of both classes.\<close>

definition http_cancel :: "http_task \<Rightarrow> http_task" where
  "http_cancel x = set_errmsg ''It was canceled'' (x\<lparr>http_len := 0\<rparr>)"

text \<open>The error returns: the length is cleared, the code and the message are set.\<close>

definition http_fail :: "int \<Rightarrow> string \<Rightarrow> http_task \<Rightarrow> http_task" where
  "http_fail e msg x = set_errmsg msg (x\<lparr>http_len := 0, http_ret := e\<rparr>)"

section \<open>Before the response\<close>

definition url_errmsg :: "int \<Rightarrow> string" where
  "url_errmsg e =
     (if e = -1 then ''Illegal character in protocol''
      else if e = -2 then ''Missing protocol''
      else if e = -3 then ''Missing \"//\"''
      else if e = -4 \<or> e = -5 then ''Illegal \":\"''
      else if e = -6 then ''Illegal \"@\"''
      else if e = -7 then ''Illegal character in host''
      else if e = -8 then ''Illegal character in port''
      else if e = -9 then ''Illegal value in port''
      else ''Failed in url parse'')"

text \<open>\<open>__url_parse\<close>: the failed task, or the parts.\<close>

definition client_url_parse :: "http_task \<Rightarrow> http_task + url_parts" where
  "client_url_parse x =
     (case url_parse (http_url x) of
        Inl e \<Rightarrow> Inl (http_fail err_url_parse (url_errmsg e) x)
      | Inr u \<Rightarrow>
          if protocol u \<noteq> ''http'' then Inl (http_fail err_url_parse ''Only supported protocol \"http\"'' x)
          else if user u \<noteq> [] \<or> password u \<noteq> [] then
            Inl (http_fail err_url_parse ''Unsupported user/password'' x)
          else if host u = [] then Inl (http_fail err_url_parse ''Missing host'' x)
          else Inr u)"

definition HTTP_DEFAULT_PORT :: int where "HTTP_DEFAULT_PORT = 80"

text \<open>\<open>htons\<close> into the first two bytes behind the family, of both structures.\<close>

definition set_port :: "int \<Rightarrow> sockaddr \<Rightarrow> sockaddr" where
  "set_port n a = a\<lparr>sa_data := (sa_data a)[0 := of_int (n div 256), 1 := of_int n]\<rparr>"

text \<open>
  \<open>__dns_resolve\<close>. The resolver answers with a code and a message, or with the first address of
  its list, if the list is not empty.
\<close>

definition client_dns_resolve ::
  "(string \<Rightarrow> int \<times> string option \<times> sockaddr option) \<Rightarrow> string \<Rightarrow> int \<Rightarrow> http_task
     \<Rightarrow> (http_task + sockaddr) res" where
  "client_dns_resolve dns h n x =
     (case dns h of (ret, errmsg, addr) \<Rightarrow>
        if ret \<noteq> 0 then
          Inr (Inl (http_fail err_dns_resolve
            (case errmsg of
               None \<Rightarrow> ''Failed in dns resolve''
             | Some m \<Rightarrow> if m = [] then ''Failed in dns resolve'' else m) x))
        else
          (case addr of
             None \<Rightarrow> Inl Check_failed
           | Some a \<Rightarrow> check (sa_family a = AF_INET \<or> sa_family a = AF_INET6)
               (Inr (Inr (set_port (if n \<noteq> 0 then n else HTTP_DEFAULT_PORT) a)))))"

text \<open>\<open>__connect\<close>: the task that failed, if it did.\<close>

definition client_connect :: "(sockaddr \<Rightarrow> int) \<Rightarrow> sockaddr \<Rightarrow> http_task \<Rightarrow> http_task option" where
  "client_connect connect a x =
     (if connect a \<noteq> success then Some (http_fail err_tcp_connect ''Failed in tcp connect'' x) else None)"

section \<open>The request\<close>

definition crlf :: string where "crlf = [CR, LF]"

definition request_line :: "string \<Rightarrow> url_parts \<Rightarrow> string" where
  "request_line verb u =
     verb @ '' '' @ path u @ (if query u = [] then [] else CHR ''?'' # query u) @ '' HTTP/1.1'' @ crlf"

definition host_line :: "url_parts \<Rightarrow> string" where
  "host_line u =
     ''Host: '' @ host u @ (if port u = 0 then [] else CHR '':'' # print_u16 (nat (port u))) @ crlf"

definition get_text :: "url_parts \<Rightarrow> string" where
  "get_text u = request_line ''GET'' u @ host_line u @ crlf"

definition post_text :: "url_parts \<Rightarrow> size_t \<Rightarrow> string" where
  "post_text u plen =
     request_line ''POST'' u @ host_line u @
     ''Content-Length: '' @ decimal_digits 20 (unat plen) @ crlf @ crlf"

definition bytes_of :: "string \<Rightarrow> u8 list" where
  "bytes_of s = map (\<lambda>c. of_nat (of_char c)) s"

definition chars_of :: "u8 list \<Rightarrow> string" where
  "chars_of b = map (\<lambda>x. char_of (unat x)) b"

definition TMP_SIZE :: nat where "TMP_SIZE = 4096"

text \<open>
  \<open>snprintf\<close> into \<open>tmp\<close>, and the block that is sent: \<open>snprintf\<close> returns the length of the whole text
  but writes at most one character less than the size, and a terminator.
\<close>

definition request_block :: "string \<Rightarrow> u8 list res" where
  "request_block s =
     check (length s > 0 \<and> length s \<le> TMP_SIZE)
       (Inr (if length s < TMP_SIZE then bytes_of s else bytes_of (take (TMP_SIZE - 1) s) @ [0]))"

section \<open>The response\<close>

text \<open>
  A \<open>recv_till\<close> into \<open>tmp\<close> or another block that is large enough: the bytes it got and those that are
  left, or nothing if the connection is lost before. A \<open>recv_till\<close> into the user's buffer from an
  offset on: bytes are written as they come, so a part may be written before the connection is lost.
\<close>

definition await_till :: "nat \<Rightarrow> u8 list option \<Rightarrow> u8 list \<Rightarrow> (u8 list \<times> u8 list) option res" where
  "await_till n pat s =
     check (n > 0) (Inr (map_option (\<lambda>k. (take k s, drop k s)) (taken n pat s)))"

definition await_into ::
  "nat \<Rightarrow> nat \<Rightarrow> u8 list option \<Rightarrow> u8 list \<Rightarrow> (u8 list \<times> u8 list option) res" where
  "await_into at n buf s =
     (case buf of
        None \<Rightarrow> Inl Check_failed
      | Some b \<Rightarrow> check (n > 0)
          (if at + length (take n s) > length b then Inl Out_of_bounds
           else Inr (blit b at (take n s), if n \<le> length s then Some (drop n s) else None)))"

definition rsp_errmsg :: "int \<Rightarrow> string" where
  "rsp_errmsg e =
     (if e = -1 then ''Illegal http version''
      else if e = -2 then ''Illegal status code''
      else if e = -3 then ''Illegal reason phrase''
      else if e = -4 then ''Illegal header end''
      else if e = -5 then ''Illegal field key''
      else if e = -6 then ''Illegal field value''
      else if e = -7 then ''Duplicate field''
      else ''Failed in http response parse'')"

definition needs :: "field set" where
  "needs = {ContentLength, TransferEncoding}"

lemma await_till_shorter:
  assumes "await_till n (Some p) s = Inr (Some (x, s'))" "p \<noteq> []"
  shows "length s' < length s"
proof -
  obtain k where k: "taken n (Some p) s = Some k" "n > 0" "s' = drop k s"
    using assms(1) by (auto simp: await_till_def check_eq_Inr)
  moreover have "k > 0"
    using k(1,2) assms(2) by (auto simp: taken_def first_end_Some min_def intro!: gr0I split: option.splits if_splits)
  ultimately show ?thesis
    using taken_bound [OF k(1)] assms(2) by auto
qed

lemma await_till_le:
  "await_till n pat s = Inr (Some (x, s')) \<Longrightarrow> length s' \<le> length s"
  by (auto simp: await_till_def check_eq_Inr)

lemma await_into_le: "await_into at n buf s = Inr (b, Some s') \<Longrightarrow> length s' \<le> length s"
  by (auto simp: await_into_def check_eq_Inr split: option.splits if_splits)

lemma chunk_round_shorter:
  assumes "await_till TMP_SIZE (Some [13, 10]) s = Inr (Some (line, s1))"
    "await_into at n buf s1 = Inr (b, Some s2)" "await_till 2 None s2 = Inr (Some (e, s3))"
  shows "length s3 < length s"
  using await_till_shorter [OF assms(1)] await_into_le [OF assms(2)] await_till_le [OF assms(3)] by simp

text \<open>
  The loop over the chunks. \<open>recved\<close> is the offset of \<open>cur\<close> in the user's buffer. The result is \<open>True\<close>
  with the failed task where the code returns \<open>true\<close>.
\<close>

function recv_chunks :: "http_task \<Rightarrow> size_t \<Rightarrow> u8 list \<Rightarrow> (bool \<times> http_task) res" where
  "recv_chunks x recved s =
     (case await_till TMP_SIZE (Some [13, 10]) s of
        Inl f \<Rightarrow> Inl f
      | Inr None \<Rightarrow> Inr (True, http_fail err_recv_response ''Failed in http recv body(chunked)'' x)
      | Inr (Some (line, s)) \<Rightarrow>
     (case http_chunk_parse (chars_of line) of
        Inl _ \<Rightarrow> Inr (True, http_fail err_response_body_parse ''Illegal chunk'' x)
      | Inr chunk_len \<Rightarrow>
     if chunk_len = 0 then Inr (False, x\<lparr>http_len := recved\<rparr>)
     else
       (let recv_len = (if recved + chunk_len > http_len x then http_len x - recved else chunk_len)
        in case await_into (unat recved) (unat recv_len) (http_buf x) s of
             Inl f \<Rightarrow> Inl f
           | Inr (b, None) \<Rightarrow>
               Inr (True, http_fail err_recv_response ''Failed in http recv body(chunked)'' (x\<lparr>http_buf := Some b\<rparr>))
           | Inr (b, Some s) \<Rightarrow>
               if recv_len < chunk_len then
                 Inr (True, set_errmsg ''Response body is too long''
                   (x\<lparr>http_buf := Some b, http_len := recved + recv_len, http_ret := err_response_body_too_long\<rparr>))
               else
                 (case await_till 2 None s of
                    Inl f \<Rightarrow> Inl f
                  | Inr None \<Rightarrow>
                      Inr (True, http_fail err_recv_response ''Failed in http recv body(chunked)'' (x\<lparr>http_buf := Some b\<rparr>))
                  | Inr (Some (chunk_end, s)) \<Rightarrow>
                      if chunk_end \<noteq> [13, 10]
                      then Inr (True, http_fail err_response_body_parse ''Illegal chunk'' (x\<lparr>http_buf := Some b\<rparr>))
                      else recv_chunks (x\<lparr>http_buf := Some b\<rparr>) (recved + recv_len) s))))"
  by pat_completeness auto

termination
  by (relation "measure (\<lambda>(_, _, s). length s)") (auto intro: chunk_round_shorter)

declare recv_chunks.simps [simp del]

text \<open>The body whose length the header tells.\<close>

definition recv_body :: "http_task \<Rightarrow> size_t \<Rightarrow> u8 list \<Rightarrow> (bool \<times> http_task) res" where
  "recv_body x body_len s =
     (if body_len > 0 then
        (let x = (if http_len x > body_len then x\<lparr>http_len := body_len\<rparr> else x)
         in res_bind (await_into 0 (unat (http_len x)) (http_buf x) s) (\<lambda>(b, r).
              let x = x\<lparr>http_buf := Some b\<rparr>
              in Inr (if r = None then (True, http_fail err_recv_response ''Failed in http recv body'' x)
                      else if http_len x < body_len then
                        (True, set_errmsg ''Response body is too long'' (x\<lparr>http_ret := err_response_body_too_long\<rparr>))
                      else (False, x))))
      else Inr (False, x\<lparr>http_len := 0\<rparr>))"

definition client_recv :: "http_task \<Rightarrow> u8 list \<Rightarrow> (bool \<times> http_task) res" where
  "client_recv x s =
     res_bind (await_till TMP_SIZE (Some [13, 10, 13, 10]) s) (\<lambda>r.
       case r of
         None \<Rightarrow> Inr (True, http_fail err_recv_response ''Failed in http recv header'' x)
       | Some (head, s) \<Rightarrow>
           res_bind (http_rsp_parse needs (chars_of head)) (\<lambda>p.
             case p of
               Inl e \<Rightarrow> Inr (True, http_fail err_response_header_parse (rsp_errmsg e) x)
             | Inr rsp \<Rightarrow>
                 res_bind
                   (if http_len x = 0 then Inr (False, x)
                    else if header_fields rsp TransferEncoding \<noteq> None then recv_chunks x 0 s
                    else
                      (case header_fields rsp ContentLength of
                         None \<Rightarrow> Inr (True, http_fail err_response_header_parse
                           ''Missing \"Content-Length\"/\"Transfer-Encoding\"'' x)
                       | Some v \<Rightarrow> recv_body x (scan_dec v) s))
                   (\<lambda>(failed, x).
                      Inr (if failed then (True, x)
                           else (False, set_errmsg (check_status (of_int (status_code rsp)))
                             (x\<lparr>http_ret := status_code rsp\<rparr>))))))"

section \<open>The whole task\<close>

text \<open>
  The answers of the tasks that are awaited, and what is sent: the blocks given to \<open>tcp::send\<close>.
\<close>

record answers =
  answer_dns :: "string \<Rightarrow> int \<times> string option \<times> sockaddr option"
  answer_connect :: "sockaddr \<Rightarrow> int"
  answer_send :: "u8 list \<Rightarrow> int"
  answer_bytes :: "u8 list"

text \<open>Up to the connection: the task has failed, or its URL.\<close>

definition client_open :: "answers \<Rightarrow> http_task \<Rightarrow> (http_task + url_parts) res" where
  "client_open net x =
     (case client_url_parse x of
        Inl x \<Rightarrow> Inr (Inl x)
      | Inr u \<Rightarrow>
          res_bind (client_dns_resolve (answer_dns net) (host u) (port u) x) (\<lambda>r.
            case r of
              Inl x \<Rightarrow> Inr (Inl x)
            | Inr a \<Rightarrow>
                (case client_connect (answer_connect net) a x of
                   Some x \<Rightarrow> Inr (Inl x)
                 | None \<Rightarrow> Inr (Inr u))))"

definition get_run :: "answers \<Rightarrow> http_task \<Rightarrow> (u8 list list \<times> http_task) res" where
  "get_run net x =
     res_bind (client_open net x) (\<lambda>r.
       case r of
         Inl x \<Rightarrow> Inr ([], x)
       | Inr u \<Rightarrow>
           res_bind (request_block (get_text u)) (\<lambda>tmp.
             if answer_send net tmp \<noteq> success
             then Inr ([tmp], http_fail err_send_request ''Failed in http send header'' x)
             else res_bind (client_recv x (answer_bytes net)) (\<lambda>(_, x). Inr ([tmp], x))))"

definition post_run :: "answers \<Rightarrow> http_task \<Rightarrow> (u8 list list \<times> http_task) res" where
  "post_run net x =
     res_bind (client_open net x) (\<lambda>r.
       case r of
         Inl x \<Rightarrow> Inr ([], x)
       | Inr u \<Rightarrow>
           res_bind (request_block (post_text u (http_plen x))) (\<lambda>tmp.
             if answer_send net tmp \<noteq> success
             then Inr ([tmp], http_fail err_send_request ''Failed in http send header'' x)
             else if http_plen x > 0 then
               (case http_pbuf x of
                  None \<Rightarrow> Inl Check_failed
                | Some b \<Rightarrow>
                    (let body = take (uv_buf_size (unat (http_plen x))) b
                     in if answer_send net body \<noteq> success
                        then Inr ([tmp, body], http_fail err_send_request ''Failed in http send body'' x)
                        else res_bind (client_recv x (answer_bytes net)) (\<lambda>(_, x). Inr ([tmp, body], x))))
             else res_bind (client_recv x (answer_bytes net)) (\<lambda>(_, x). Inr ([tmp], x))))"

end
