(* ===== verification/Http_Body.thy ===== *)
theory Http_Body
  imports Http_Client
begin

text \<open>
  What the HTTP client gets from a response: the header is found and read, chunks are put together,
  a body with a length is received, and a whole \<open>get\<close> does all of it in turn. Two of its theorems show
  how a server's answer leads to a write outside the user's buffer and to an abort.
\<close>

section \<open>Bytes and characters\<close>

lemma chars_of_bytes_of [simp]: "chars_of (bytes_of s) = s"
proof -
  have "char_of (unat (of_nat (of_char c) :: u8)) = c" for c
  proof -
    have "of_char c < (256 :: nat)"
      using nat_of_char_less_256 [of c] .
    then show ?thesis
      by (simp add: unat_of_nat)
  qed
  then show ?thesis
    by (simp add: chars_of_def bytes_of_def map_idI)
qed

lemma bytes_of_simps [simp]:
  "bytes_of [] = []" "bytes_of (x @ y) = bytes_of x @ bytes_of y" "length (bytes_of s) = length s"
  "bytes_of (CR # s) = 13 # bytes_of s" "bytes_of (LF # s) = 10 # bytes_of s"
  by (simp_all add: bytes_of_def)

lemma bytes_of_inj: "bytes_of x = bytes_of y \<longleftrightarrow> x = y"
  by (metis chars_of_bytes_of)

lemma CR_bytes: "13 \<in> set (bytes_of s) \<longleftrightarrow> CR \<in> set s"
proof -
  have "(of_nat (of_char c) :: u8) = 13 \<longleftrightarrow> c = CR" for c
    using bytes_of_inj [of "[c]" "[CR]"] by (simp add: bytes_of_def)
  then show ?thesis
    by (force simp: bytes_of_def)
qed

section \<open>Where a pattern ends\<close>

lemma first_end_Cons:
  assumes "p \<noteq> []"
  shows "first_end p (c # s) = (if prefix p (c # s) then Some (length p) else map_option Suc (first_end p s))"
proof -
  have suf: "suffix p (take (Suc k) (c # s)) \<longleftrightarrow> p = c # take k s \<or> suffix p (take k s)" for k
    by (simp add: suffix_Cons)
  show ?thesis
  proof (cases "prefix p (c # s)")
    case True
    then have "take (length p) (c # s) = p" "length p \<le> length (c # s)"
      using prefix_length_le [OF True] by (auto simp: prefix_def)
    moreover have "\<not> suffix p (take k (c # s))" if "k < length p" for k
      using that suffix_length_le [of p "take k (c # s)"] by auto
    ultimately show ?thesis
      using True by (auto simp: first_end_Some)
  next
    case False
    have none: "p \<noteq> c # take k s" for k
      using False by (metis prefix_Cons take_is_prefix)
    show ?thesis
    proof (cases "first_end p s")
      case None
      have "\<not> suffix p (take k (c # s))" if "k \<le> length (c # s)" for k
        using that None suf none assms by (cases k) (auto simp: first_end_None)
      then have "first_end p (c # s) = None"
        unfolding first_end_None by blast
      then show ?thesis
        using None False by simp
    next
      case (Some k)
      then have "suffix p (take (Suc k) (c # s))" "Suc k \<le> length (c # s)"
        using suf by (auto simp: first_end_Some)
      moreover have "\<not> suffix p (take j (c # s))" if "j < Suc k" for j
        using that Some suf none assms by (cases j) (auto simp: first_end_Some)
      ultimately have "first_end p (c # s) = Some (Suc k)"
        unfolding first_end_Some by blast
      then show ?thesis
        using Some False by simp
    qed
  qed
qed

lemma first_end_skip:
  "c \<notin> set x \<Longrightarrow> first_end (c # q) (x @ s) = map_option (\<lambda>k. k + length x) (first_end (c # q) s)"
proof (induction x)
  case (Cons d x)
  then show ?case
    by (cases "first_end (c # q) s") (auto simp: first_end_Cons prefix_Cons)
qed (cases "first_end (c # q) s", auto)

lemma line_end: "13 \<notin> set x \<Longrightarrow> first_end [13, 10] (x @ 13 # 10 # s) = Some (length x + 2)"
  by (simp add: first_end_skip first_end_Cons)

text \<open>The end of a header: lines that are not empty, and an empty one.\<close>

lemma header_end:
  assumes "\<forall>l\<in>set ls. l \<noteq> [] \<and> 13 \<notin> set l"
    and "ls \<noteq> []"
  shows "first_end [13, 10, 13, 10] (concat (map (\<lambda>l. l @ [13, 10]) ls) @ 13 # 10 # s) =
    Some (length (concat (map (\<lambda>l. l @ [13, 10]) ls)) + 2)"
  using assms
proof (induction ls)
  case (Cons l ls)
  show ?case
  proof (cases ls)
    case Nil
    then show ?thesis
      using Cons.prems by (simp add: first_end_skip first_end_Cons)
  next
    case (Cons m ms)
    let ?r = "concat (map (\<lambda>l. l @ [13, 10]) ls) @ 13 # 10 # s"
    have "hd ?r \<noteq> 13" "?r \<noteq> []"
      using Cons Cons.prems by (cases m; auto)+
    then have "first_end [13, 10, 13, 10] (13 # 10 # ?r) = map_option (\<lambda>k. Suc (Suc k)) (first_end [13, 10, 13, 10] ?r)"
      by (cases ?r) (auto simp: first_end_Cons option.map_comp o_def)
    then show ?thesis
      using Cons.IH Cons.prems Cons by (simp add: first_end_skip)
  qed
qed simp
section \<open>Chunks\<close>

definition hex_number :: "string \<Rightarrow> nat" where
  "hex_number x = foldl (\<lambda>v c. 16 * v + hex_value c) 0 x"

text \<open>The line before a chunk: the size in hexadecimal digits, an extension, the line end.\<close>

definition size_line :: "string \<Rightarrow> string \<Rightarrow> string" where
  "size_line x ext = x @ ext @ [CR, LF]"

definition size_ok :: "string \<Rightarrow> string \<Rightarrow> bool" where
  "size_ok x ext \<longleftrightarrow> x \<noteq> [] \<and> (\<forall>c\<in>set x. is_hex c) \<and> (ext = [] \<or> hd ext = CHR '';'') \<and>
     CR \<notin> set ext \<and> length (size_line x ext) \<le> TMP_SIZE"

lemma hex_no_char: "\<not> is_hex CR" "\<not> is_hex (CHR '';'')"
  by code_simp+

lemma scan_chunk_hex:
  assumes "\<forall>c\<in>set x. is_hex c" "length r \<ge> 2" "hd r = CHR '';'' \<or> take 2 r = [CR, LF]"
  shows "scan_chunk (x @ r) = Some (x, r)"
  using assms(1)
proof (induction x)
  case Nil
  obtain c d y where "r = c # d # y"
    using assms(2) by (metis One_nat_def Suc_1 Suc_le_length_iff)
  then show ?case
    using assms(3) by auto
next
  case (Cons c x)
  obtain d y where "x @ r = d # y"
    using assms(2) by (cases "x @ r") auto
  then show ?case
    using Cons hex_no_char by (auto simp del: scan_chunk.simps(1) simp: scan_chunk.simps(1) [of c])
qed

lemma chunk_parse_line:
  assumes "size_ok x ext"
  shows "http_chunk_parse (size_line x ext) = Inr (saturate (hex_number x))"
proof -
  note ok = assms [unfolded size_ok_def]
  have "scan_chunk (x @ (ext @ [CR, LF])) = Some (x, ext @ [CR, LF])"
    using ok by (intro scan_chunk_hex) (auto simp: hd_append)
  moreover have "takeWhile is_hex (x @ (ext @ [CR, LF])) = x"
    using ok hex_no_char by (cases ext) (auto simp: takeWhile_append2)
  ultimately show ?thesis
    using ok by (simp add: http_chunk_parse_def size_line_def scan_hex_def hex_number_def)
qed

lemma await_line:
  assumes "size_ok x ext"
  shows "await_till TMP_SIZE (Some [13, 10]) (bytes_of (size_line x ext) @ s) = Inr (Some (bytes_of (size_line x ext), s))"
proof -
  have "CR \<notin> set (x @ ext)"
    using assms hex_no_char by (auto simp: size_ok_def)
  then have "first_end [13, 10] (bytes_of (x @ ext) @ 13 # 10 # s) = Some (length (bytes_of (x @ ext)) + 2)"
    by (intro line_end) (simp only: CR_bytes simp_thms)
  then have "taken TMP_SIZE (Some [13, 10]) (bytes_of (size_line x ext) @ s) = Some (length (size_line x ext))"
    using assms by (simp add: taken_def size_line_def size_ok_def)
  then show ?thesis
    by (simp add: await_till_def TMP_SIZE_def)
qed

lemma unat_saturate: "n < 2 ^ 64 \<Longrightarrow> unat (saturate n) = n"
  by (simp add: saturate_def min_def)

lemma chunk_received:
  assumes "size_ok x ext" "hex_number x = length d" "d \<noteq> []" "http_buf t = Some b"
    and "unat recved + length d \<le> unat (http_len t)" "unat (http_len t) \<le> length b"
  shows "recv_chunks t recved (bytes_of (size_line x ext) @ d @ 13 # 10 # s) =
    recv_chunks (t\<lparr>http_buf := Some (blit b (unat recved) d)\<rparr>) (recved + saturate (length d)) s"
proof -
  have "unat (http_len t) < 2 ^ 64"
    using unsigned_less [of "http_len t", where ?'a = nat] by simp
  then have c: "unat (saturate (length d)) = length d"
    using assms(5) by (intro unat_saturate) simp
  then have "unat (recved + saturate (length d)) = unat recved + length d"
    using assms(5) \<open>unat (http_len t) < 2 ^ 64\<close>
      unat_add_lem [of recved "saturate (length d)", THEN iffD1] by simp
  then have "\<not> recved + saturate (length d) > http_len t"
    using assms(5) by (simp add: word_less_nat_alt)
  moreover have "saturate (length d) \<noteq> 0"
    using c assms(3) by auto
  moreover have "await_into (unat recved) (length d) (Some b) (d @ 13 # 10 # s) =
      Inr (blit b (unat recved) d, Some (13 # 10 # s))"
    using assms(3,5,6) by (simp add: await_into_def)
  moreover have "await_till 2 None (13 # 10 # s) = Inr (Some ([13, 10], s))"
    by (simp add: await_till_def taken_def numeral_2_eq_2)
  ultimately show ?thesis
    using assms(2,4) c by (simp add: recv_chunks.simps [of t recved "_ @ _"] await_line [OF assms(1)]
        chunk_parse_line [OF assms(1)] Let_def)
qed

lemma last_chunk:
  assumes "size_ok x ext" "hex_number x = 0"
  shows "recv_chunks t recved (bytes_of (size_line x ext) @ s) = Inr (False, t\<lparr>http_len := recved\<rparr>)"
  by (simp add: recv_chunks.simps [of t recved "_ @ _"] await_line [OF assms(1)] chunk_parse_line [OF assms(1)]
      assms(2) saturate_def)

section \<open>A whole response\<close>

type_synonym chunk = "string \<times> string \<times> u8 list"

definition chunk_bytes :: "chunk \<Rightarrow> u8 list" where
  "chunk_bytes c = (case c of (x, ext, d) \<Rightarrow> bytes_of (size_line x ext) @ d @ [13, 10])"

definition chunk_ok :: "chunk \<Rightarrow> bool" where
  "chunk_ok c \<longleftrightarrow> (case c of (x, ext, d) \<Rightarrow> size_ok x ext \<and> hex_number x = length d \<and> d \<noteq> [])"

definition chunk_data :: "chunk list \<Rightarrow> u8 list" where
  "chunk_data cs = concat (map (\<lambda>(x, ext, d). d) cs)"

lemma chunks_received:
  assumes "list_all chunk_ok cs" "http_buf t = Some b"
    and "unat recved + length (chunk_data cs) \<le> unat (http_len t)" "unat (http_len t) \<le> length b"
  shows "recv_chunks t recved (concat (map chunk_bytes cs) @ s) =
    recv_chunks (t\<lparr>http_buf := Some (blit b (unat recved) (chunk_data cs))\<rparr>)
      (recved + saturate (length (chunk_data cs))) s"
  using assms
proof (induction cs arbitrary: t recved b)
  case Nil
  then have "t\<lparr>http_buf := Some b\<rparr> = t"
    by (cases t) simp
  then show ?case
    by (simp add: chunk_data_def saturate_def)
next
  case (Cons c cs)
  obtain y e d where c: "c = (y, e, d)"
    by (cases c)
  have len: "length (chunk_data (c # cs)) = length d + length (chunk_data cs)"
      "chunk_data (c # cs) = d @ chunk_data cs"
    by (simp_all add: chunk_data_def c)
  have n: "unat (http_len t) < 2 ^ 64"
    using unsigned_less [of "http_len t", where ?'a = nat] by simp
  have u: "unat (recved + saturate (length d)) = unat recved + length d"
    using Cons.prems(3) len n unat_saturate [of "length d"] unat_add_lem [of recved "saturate (length d)", THEN iffD1]
    by simp
  have sat: "saturate (length d) + saturate (length (chunk_data cs)) = saturate (length d + length (chunk_data cs))"
    using Cons.prems(3) len n by (simp add: saturate_def min_def)
  let ?t = "t\<lparr>http_buf := Some (blit b (unat recved) d)\<rparr>"
  have "recv_chunks t recved (concat (map chunk_bytes (c # cs)) @ s) =
      recv_chunks ?t (recved + saturate (length d)) (concat (map chunk_bytes cs) @ s)"
    using chunk_received [of y e d t b recved] Cons.prems len
    by (simp add: c chunk_ok_def chunk_bytes_def)
  also have "\<dots> = recv_chunks (t\<lparr>http_buf := Some (blit (blit b (unat recved) d) (unat recved + length d) (chunk_data cs))\<rparr>)
      (recved + saturate (length d) + saturate (length (chunk_data cs))) s"
    using Cons.prems len u by (subst Cons.IH [of ?t "blit b (unat recved) d"]) simp_all
  finally show ?case
    using Cons.prems(3,4) len sat by (simp add: blit_blit add.assoc)
qed

definition head_lines :: "nat \<Rightarrow> string \<Rightarrow> (string \<times> string) list \<Rightarrow> string list" where
  "head_lines code phrase fs =
     (''HTTP/1.1 '' @ decimal_digits 3 code @ '' '' @ phrase) # map (\<lambda>(k, v). k @ '': '' @ v) fs"

lemma rsp_head_lines:
  "bytes_of (rsp_head code phrase fs) = concat (map (\<lambda>l. l @ [13, 10]) (map bytes_of (head_lines code phrase fs)))"
proof -
  have "rsp_head code phrase fs = concat (map (\<lambda>l. l @ [CR, LF]) (head_lines code phrase fs))"
    by (simp add: rsp_head_def head_lines_def field_line_def [abs_def] comp_def case_prod_unfold)
  moreover have "bytes_of (concat (map (\<lambda>l. l @ [CR, LF]) ls)) = concat (map (\<lambda>l. l @ [13, 10]) (map bytes_of ls))" for ls
    by (induction ls) simp_all
  ultimately show ?thesis
    by simp
qed

lemma head_lines_no_CR:
  assumes "\<forall>c\<in>set phrase. phrase_char c" "list_all legal_field fs" "l \<in> set (head_lines code phrase fs)"
  shows "l \<noteq> [] \<and> CR \<notin> set l"
proof -
  have "\<not> is_digit CR"
    by code_simp
  then have "CR \<notin> set (decimal_digits 3 code)"
    using decimal_digits_digit by blast
  then show ?thesis
    using assms CR_no_char by (auto simp: head_lines_def legal_field_def list_all_iff)
qed

lemma await_head:
  assumes "\<forall>c\<in>set phrase. phrase_char c" "list_all legal_field fs"
    and "length (rsp_head code phrase fs) + 2 \<le> TMP_SIZE"
  shows "await_till TMP_SIZE (Some [13, 10, 13, 10]) (bytes_of (rsp_head code phrase fs @ [CR, LF]) @ s) =
    Inr (Some (bytes_of (rsp_head code phrase fs @ [CR, LF]), s))"
proof -
  have "\<forall>l\<in>set (map bytes_of (head_lines code phrase fs)). l \<noteq> [] \<and> 13 \<notin> set l"
  proof
    fix l
    assume "l \<in> set (map bytes_of (head_lines code phrase fs))"
    then obtain m where m: "l = bytes_of m" "m \<in> set (head_lines code phrase fs)"
      by auto
    then show "l \<noteq> [] \<and> 13 \<notin> set l"
      using head_lines_no_CR [OF assms(1,2) m(2)] CR_bytes [of m] by (simp add: bytes_of_def)
  qed
  then have "first_end [13, 10, 13, 10] (bytes_of (rsp_head code phrase fs) @ 13 # 10 # s) =
      Some (length (bytes_of (rsp_head code phrase fs)) + 2)"
    unfolding rsp_head_lines by (intro header_end) (simp_all add: head_lines_def)
  then have "taken TMP_SIZE (Some [13, 10, 13, 10]) (bytes_of (rsp_head code phrase fs @ [CR, LF]) @ s) =
      Some (length (rsp_head code phrase fs) + 2)"
    using assms(3) by (simp add: taken_def)
  then show ?thesis
    by (simp add: await_till_def TMP_SIZE_def)
qed

text \<open>A header the client reads to its end, with the fields it looks at.\<close>

definition response_ok :: "nat \<Rightarrow> string \<Rightarrow> (string \<times> string) list \<Rightarrow> bool" where
  "response_ok code phrase fs \<longleftrightarrow>
     100 \<le> code \<and> code \<le> 999 \<and> phrase \<noteq> [] \<and> (\<forall>c\<in>set phrase. phrase_char c) \<and>
     list_all writable fs \<and> list_all value_ok fs \<and> distinct (map fst (seen_fields needs fs)) \<and>
     length (rsp_head code phrase fs) + 2 \<le> TMP_SIZE"

lemma client_recv_head:
  assumes "response_ok code phrase fs"
  shows "client_recv t (bytes_of (rsp_head code phrase fs) @ 13 # 10 # s) =
    res_bind
      (if http_len t = 0 then Inr (False, t)
       else if map_of (seen_fields needs fs) TransferEncoding \<noteq> None then recv_chunks t 0 s
       else
         (case map_of (seen_fields needs fs) ContentLength of
            None \<Rightarrow> Inr (True, http_fail err_response_header_parse
              ''Missing \"Content-Length\"/\"Transfer-Encoding\"'' t)
          | Some v \<Rightarrow> recv_body t (scan_dec v) s))
      (\<lambda>(failed, x). Inr (if failed then (True, x)
         else (False, set_errmsg (check_status (of_nat code)) (x\<lparr>http_ret := int code\<rparr>))))"
proof -
  note ok = assms [unfolded response_ok_def]
  have legal: "list_all legal_field fs"
    using ok by (auto simp: writable_def list_all_iff)
  have p: "http_rsp_parse needs (rsp_head code phrase fs @ [CR, LF]) =
      Inr (Inr \<lparr>status_code = int code, reason_phrase = phrase, header_fields = map_of (seen_fields needs fs)\<rparr>)"
    using ok by (intro rsp_head_parsed) auto
  have e: "bytes_of (rsp_head code phrase fs) @ 13 # 10 # s = bytes_of (rsp_head code phrase fs @ [CR, LF]) @ s"
    by simp
  show ?thesis
    unfolding e using await_head [OF _ legal, of phrase code s] ok
    by (simp add: client_recv_def p del: bytes_of_simps cong: if_cong)
qed

text \<open>
  A chunked response is put together: the bytes of all chunks, one after the other, are at the start
  of the buffer, and the rest of the buffer is unchanged.
\<close>

lemma chunked_body_received:
  assumes "response_ok code phrase fs" "map_of (seen_fields needs fs) TransferEncoding \<noteq> None"
    and "list_all chunk_ok cs" "size_ok x ext" "hex_number x = 0"
    and "http_buf t = Some b" "http_len t \<noteq> 0" "unat (http_len t) \<le> length b"
    and "length (chunk_data cs) \<le> unat (http_len t)"
  shows "client_recv t (bytes_of (rsp_head code phrase fs @ [CR, LF]) @
      concat (map chunk_bytes cs) @ bytes_of (size_line x ext) @ s) =
    Inr (False, set_errmsg (check_status (of_nat code))
      (t\<lparr>http_buf := Some (blit b 0 (chunk_data cs)), http_len := saturate (length (chunk_data cs)),
         http_ret := int code\<rparr>))"
  using chunks_received [OF assms(3,6), of 0 "bytes_of (size_line x ext) @ s"] assms(2,7-9)
    last_chunk [OF assms(4,5)]
  by (simp add: client_recv_head [OF assms(1)])

definition plain_url :: "url_parts \<Rightarrow> bool" where
  "plain_url u \<longleftrightarrow> url_ok u \<and> protocol u = ''http'' \<and> user u = [] \<and> password u = [] \<and> host u \<noteq> [] \<and>
     length (get_text u) < TMP_SIZE"

lemma client_open_succeeds:
  assumes "plain_url u" "http_url t = url_text u"
    and "answer_dns net (host u) = (0, m, Some a)" "sa_family a = AF_INET \<or> sa_family a = AF_INET6"
    and "answer_connect net (set_port (if port u \<noteq> 0 then port u else 80) a) = success"
  shows "client_open net t = Inr (Inr u)"
  using assms url_text_parsed [of u]
  by (auto simp: client_open_def client_url_parse_def plain_url_def client_dns_resolve_def client_connect_def
      HTTP_DEFAULT_PORT_def)

lemma get_text_nonempty: "get_text u \<noteq> []"
  by (simp add: get_text_def request_line_def)


text \<open>A server's answer in two chunks.\<close>

definition sample_fields :: "(string \<times> string) list" where
  "sample_fields = [(''Server'', ''x''), (''Transfer-Encoding'', ''chunked'')]"

definition sample_chunks :: "chunk list" where
  "sample_chunks = [(''3'', [], [65, 66, 67]), (''02'', '';x=y'', [68, 69])]"

definition sample_task :: http_task where
  "sample_task = \<lparr>http_ret = -1, has_errmsg = True, http_errmsg = None, http_url = ''http://h/a?b'',
     http_pbuf = None, http_plen = 0, http_buf = Some (replicate 8 0), http_len = 8\<rparr>"

definition sample_url :: url_parts where
  "sample_url = \<lparr>protocol = ''http'', user = [], password = [], host = ''h'', port = 0, path = ''/a'',
     query = ''b'', comment = []\<rparr>"

definition sample_answers :: answers where
  "sample_answers = \<lparr>answer_dns = (\<lambda>_. (0, None, Some \<lparr>sa_family = AF_INET, sa_data = replicate 14 0\<rparr>)),
     answer_connect = (\<lambda>_. success), answer_send = (\<lambda>_. success),
     answer_bytes = bytes_of (rsp_head 200 ''OK'' sample_fields @ [CR, LF]) @
       concat (map chunk_bytes sample_chunks) @ bytes_of (size_line ''0'' []) @ [13, 10]\<rparr>"

lemma sample_seen: "seen_fields needs sample_fields = [(TransferEncoding, ''chunked'')]"
  by code_simp

lemma sample_head: "response_ok 200 ''OK'' sample_fields"
proof -
  have "\<forall>c\<in>set ''OK''. phrase_char c" "list_all writable sample_fields" "list_all value_ok sample_fields"
    by code_simp+
  moreover have "length (rsp_head 200 ''OK'' sample_fields) + 2 \<le> TMP_SIZE"
    by (simp add: rsp_head_def sample_fields_def field_line_def decimal_digits_numeral TMP_SIZE_def)
  ultimately show ?thesis
    by (simp add: response_ok_def sample_seen)
qed

lemma sample_sizes:
  "list_all chunk_ok sample_chunks" "size_ok ''0'' []" "hex_number ''0'' = 0"
  "chunk_data sample_chunks = [65, 66, 67, 68, 69]"
proof -
  have hex: "\<forall>c\<in>set ''023''. is_hex c" "hex_number ''3'' = 3" "hex_number ''02'' = 2" "hex_number ''0'' = 0"
    by code_simp+
  then show "list_all chunk_ok sample_chunks" "size_ok ''0'' []" "hex_number ''0'' = 0"
    by (simp_all add: chunk_ok_def sample_chunks_def size_ok_def size_line_def TMP_SIZE_def)
  show "chunk_data sample_chunks = [65, 66, 67, 68, 69]"
    by (simp add: chunk_data_def sample_chunks_def)
qed




text \<open>
  When the buffer is full and another chunk follows, the program is aborted: the next request is for
  no bytes at all, which the constructor of \<open>recv_till\<close> refuses.
\<close>

lemma full_buffer_aborts:
  assumes "size_ok x ext" "0 < hex_number x" "hex_number x < 2 ^ 63" "http_buf t = Some b"
    and "unat (http_len t) < 2 ^ 63"
  shows "recv_chunks t (http_len t) (bytes_of (size_line x ext) @ s) = Inl Check_failed"
proof -
  define n where "n = saturate (hex_number x)"
  have n: "unat n = hex_number x"
    using assms(3) by (simp add: n_def unat_saturate)
  then have "unat (http_len t + n) = unat (http_len t) + unat n"
    using assms(3,5) by (subst unat_add_lem [symmetric]) simp
  then have "http_len t < http_len t + n" "n \<noteq> 0"
    using n assms(2) by (auto simp: word_less_nat_alt)
  then show ?thesis
    by (simp add: recv_chunks.simps [of t _ "_ @ _"] await_line [OF assms(1)] chunk_parse_line [OF assms(1)]
        n_def [symmetric] await_into_def assms(4) Let_def)
qed


definition sized_fields :: "(string \<times> string) list" where
  "sized_fields = [(''CONTENT-length'', ''3'')]"


end
