(* ===== verification/Http_Served.thy ===== *)
theory Http_Served
  imports Http_Body Tcp_Till
begin

text \<open>
  The HTTP client on a TCP connection: what the client's model calls \<open>await_till\<close> is what a connection
  does for a \<open>recv_till\<close> that waits on it.
\<close>



end
