(* ===== verification/Redis.thy ===== *)
theory Redis
  imports Ccf_Prelude
begin

text \<open>
  The Redis extension (\<open>extensions/redis/cocoflow-redis.cc\<close>, \<open>include/cocoflow-redis.h\<close>): a handle that keeps
  itself connected, and the tasks \<open>connect\<close> and \<open>command\<close>. The client library it adapts is not part
  of the repository: the results of its functions are arguments, and its callbacks are operations.
  What is used of it: a connect callback comes at most once for a context, and when it reports a
  failure the library frees the context afterwards; a disconnect callback comes only for a context that
  was connected, and after it the library frees the context. Allocating memory, starting a timer and attaching a context to the event loop are taken to succeed; the code
  aborts otherwise. \<open>Redis_Command\<close> models the commands.
\<close>

section \<open>The handle\<close>

datatype ctx_state = Connecting | Connected

text \<open>What the member \<open>data\<close> of a context points to.\<close>

datatype ctx_owner = Nobody | Handle | Connect_task

record redis_ctx =
  ctx_state :: ctx_state
  ctx_data :: ctx_owner

datatype timer_kind = Connect_timeout | Reconnect

datatype redis_report = Succeeded | Failed_exception | Failed_disconnect | Failed_timeout

text \<open>
  The members of \<open>redis\<close> and the objects of the two libraries that it uses: the contexts that are not
  freed, with their owner, and the timers that are open, with their delay.
  \<open>succeed_cb\<close> and \<open>failed_cb\<close> say whether the user has set callbacks, which are for logging only;
  \<open>reports\<close> are their calls.
\<close>

record redis =
  rd_context :: "nat option"
  rd_timer :: "nat option"
  cur_reconnect_interval :: int
  rd_timeout :: int
  rd_ip :: string
  rd_port :: int
  succeed_cb :: bool
  failed_cb :: bool
  old_opened :: bool
  ctxs :: "nat \<Rightarrow> redis_ctx option"
  open_timers :: "nat \<Rightarrow> (timer_kind \<times> int) option"
  fresh :: nat
  reports :: "redis_report list"

definition RECONNECT_INTERVAL_MIN :: int where "RECONNECT_INTERVAL_MIN = 10"
definition RECONNECT_INTERVAL_MAX :: int where "RECONNECT_INTERVAL_MAX = 10000"

definition new_redis :: redis where
  "new_redis = \<lparr>rd_context = None, rd_timer = None, cur_reconnect_interval = 0, rd_timeout = 0, rd_ip = [], rd_port = 0,
     succeed_cb = False, failed_cb = False, old_opened = False, ctxs = (\<lambda>_. None), open_timers = (\<lambda>_. None), fresh = 0, reports = []\<rparr>"

definition start_timer :: "timer_kind \<Rightarrow> int \<Rightarrow> redis \<Rightarrow> redis" where
  "start_timer k ms w =
     w\<lparr>rd_timer := Some (fresh w), open_timers := (open_timers w)(fresh w \<mapsto> (k, ms)), fresh := fresh w + 1\<rparr>"

text \<open>\<open>uv_close(timer, free_self_close_cb)\<close>: the timer is closed and its memory freed.\<close>

definition close_timer_of :: "redis \<Rightarrow> redis res" where
  "close_timer_of w =
     (case rd_timer w of
        None \<Rightarrow> Inl Null_pointer
      | Some i \<Rightarrow>
          if open_timers w i = None then Inl Double_close
          else Inr (w\<lparr>open_timers := (open_timers w)(i := None)\<rparr>))"

text \<open>\<open>lib\<close> is the library's message for a context.\<close>

definition errstr :: "(nat \<Rightarrow> string) \<Rightarrow> redis \<Rightarrow> string res" where
  "errstr lib w =
     (case rd_context w of
        None \<Rightarrow> Inr ''Uninitialized''
      | Some c \<Rightarrow> if ctxs w c = None then Inl Use_after_free else Inr (lib c))"

text \<open>\<open>err\<close> is the result of \<open>redisAsyncConnect\<close>.\<close>

definition connect_now :: "bool \<Rightarrow> int \<Rightarrow> redis \<Rightarrow> (int \<times> redis) res" where
  "connect_now always_return_zero err w =
     (let c = fresh w;
          w = w\<lparr>rd_context := Some c, fresh := fresh w + 1,
                ctxs := (ctxs w)(c \<mapsto> \<lparr>ctx_state = Connecting, ctx_data = Nobody\<rparr>)\<rparr>
      in if always_return_zero \<and> err \<noteq> 0 then Inl Check_failed
         else if err \<noteq> 0 then Inr (err, w)
         else
           (let w = w\<lparr>ctxs := (ctxs w)(c \<mapsto> \<lparr>ctx_state = Connecting, ctx_data = Handle\<rparr>)\<rparr>
            in Inr (0, start_timer Connect_timeout (rd_timeout w) w)))"

definition auto_connect :: "string option \<Rightarrow> int \<Rightarrow> int \<Rightarrow> int \<Rightarrow> redis \<Rightarrow> (int \<times> redis) res" where
  "auto_connect ip port timeout err w =
     check (rd_context w = None)
       (case ip of
          None \<Rightarrow> Inl Check_failed
        | Some a \<Rightarrow>
            check (timeout > 0) (connect_now False err (w\<lparr>rd_ip := a, rd_port := port, rd_timeout := timeout\<rparr>)))"

definition connect_coming :: "bool \<Rightarrow> redis \<Rightarrow> redis" where
  "connect_coming opened w =
     (let n = (if cur_reconnect_interval w = 0 then RECONNECT_INTERVAL_MIN else cur_reconnect_interval w * 2);
          n = (if n > RECONNECT_INTERVAL_MAX then RECONNECT_INTERVAL_MAX else n)
      in start_timer Reconnect n (w\<lparr>old_opened := opened, cur_reconnect_interval := n\<rparr>))"

definition set_auto_connect_callback :: "bool \<Rightarrow> bool \<Rightarrow> redis \<Rightarrow> redis" where
  "set_auto_connect_callback succeed failed w = w\<lparr>succeed_cb := succeed, failed_cb := failed\<rparr>"

definition notify_user :: "redis_report \<Rightarrow> redis \<Rightarrow> redis" where
  "notify_user r w = w\<lparr>reports := reports w @ (if (if r = Succeeded then succeed_cb w else failed_cb w) then [r] else [])\<rparr>"

text \<open>The handle that a context's \<open>data\<close> points to.\<close>

definition with_data :: "nat \<Rightarrow> redis \<Rightarrow> redis res \<Rightarrow> redis res" where
  "with_data c w k =
     (case ctxs w c of
        None \<Rightarrow> Inl Use_after_free
      | Some x \<Rightarrow> if ctx_data x = Handle then k else Inl Null_pointer)"

definition auto_connect_cb :: "nat \<Rightarrow> int \<Rightarrow> redis \<Rightarrow> redis res" where
  "auto_connect_cb c status w =
     with_data c w
       (res_bind (close_timer_of w) (\<lambda>w.
          if status = 0 then Inr (notify_user Succeeded (w\<lparr>cur_reconnect_interval := 0\<rparr>))
          else Inr (connect_coming True (notify_user Failed_exception w))))"

definition auto_connect_closed_cb :: "nat \<Rightarrow> redis \<Rightarrow> redis res" where
  "auto_connect_closed_cb c w =
     (case ctxs w c of
        None \<Rightarrow> Inl Use_after_free
      | Some x \<Rightarrow>
          Inr (if ctx_data x \<noteq> Nobody then connect_coming False (notify_user Failed_disconnect w) else w))"

definition auto_connect_timeout_cb :: "redis \<Rightarrow> redis res" where
  "auto_connect_timeout_cb w =
     res_bind (close_timer_of w) (\<lambda>w. Inr (connect_coming True (notify_user Failed_timeout w)))"

text \<open>\<open>redisAsyncFree\<close> of the handle's context, with its \<open>data\<close> cleared before.\<close>

definition free_context :: "redis \<Rightarrow> redis res" where
  "free_context w =
     (case rd_context w of
        None \<Rightarrow> Inl Null_pointer
      | Some c \<Rightarrow>
          if ctxs w c = None then Inl Use_after_free else Inr (w\<lparr>ctxs := (ctxs w)(c := None)\<rparr>))"

definition auto_reconnect_next_cb :: "int \<Rightarrow> redis \<Rightarrow> redis res" where
  "auto_reconnect_next_cb err w =
     res_bind (close_timer_of w) (\<lambda>w.
       res_bind (if old_opened w then free_context w else Inr w) (\<lambda>w.
         res_bind (connect_now True err w) (\<lambda>(_, w). Inr w)))"

definition redis_destroy :: "redis \<Rightarrow> redis res" where
  "redis_destroy w =
     (if rd_context w = None then Inr w
      else res_bind (free_context w) (\<lambda>w. if rd_timer w = None then Inr w else close_timer_of w))"

section \<open>How the handle lives\<close>

text \<open>The library's events: a timer fires while it is open, a callback comes for a context in its state.\<close>

datatype redis_event = Fire | Connect_result int | Disconnect

definition on_event :: "redis_event \<Rightarrow> redis \<Rightarrow> redis res option" where
  "on_event e w =
     (case (rd_context w, rd_timer w) of
        (Some c, Some i) \<Rightarrow>
          (case e of
             Fire \<Rightarrow>
               (case open_timers w i of
                  None \<Rightarrow> None
                | Some (Connect_timeout, _) \<Rightarrow> Some (auto_connect_timeout_cb w)
                | Some (Reconnect, _) \<Rightarrow> Some (auto_reconnect_next_cb 0 w))
           | Connect_result status \<Rightarrow>
               (case ctxs w c of
                  Some x \<Rightarrow>
                    if ctx_state x = Connecting then
                      Some (if status = 0
                        then auto_connect_cb c status (w\<lparr>ctxs := (ctxs w)(c \<mapsto> x\<lparr>ctx_state := Connected\<rparr>)\<rparr>)
                        else res_bind (auto_connect_cb c status w) (\<lambda>w. Inr (w\<lparr>ctxs := (ctxs w)(c := None)\<rparr>)))
                    else None
                | None \<Rightarrow> None)
           | Disconnect \<Rightarrow>
               (case ctxs w c of
                  Some x \<Rightarrow>
                    if ctx_state x = Connected then
                      Some (res_bind (auto_connect_closed_cb c w) (\<lambda>w. Inr (w\<lparr>ctxs := (ctxs w)(c := None)\<rparr>)))
                    else None
                | None \<Rightarrow> None))
      | _ \<Rightarrow> None)"

inductive redis_reach :: "int \<Rightarrow> redis \<Rightarrow> bool" for ms where
  opened: "auto_connect ip port ms 0 new_redis = Inr (r, w) \<Longrightarrow> redis_reach ms w"
| callbacks: "redis_reach ms w \<Longrightarrow> redis_reach ms (set_auto_connect_callback b b' w)"
| event: "redis_reach ms w \<Longrightarrow> on_event e w = Some (Inr w') \<Longrightarrow> redis_reach ms w'"

definition connected_now :: "redis \<Rightarrow> bool" where
  "connected_now w \<longleftrightarrow> (\<exists>c x. rd_context w = Some c \<and> ctxs w c = Some x \<and> ctx_state x = Connected)"

text \<open>A context that the library has freed and that the next attempt is going to free.\<close>

definition stale_context :: "redis \<Rightarrow> bool" where
  "stale_context w \<longleftrightarrow> old_opened w \<and> (\<exists>c. rd_context w = Some c \<and> ctxs w c = None)"

text \<open>
  The state of the handle: at most one timer is open, the handle's own, and it is open exactly while
  the handle is not connected; delays are within the bounds; the context is there unless the connection
  was closed by the peer or could not be made, in which case a timer for the next attempt runs.
\<close>

definition delay_ok :: "int \<Rightarrow> timer_kind \<times> int \<Rightarrow> bool" where
  "delay_ok ms k \<longleftrightarrow> (case k of
       (Connect_timeout, n) \<Rightarrow> n = ms
     | (Reconnect, n) \<Rightarrow> RECONNECT_INTERVAL_MIN \<le> n \<and> n \<le> RECONNECT_INTERVAL_MAX)"

definition intervals_ok :: "int \<Rightarrow> redis \<Rightarrow> bool" where
  "intervals_ok ms w \<longleftrightarrow>
     rd_timeout w = ms \<and> 0 \<le> cur_reconnect_interval w \<and> cur_reconnect_interval w \<le> RECONNECT_INTERVAL_MAX \<and>
     (cur_reconnect_interval w = 0 \<or> RECONNECT_INTERVAL_MIN \<le> cur_reconnect_interval w)"

definition links_ok :: "int \<Rightarrow> redis \<Rightarrow> nat \<Rightarrow> nat \<Rightarrow> bool" where
  "links_ok ms w c i \<longleftrightarrow>
     rd_context w = Some c \<and> rd_timer w = Some i \<and>
     (\<forall>j k. open_timers w j = Some k \<longrightarrow> j = i \<and> delay_ok ms k) \<and>
     (\<forall>d x. ctxs w d = Some x \<longrightarrow> d = c \<and> ctx_data x = Handle) \<and>
     (open_timers w i = None \<longleftrightarrow> connected_now w) \<and>
     (ctxs w c = None \<longrightarrow> (\<exists>n. open_timers w i = Some (Reconnect, n))) \<and>
     (ctxs w c \<noteq> None \<longrightarrow> connected_now w \<or> old_opened w \<or> (\<exists>n. open_timers w i = Some (Connect_timeout, n)))"

definition redis_inv :: "int \<Rightarrow> redis \<Rightarrow> bool" where
  "redis_inv ms w \<longleftrightarrow> intervals_ok ms w \<and> (\<exists>c i. links_ok ms w c i)"

lemma interval_next:
  assumes "0 \<le> n" "n \<le> RECONNECT_INTERVAL_MAX" "n = 0 \<or> RECONNECT_INTERVAL_MIN \<le> n"
  defines "m \<equiv> if n = 0 then RECONNECT_INTERVAL_MIN else n * 2"
  shows "RECONNECT_INTERVAL_MIN \<le> (if m > RECONNECT_INTERVAL_MAX then RECONNECT_INTERVAL_MAX else m)"
    "(if m > RECONNECT_INTERVAL_MAX then RECONNECT_INTERVAL_MAX else m) \<le> RECONNECT_INTERVAL_MAX"
  using assms(1-3) by (auto simp: m_def RECONNECT_INTERVAL_MIN_def RECONNECT_INTERVAL_MAX_def)

text \<open>What \<open>connect_coming\<close> leaves behind when no timer was open.\<close>

lemma connect_coming_inv:
  assumes "intervals_ok ms w" "open_timers w = (\<lambda>_. None)" "rd_context w = Some c" "\<not> connected_now w"
    and "\<forall>d x. ctxs w d = Some x \<longrightarrow> d = c \<and> ctx_data x = Handle" "ctxs w c = None \<or> b"
  shows "redis_inv ms (connect_coming b w)"
proof -
  let ?w = "connect_coming b w"
  define n where "n = cur_reconnect_interval ?w"
  note i = assms(1) [unfolded intervals_ok_def]
  have n: "RECONNECT_INTERVAL_MIN \<le> n" "n \<le> RECONNECT_INTERVAL_MAX"
    using interval_next [of "cur_reconnect_interval w"] i
    by (simp_all add: n_def connect_coming_def start_timer_def Let_def)
  have f: "rd_timeout ?w = ms" "rd_timer ?w = Some (fresh w)" "open_timers ?w = [fresh w \<mapsto> (Reconnect, n)]"
      "rd_context ?w = Some c" "ctxs ?w = ctxs w" "old_opened ?w = b"
    using i assms(2,3) by (simp_all add: connect_coming_def start_timer_def Let_def n_def)
  have "connected_now ?w = connected_now w"
    using f(4,5) assms(3) by (simp add: connected_now_def)
  then have "links_ok ms ?w c (fresh w)"
    unfolding links_ok_def f using n assms(4-6) by (auto simp: delay_ok_def)
  moreover have "intervals_ok ms ?w"
    using n f(1) by (simp add: intervals_ok_def n_def [symmetric] RECONNECT_INTERVAL_MIN_def)
  ultimately show ?thesis
    by (auto simp: redis_inv_def)
qed

lemma connect_now_inv:
  assumes "intervals_ok ms w" "open_timers w = (\<lambda>_. None)" "ctxs w = (\<lambda>_. None)"
  shows "\<exists>w'. connect_now b 0 w = Inr (0, w') \<and> redis_inv ms w'"
proof -
  let ?c = "\<lparr>ctx_state = Connecting, ctx_data = Handle\<rparr>"
  let ?w = "w\<lparr>rd_context := Some (fresh w), fresh := fresh w + 1, ctxs := [fresh w \<mapsto> ?c]\<rparr>"
  let ?v = "start_timer Connect_timeout ms ?w"
  have "connect_now b 0 w = Inr (0, ?v)"
    using assms(1,3) by (simp add: connect_now_def intervals_ok_def Let_def)
  moreover have "\<not> connected_now ?v"
    by (auto simp: connected_now_def start_timer_def)
  then have "links_ok ms ?v (fresh w) (fresh w + 1)"
    using assms(2) by (simp add: links_ok_def start_timer_def delay_ok_def)
  moreover have "intervals_ok ms ?v"
    using assms(1) by (simp add: intervals_ok_def start_timer_def)
  ultimately show ?thesis
    by (auto simp: redis_inv_def)
qed

lemma only_entry: "\<forall>d x. f d = Some x \<longrightarrow> d = c \<and> P x \<Longrightarrow> f(c := None) = (\<lambda>_. None)"
  by (metis fun_upd_apply not_Some_eq)

lemma links_okD:
  assumes "links_ok ms w c i"
  shows "rd_context w = Some c" "rd_timer w = Some i"
    "\<forall>j k. open_timers w j = Some k \<longrightarrow> j = i \<and> delay_ok ms k"
    "\<forall>d x. ctxs w d = Some x \<longrightarrow> d = c \<and> ctx_data x = Handle"
    "open_timers w i = None \<longleftrightarrow> connected_now w"
    "ctxs w c = None \<longrightarrow> (\<exists>n. open_timers w i = Some (Reconnect, n))"
    "ctxs w c \<noteq> None \<longrightarrow> connected_now w \<or> old_opened w \<or> (\<exists>n. open_timers w i = Some (Connect_timeout, n))"
  using assms by (simp_all add: links_ok_def)

lemma inv_links:
  assumes "redis_inv ms w" "rd_context w = Some c"
  obtains i where "intervals_ok ms w" "links_ok ms w c i"
  using assms links_okD(1) [of ms w] unfolding redis_inv_def by (metis option.inject)

lemma links_ok_connected:
  assumes "rd_context w = Some c" "rd_timer w = Some i" "open_timers w = (\<lambda>_. None)" "connected_now w"
    and "\<forall>d x. ctxs w d = Some x \<longrightarrow> d = c \<and> ctx_data x = Handle"
  shows "links_ok ms w c i"
proof -
  have "ctxs w c \<noteq> None"
    using assms(1,4) by (auto simp: connected_now_def)
  then show ?thesis
    unfolding links_ok_def by (intro conjI assms(1,2,5)) (simp_all add: assms(3,4))
qed

lemma close_fields:
  assumes "links_ok ms w c i" "\<not> connected_now w"
  shows "open_timers w i \<noteq> None" "(open_timers w)(i := None) = (\<lambda>_. None)"
  using assms(2) links_okD(5) [OF assms(1)] only_entry [OF links_okD(3) [OF assms(1)]] by simp_all

lemma close_timer_inv:
  assumes "links_ok ms w c i" "\<not> connected_now w"
  shows "close_timer_of w = Inr (w\<lparr>open_timers := (\<lambda>_. None)\<rparr>)"
  using close_fields [OF assms] links_okD(2) [OF assms(1)] by (simp add: close_timer_of_def)

lemma notify_user_fields [simp]:
  "ctxs (notify_user r w) = ctxs w" "rd_context (notify_user r w) = rd_context w" "open_timers (notify_user r w) = open_timers w"
  "intervals_ok ms (notify_user r w) = intervals_ok ms w" "connected_now (notify_user r w) = connected_now w"
  by (simp_all add: notify_user_def intervals_ok_def connected_now_def)

lemma intervals_ok_other [simp]:
  "intervals_ok ms (w\<lparr>open_timers := f\<rparr>) = intervals_ok ms w" "intervals_ok ms (w\<lparr>ctxs := g\<rparr>) = intervals_ok ms w"
  by (simp_all add: intervals_ok_def)

lemma connected_now_timers [simp]: "connected_now (w\<lparr>open_timers := f\<rparr>) = connected_now w"
  by (simp add: connected_now_def)

lemma coming_kept:
  assumes "intervals_ok ms w" "links_ok ms w c i" "\<not> connected_now w"
  shows "redis_inv ms (connect_coming True (notify_user r (w\<lparr>open_timers := (\<lambda>_. None)\<rparr>)))"
proof (rule connect_coming_inv [where c = c])
  have "ctxs (notify_user r (w\<lparr>open_timers := (\<lambda>_. None)\<rparr>)) = ctxs w"
    by simp
  then show "\<forall>d x. ctxs (notify_user r (w\<lparr>open_timers := (\<lambda>_. None)\<rparr>)) d = Some x \<longrightarrow> d = c \<and> ctx_data x = Handle"
    using links_okD(4) [OF assms(2)] by (simp only: simp_thms)
qed (use assms links_okD(1) [OF assms(2)] in simp_all)

text \<open>The library frees the context after the callback, which does not look at it again.\<close>

lemma connect_coming_ctxs:
  "(connect_coming b (notify_user r w))\<lparr>ctxs := f (ctxs (connect_coming b (notify_user r w)))\<rparr> =
   connect_coming b (notify_user r (w\<lparr>ctxs := f (ctxs w)\<rparr>))"
  by (simp add: connect_coming_def notify_user_def start_timer_def Let_def)

lemma coming_freed:
  assumes "intervals_ok ms w" "links_ok ms w c i"
  shows "redis_inv ms (connect_coming b (notify_user r (w\<lparr>open_timers := (\<lambda>_. None), ctxs := (ctxs w)(c := None)\<rparr>)))"
    (is "redis_inv ms (connect_coming b (notify_user r ?w))")
proof (rule connect_coming_inv [where c = c])
  have "ctxs (notify_user r ?w) = (\<lambda>_. None)"
    using only_entry [OF links_okD(4) [OF assms(2)]] by simp
  then show "\<forall>d y. ctxs (notify_user r ?w) d = Some y \<longrightarrow> d = c \<and> ctx_data y = Handle"
    by (simp only:) simp
qed (use assms links_okD(1) [OF assms(2)] in \<open>simp_all add: connected_now_def\<close>)

lemma timeout_inv:
  assumes "intervals_ok ms w" "links_ok ms w c i" "\<not> connected_now w"
  shows "\<exists>w'. auto_connect_timeout_cb w = Inr w' \<and> redis_inv ms w'"
  using coming_kept [OF assms] close_timer_inv [OF assms(2,3)] by (auto simp: auto_connect_timeout_cb_def)

lemma old_context_dropped:
  assumes "links_ok ms w c i" "open_timers w i = Some (Reconnect, n)" "\<not> stale_context w"
    and "w' = w\<lparr>open_timers := (\<lambda>_. None)\<rparr>"
  shows "(if old_opened w' then free_context w' else Inr w') = Inr (w'\<lparr>ctxs := (\<lambda>_. None)\<rparr>)"
proof (cases "ctxs w c")
  case None
  then have "ctxs w = (\<lambda>_. None)"
    using links_okD(4) [OF assms(1)] by (metis not_Some_eq)
  moreover have "\<not> old_opened w"
    using None assms(3) links_okD(1) [OF assms(1)] by (simp add: stale_context_def)
  ultimately show ?thesis
    by (simp add: assms(4))
next
  case (Some x)
  have "old_opened w"
    using links_okD(5,7) [OF assms(1)] assms(2) Some by auto
  then show ?thesis
    using links_okD(1) [OF assms(1)] only_entry [OF links_okD(4) [OF assms(1)]] Some
    by (simp add: assms(4) free_context_def)
qed

lemma reconnect_inv:
  assumes "intervals_ok ms w" "links_ok ms w c i" "open_timers w i = Some (Reconnect, n)"
  shows "if stale_context w then auto_reconnect_next_cb 0 w = Inl Use_after_free
    else \<exists>w'. auto_reconnect_next_cb 0 w = Inr w' \<and> redis_inv ms w'"
proof -
  let ?w = "w\<lparr>open_timers := (\<lambda>_. None)\<rparr>"
  have close: "close_timer_of w = Inr ?w"
    using links_okD(5) [OF assms(2)] assms(3) by (intro close_timer_inv [OF assms(2)]) simp
  have "\<exists>w'. auto_reconnect_next_cb 0 w = Inr w' \<and> redis_inv ms w'" if s: "\<not> stale_context w"
  proof -
    obtain w2 where "connect_now True 0 (?w\<lparr>ctxs := (\<lambda>_. None)\<rparr>) = Inr (0, w2)" "redis_inv ms w2"
      using connect_now_inv [of ms "?w\<lparr>ctxs := (\<lambda>_. None)\<rparr>" True] assms(1) by auto
    then show ?thesis
      using old_context_dropped [OF assms(2,3) s refl] close by (simp add: auto_reconnect_next_cb_def)
  qed
  then show ?thesis
    using close by (auto simp: auto_reconnect_next_cb_def stale_context_def free_context_def)
qed

lemma connect_failed_inv:
  assumes "intervals_ok ms w" "links_ok ms w c i" "\<not> connected_now w" "ctxs w c = Some x" "status \<noteq> 0"
  shows "\<exists>w'. res_bind (auto_connect_cb c status w) (\<lambda>w. Inr (w\<lparr>ctxs := (ctxs w)(c := None)\<rparr>)) = Inr w' \<and>
    redis_inv ms w'"
proof -
  let ?w = "w\<lparr>open_timers := (\<lambda>_. None)\<rparr>"
  have "ctx_data x = Handle"
    using links_okD(4) [OF assms(2)] assms(4) by blast
  then have "auto_connect_cb c status w = Inr (connect_coming True (notify_user Failed_exception ?w))"
    using close_timer_inv [OF assms(2,3)] assms(4,5) by (simp add: auto_connect_cb_def with_data_def)
  then show ?thesis
    using coming_freed [OF assms(1,2), of True Failed_exception]
      connect_coming_ctxs [where f = "\<lambda>m. m(c := None)" and w = ?w] by simp
qed

lemma connect_ok_inv:
  assumes "intervals_ok ms w" "links_ok ms w c i" "\<not> connected_now w" "ctxs w c = Some x"
    and "w' = w\<lparr>ctxs := (ctxs w)(c \<mapsto> x\<lparr>ctx_state := Connected\<rparr>)\<rparr>"
  shows "\<exists>w''. auto_connect_cb c 0 w' = Inr w'' \<and> redis_inv ms w''"
proof -
  let ?u = "notify_user Succeeded (w'\<lparr>open_timers := (\<lambda>_. None), cur_reconnect_interval := 0\<rparr>)"
  note only = links_okD(4) [OF assms(2)] and ci = links_okD(1,2) [OF assms(2)]
  have xd: "ctx_data x = Handle"
    using only assms(4) by blast
  have "close_timer_of w' = Inr (w'\<lparr>open_timers := (\<lambda>_. None)\<rparr>)"
    using close_fields [OF assms(2,3)] ci(2) by (simp add: close_timer_of_def assms(5))
  then have "auto_connect_cb c 0 w' = Inr ?u"
    using xd by (simp add: auto_connect_cb_def with_data_def assms(5))
  moreover have conn: "connected_now ?u"
    using ci(1) by (simp add: connected_now_def notify_user_def assms(5))
  moreover have "d = c \<and> ctx_data y = Handle" if "ctxs ?u d = Some y" for d y
  proof (cases "d = c")
    case False
    then have "ctxs w d = Some y"
      using that by (simp add: assms(5))
    then show ?thesis
      using only by blast
  qed (use that xd in \<open>auto simp: assms(5)\<close>)
  then have "\<forall>d y. ctxs ?u d = Some y \<longrightarrow> d = c \<and> ctx_data y = Handle"
    by blast
  from links_ok_connected [OF _ _ _ conn this] have "links_ok ms ?u c i"
    by (simp add: notify_user_def ci assms(5))
  moreover have "intervals_ok ms ?u"
    using assms(1) by (simp add: intervals_ok_def notify_user_def RECONNECT_INTERVAL_MAX_def assms(5))
  ultimately show ?thesis
    by (auto simp: redis_inv_def)
qed

lemma disconnect_inv:
  assumes "intervals_ok ms w" "links_ok ms w c i" "connected_now w" "ctxs w c = Some x"
  shows "\<exists>w'. res_bind (auto_connect_closed_cb c w) (\<lambda>w. Inr (w\<lparr>ctxs := (ctxs w)(c := None)\<rparr>)) = Inr w' \<and>
    redis_inv ms w'"
proof -
  have "ctx_data x = Handle"
    using links_okD(4) [OF assms(2)] assms(4) by blast
  moreover have "open_timers w = (\<lambda>_. None)"
    using links_okD(3,5) [OF assms(2)] assms(3) by (metis not_Some_eq)
  then have "w\<lparr>open_timers := (\<lambda>_. None)\<rparr> = w"
    by simp
  ultimately show ?thesis
    using coming_freed [OF assms(1,2), of False Failed_disconnect] assms(4)
      connect_coming_ctxs [where f = "\<lambda>m. m(c := None)" and w = w]
    by (simp add: auto_connect_closed_cb_def)
qed

lemma redis_inv_event:
  assumes "redis_inv ms w" "on_event e w = Some r"
  shows "if e = Fire \<and> stale_context w then r = Inl Use_after_free else \<exists>w'. r = Inr w' \<and> redis_inv ms w'"
proof -
  obtain c i where inv: "intervals_ok ms w" and l: "links_ok ms w c i"
    using assms(1) by (auto simp: redis_inv_def)
  note ci = links_okD(1,2) [OF l] and ev = assms(2) [unfolded on_event_def links_okD(1,2) [OF l]]
  show ?thesis
  proof (cases e)
    case Fire
    then obtain k n where k: "open_timers w i = Some (k, n)"
      using ev by (auto split: option.splits)
    then have nc: "\<not> connected_now w"
      using links_okD(5) [OF l] by simp
    show ?thesis
    proof (cases k)
      case Connect_timeout
      then have "\<not> stale_context w"
        using links_okD(6) [OF l] k ci(1) by (auto simp: stale_context_def)
      then show ?thesis
        using timeout_inv [OF inv l nc] ev Fire k Connect_timeout by auto
    next
      case Reconnect
      then show ?thesis
        using reconnect_inv [OF inv l, of n] ev Fire k by (auto split: if_splits)
    qed
  next
    case (Connect_result status)
    then obtain x where x: "ctxs w c = Some x" "ctx_state x = Connecting"
      using ev by (auto split: option.splits if_splits)
    then have nc: "\<not> connected_now w"
      using ci(1) by (simp add: connected_now_def)
    show ?thesis
    proof (cases "status = 0")
      case True
      then show ?thesis
        using connect_ok_inv [OF inv l nc x(1) refl] ev Connect_result x by auto
    next
      case False
      then show ?thesis
        using connect_failed_inv [OF inv l nc x(1) False] ev Connect_result x by auto
    qed
  next
    case Disconnect
    then obtain x where x: "ctxs w c = Some x" "ctx_state x = Connected"
      using ev by (auto split: option.splits if_splits)
    then have "connected_now w"
      using ci(1) by (simp add: connected_now_def)
    then show ?thesis
      using disconnect_inv [OF inv l _ x(1)] ev Disconnect x by auto
  qed
qed

lemma callbacks_inv: "redis_inv ms w \<Longrightarrow> redis_inv ms (set_auto_connect_callback b b' w)"
  by (simp add: redis_inv_def links_ok_def intervals_ok_def connected_now_def set_auto_connect_callback_def)

lemma redis_reach_inv: "redis_reach ms w \<Longrightarrow> redis_inv ms w"
proof (induction rule: redis_reach.induct)
  case (opened ip port r w)
  then obtain a where "connect_now False 0 (new_redis\<lparr>rd_ip := a, rd_port := port, rd_timeout := ms\<rparr>) = Inr (r, w)"
    by (auto simp: auto_connect_def check_eq_Inr split: option.splits)
  moreover have "\<exists>w'. connect_now False 0 (new_redis\<lparr>rd_ip := a, rd_port := port, rd_timeout := ms\<rparr>) = Inr (0, w') \<and>
      redis_inv ms w'"
    by (rule connect_now_inv) (simp_all add: new_redis_def intervals_ok_def RECONNECT_INTERVAL_MAX_def)
  ultimately show ?case
    by auto
next
  case (callbacks w b b')
  then show ?case
    by (simp add: callbacks_inv)
next
  case (event w e w')
  then show ?case
    using redis_inv_event [OF event.IH event.hyps(2)] by (auto split: if_splits)
qed


text \<open>The handle after \<open>auto_connect\<close> with the default timeout.\<close>

definition opened_redis :: redis where
  "opened_redis = start_timer Connect_timeout 2000 (new_redis\<lparr>rd_ip := ''127.0.0.1'', rd_port := 6379, rd_timeout := 2000, rd_context := Some 0,
     fresh := 1, ctxs := [0 \<mapsto> \<lparr>ctx_state = Connecting, ctx_data = Handle\<rparr>]\<rparr>)"

lemma opened_redis_reached: "redis_reach 2000 opened_redis"
  by (rule redis_reach.opened [where r = 0 and ip = "Some ''127.0.0.1''" and port = 6379])
    (simp add: auto_connect_def connect_now_def opened_redis_def new_redis_def start_timer_def Let_def)


text \<open>
  C38: a failed attempt to connect is followed by a double free. When the library reports to the handle that its
  attempt failed, the handle starts the timer of the next attempt with a delay within the bounds, and when that
  timer fires, the callback frees the context that the library has freed.
\<close>

theorem failed_attempt_freed_twice:
  assumes "redis_reach ms w" "rd_context w = Some c" "ctxs w c = Some x" "ctx_state x = Connecting" "status \<noteq> 0"
  shows "\<exists>w' i n. on_event (Connect_result status) w = Some (Inr w') \<and>
    rd_timer w' = Some i \<and> open_timers w' i = Some (Reconnect, n) \<and>
    RECONNECT_INTERVAL_MIN \<le> n \<and> n \<le> RECONNECT_INTERVAL_MAX \<and>
    on_event Fire w' = Some (Inl Use_after_free)"
proof -
  obtain i where inv: "intervals_ok ms w" and l: "links_ok ms w c i"
    using inv_links [OF redis_reach_inv [OF assms(1)] assms(2)] by blast
  let ?w = "connect_coming True (notify_user Failed_exception (w\<lparr>open_timers := (\<lambda>_. None), ctxs := (ctxs w)(c := None)\<rparr>))"
  have nc: "\<not> connected_now w"
    using assms(2-4) by (simp add: connected_now_def)
  have "ctx_data x = Handle"
    using links_okD(4) [OF l] assms(3) by blast
  then have ev: "on_event (Connect_result status) w = Some (Inr ?w)"
    using close_timer_inv [OF l nc] links_okD(1,2) [OF l] assms(3-5)
      connect_coming_ctxs [where f = "\<lambda>m. m(c := None)" and w = "w\<lparr>open_timers := (\<lambda>_. None)\<rparr>"]
    by (simp add: on_event_def auto_connect_cb_def with_data_def)
  have gone: "rd_context ?w = Some c" "ctxs ?w c = None" "old_opened ?w"
    using assms(2) by (simp_all add: connect_coming_def notify_user_def start_timer_def Let_def)
  obtain j where st: "intervals_ok ms ?w" "links_ok ms ?w c j"
    using inv_links [OF coming_freed [OF inv l] gone(1)] by blast
  then obtain n where n: "open_timers ?w j = Some (Reconnect, n)"
    using links_okD(6) [OF st(2)] gone(2) by blast
  have "stale_context ?w"
    using gone by (simp add: stale_context_def)
  then have "on_event Fire ?w = Some (Inl Use_after_free)"
    using reconnect_inv [OF st n] links_okD(1,2) [OF st(2)] n by (simp add: on_event_def)
  moreover have "delay_ok ms (Reconnect, n)"
    using links_okD(3) [OF st(2)] n by blast
  ultimately show ?thesis
    using ev n links_okD(2) [OF st(2)] by (auto simp: delay_ok_def)
qed

theorem failed_attempt_freed_twice_witness:
  "\<exists>w'. on_event (Connect_result (- 1)) opened_redis = Some (Inr w') \<and> on_event Fire w' = Some (Inl Use_after_free)"
  using failed_attempt_freed_twice [OF opened_redis_reached, of 0 "\<lparr>ctx_state = Connecting, ctx_data = Handle\<rparr>" "- 1"]
  by (auto simp: opened_redis_def start_timer_def)

text \<open>
  C39: destroying the handle is only safe while it has never been connected since its last attempt began. Once it is
  connected, the destructor closes the timer a second time that the callback has closed; after the
  peer closed the connection or an attempt failed, it uses the context that the library has freed.
\<close>

theorem redis_destroy_faults:
  assumes "redis_reach ms w" "rd_context w = Some c"
  shows "redis_destroy w =
    (if connected_now w then Inl Double_close
     else if ctxs w c = None then Inl Use_after_free
     else Inr (w\<lparr>ctxs := (\<lambda>_. None), open_timers := (\<lambda>_. None)\<rparr>))"
proof -
  obtain i where l: "links_ok ms w c i"
    using inv_links [OF redis_reach_inv [OF assms(1)] assms(2)] by blast
  note ctx = only_entry [OF links_okD(4) [OF l]] links_okD(2) [OF l]
  show ?thesis
  proof (cases "connected_now w")
    case True
    then have "open_timers w i = None" "ctxs w c \<noteq> None"
      using links_okD(5) [OF l] assms(2) by (auto simp: connected_now_def)
    then show ?thesis
      using True ctx assms(2) by (auto simp: redis_destroy_def free_context_def close_timer_of_def)
  next
    case False
    then show ?thesis
      using close_fields [OF l False] ctx assms(2)
      by (auto simp: redis_destroy_def free_context_def close_timer_of_def)
  qed
qed

theorem redis_destroy_faults_witness:
  "\<exists>w. on_event (Connect_result 0) opened_redis = Some (Inr w) \<and> redis_destroy w = Inl Double_close"
proof -
  let ?c = "\<lparr>ctx_state = Connected, ctx_data = Handle\<rparr>"
  define w where "w = opened_redis\<lparr>ctxs := [0 \<mapsto> ?c], open_timers := (\<lambda>_. None)\<rparr>"
  have ev: "on_event (Connect_result 0) opened_redis = Some (Inr w)"
    by (simp add: on_event_def auto_connect_cb_def with_data_def close_timer_of_def notify_user_def
        w_def opened_redis_def new_redis_def start_timer_def)
  then have "redis_reach 2000 w"
    by (rule redis_reach.event [OF opened_redis_reached])
  from redis_destroy_faults [OF this, of 0] have "redis_destroy w = Inl Double_close"
    by (simp add: w_def opened_redis_def start_timer_def connected_now_def)
  with ev show ?thesis
    by blast
qed

end
