(* ===== verification/Redis_Command.thy ===== *)
theory Redis_Command
  imports Redis Task_Info
begin

text \<open>
  The tasks of the Redis extension: \<open>connect\<close>, which connects a handle once, and \<open>command\<close>, which sends
  a command when it is constructed and waits for the reply when it runs. A command and the library
  share a cell on the heap, \<open>req\<close>, that holds the command's address, or \<open>NULL\<close> when nobody is interested
  in the reply any more.
\<close>

definition REDIS_UNFINISHED :: int where "REDIS_UNFINISHED = - 2"
definition REDIS_ERR :: int where "REDIS_ERR = - 1"
definition REDIS_OK :: int where "REDIS_OK = 0"

text \<open>A result that the user may not have asked for: \<open>if (ret) *ret = v\<close>.\<close>

definition put_ret :: "'a \<Rightarrow> 'a option \<Rightarrow> 'a option" where
  "put_ret v p = (case p of None \<Rightarrow> None | Some _ \<Rightarrow> Some v)"

section \<open>Connecting once\<close>

record redis_connect =
  cn_ip :: string
  cn_port :: int
  cn_ret :: "int option"
  cn_status :: task_status

definition redis_connect_ctor :: "bool \<Rightarrow> string \<Rightarrow> int \<Rightarrow> redis_connect" where
  "redis_connect_ctor wanted ip port =
     \<lparr>cn_ip = ip, cn_port = port, cn_ret = (if wanted then Some REDIS_UNFINISHED else None), cn_status = ready\<rparr>"

text \<open>\<open>err\<close> is the result of \<open>redisAsyncConnect\<close>.\<close>

definition redis_connect_run :: "int \<Rightarrow> redis_connect \<times> redis \<Rightarrow> (redis_connect \<times> redis) res" where
  "redis_connect_run err = (\<lambda>(t, w).
     check (rd_context w = None)
       (let c = fresh w;
            w = w\<lparr>rd_context := Some c, fresh := fresh w + 1,
                  ctxs := (ctxs w)(c \<mapsto> \<lparr>ctx_state = Connecting, ctx_data = Nobody\<rparr>)\<rparr>
        in if err \<noteq> REDIS_OK then Inr (t\<lparr>cn_ret := put_ret err (cn_ret t), cn_status := completed\<rparr>, w)
           else Inr (t\<lparr>cn_status := running\<rparr>,
                     w\<lparr>ctxs := (ctxs w)(c \<mapsto> \<lparr>ctx_state = Connecting, ctx_data = Connect_task\<rparr>)\<rparr>)))"

definition redis_connect_cb :: "nat \<Rightarrow> int \<Rightarrow> redis_connect \<times> redis \<Rightarrow> (redis_connect \<times> redis) res" where
  "redis_connect_cb c st = (\<lambda>(t, w).
     case ctxs w c of
       None \<Rightarrow> Inl Use_after_free
     | Some x \<Rightarrow>
         if ctx_data x = Connect_task
         then Inr (t\<lparr>cn_ret := put_ret st (cn_ret t), cn_status := completed\<rparr>, w)
         else Inl Null_pointer)"

definition redis_connect_cancel :: "redis_connect \<times> redis \<Rightarrow> (redis_connect \<times> redis) res" where
  "redis_connect_cancel tw = Inl Check_failed"

text \<open>
  A handle that a \<open>connect\<close> has connected can be destroyed, as it has no timer; when the attempt failed, the
  library has freed the context and the destructor uses it.
\<close>

lemma redis_connect_then_destroy:
  assumes "redis_connect_run 0 (redis_connect_ctor True ip port, new_redis) = Inr (t, w)"
    and "redis_connect_cb 0 st (t, w) = Inr (t', w')"
  shows "cn_ret t' = Some st"
    and "redis_destroy w' = Inr (w'\<lparr>ctxs := (\<lambda>_. None)\<rparr>)"
    and "redis_destroy (w'\<lparr>ctxs := (ctxs w')(0 := None)\<rparr>) = Inl Use_after_free"
  using assms
  by (auto simp: redis_connect_run_def redis_connect_ctor_def redis_connect_cb_def new_redis_def put_ret_def REDIS_OK_def Let_def
      redis_destroy_def free_context_def split: option.splits if_splits)

section \<open>Commands\<close>

record command =
  cmd_ret :: "int option"
  cmd_reply :: "nat option option"
  cmd_req :: "nat option"
  redis_err :: int
  cmd_status :: task_status

text \<open>
  The objects that are not destroyed, the cells that are not freed and the cells for which the library
  still has to call back. An address that is used again is another number; a command's cell has the number of the command.
\<close>

record cmd_world =
  cmds :: "tid \<Rightarrow> command option"
  req_cells :: "nat \<Rightarrow> tid option option"
  due :: "nat list"
  next_cmd :: nat

definition no_commands :: cmd_world where
  "no_commands = \<lparr>cmds = (\<lambda>_. None), req_cells = (\<lambda>_. None), due = [], next_cmd = 0\<rparr>"

text \<open>
  Both constructors, which differ in the library's function; \<open>err\<close> is its result. The function is given the
  context of the handle \<open>h\<close>, which is a null pointer before the first attempt to connect and may have been freed.
\<close>

definition use_context :: "redis \<Rightarrow> fault option" where
  "use_context h =
     (case rd_context h of
        None \<Rightarrow> Some Null_pointer
      | Some c \<Rightarrow> if ctxs h c = None then Some Use_after_free else None)"

definition command_made :: "bool \<Rightarrow> bool \<Rightarrow> int \<Rightarrow> cmd_world \<Rightarrow> cmd_world" where
  "command_made wants_ret wants_reply err w =
     (let t = next_cmd w;
          c = \<lparr>cmd_ret = (if wants_ret then Some REDIS_UNFINISHED else None),
               cmd_reply = (if wants_reply then Some None else None),
               cmd_req = Some t, redis_err = err, cmd_status = ready\<rparr>;
          w = w\<lparr>next_cmd := t + 1, req_cells := (req_cells w)(t \<mapsto> Some t)\<rparr>
      in if err \<noteq> REDIS_OK
         then w\<lparr>req_cells := (req_cells w)(t := None), cmds := (cmds w)(t \<mapsto> c\<lparr>cmd_req := None\<rparr>)\<rparr>
         else w\<lparr>due := due w @ [t], cmds := (cmds w)(t \<mapsto> c)\<rparr>)"

definition command_ctor :: "redis \<Rightarrow> bool \<Rightarrow> bool \<Rightarrow> int \<Rightarrow> cmd_world \<Rightarrow> cmd_world res" where
  "command_ctor h wants_ret wants_reply err w =
     (case use_context h of Some f \<Rightarrow> Inl f | None \<Rightarrow> Inr (command_made wants_ret wants_reply err w))"

definition with_cmd :: "tid \<Rightarrow> cmd_world \<Rightarrow> (command \<Rightarrow> cmd_world res) \<Rightarrow> cmd_world res" where
  "with_cmd t w f = (case cmds w t of None \<Rightarrow> Inl Use_after_free | Some c \<Rightarrow> f c)"

definition with_req :: "command \<Rightarrow> cmd_world \<Rightarrow> (nat \<Rightarrow> tid option \<Rightarrow> cmd_world res) \<Rightarrow> cmd_world res" where
  "with_req c w f =
     (case cmd_req c of
        None \<Rightarrow> Inl Null_pointer
      | Some k \<Rightarrow> (case req_cells w k of None \<Rightarrow> Inl Use_after_free | Some p \<Rightarrow> f k p))"

definition command_run :: "tid \<Rightarrow> cmd_world \<Rightarrow> cmd_world res" where
  "command_run t w =
     with_cmd t w (\<lambda>c.
       if redis_err c \<noteq> REDIS_OK
       then Inr (w\<lparr>cmds := (cmds w)(t \<mapsto> c\<lparr>cmd_ret := put_ret (redis_err c) (cmd_ret c), cmd_status := completed\<rparr>)\<rparr>)
       else with_req c w (\<lambda>k p.
         check (p \<noteq> None) (Inr (w\<lparr>cmds := (cmds w)(t \<mapsto> c\<lparr>cmd_status := running\<rparr>)\<rparr>))))"

text \<open>The rest of \<open>run\<close> after the task was continued.\<close>

definition command_resumed :: "tid \<Rightarrow> cmd_world \<Rightarrow> cmd_world res" where
  "command_resumed t w =
     with_cmd t w (\<lambda>c. with_req c w (\<lambda>k p.
       Inr (w\<lparr>req_cells := (req_cells w)(k \<mapsto> None), cmds := (cmds w)(t \<mapsto> c\<lparr>cmd_status := completed\<rparr>)\<rparr>)))"

definition command_cancel :: "tid \<Rightarrow> cmd_world \<Rightarrow> cmd_world res" where
  "command_cancel t w =
     with_cmd t w (\<lambda>c. with_req c w (\<lambda>k p.
       Inr (w\<lparr>req_cells := (req_cells w)(k \<mapsto> None), cmds := (cmds w)(t \<mapsto> c\<lparr>cmd_status := canceled\<rparr>)\<rparr>)))"

definition answered :: "nat option \<Rightarrow> command \<Rightarrow> command" where
  "answered r c =
     (case r of
        Some _ \<Rightarrow> c\<lparr>cmd_reply := put_ret r (cmd_reply c), cmd_ret := put_ret REDIS_OK (cmd_ret c)\<rparr>
      | None \<Rightarrow> c\<lparr>cmd_ret := put_ret REDIS_ERR (cmd_ret c)\<rparr>)"

text \<open>\<open>r\<close> is the reply, or \<open>NULL\<close> when the connection is lost; the last step is \<open>free(privdata)\<close>.\<close>

definition command_cb :: "nat \<Rightarrow> nat option \<Rightarrow> cmd_world \<Rightarrow> cmd_world res" where
  "command_cb k r w =
     (case req_cells w k of
        None \<Rightarrow> Inl Use_after_free
      | Some p \<Rightarrow>
          res_bind
            (case p of
               None \<Rightarrow> Inr w
             | Some t \<Rightarrow>
                 with_cmd t w (\<lambda>c.
                   if cmd_status c = running then command_resumed t (w\<lparr>cmds := (cmds w)(t \<mapsto> answered r c)\<rparr>)
                   else Inr (w\<lparr>req_cells := (req_cells w)(k \<mapsto> None)\<rparr>)))
            (\<lambda>w. Inr (w\<lparr>req_cells := (req_cells w)(k := None)\<rparr>)))"

definition command_dtor :: "tid \<Rightarrow> cmd_world \<Rightarrow> cmd_world" where
  "command_dtor t w = w\<lparr>cmds := (cmds w)(t := None)\<rparr>"

section \<open>How commands live\<close>

text \<open>
  A command runs at most once, is canceled only while it runs and destroyed only while it does not run.
  The library calls back once for a command that it accepted, whatever the order.
\<close>

datatype cmd_event = Create redis bool bool int | Run tid | Reply nat "nat option" | Interrupt tid | Destroy tid

definition in_status :: "tid \<Rightarrow> cmd_world \<Rightarrow> (task_status \<Rightarrow> bool) \<Rightarrow> bool" where
  "in_status t w P = (case cmds w t of None \<Rightarrow> False | Some c \<Rightarrow> P (cmd_status c))"

fun cmd_step :: "cmd_event \<Rightarrow> cmd_world \<Rightarrow> cmd_world res option" where
  "cmd_step (Create h a b err) w = Some (command_ctor h a b err w)"
| "cmd_step (Run t) w = (if in_status t w (\<lambda>s. s = ready) then Some (command_run t w) else None)"
| "cmd_step (Reply k r) w = (if k \<in> set (due w) then Some (command_cb k r (w\<lparr>due := remove1 k (due w)\<rparr>)) else None)"
| "cmd_step (Interrupt t) w = (if in_status t w (\<lambda>s. s = running) then Some (command_cancel t w) else None)"
| "cmd_step (Destroy t) w = (if in_status t w (\<lambda>s. s \<noteq> running) then Some (Inr (command_dtor t w)) else None)"

inductive cmd_reach :: "cmd_world \<Rightarrow> bool" where
  none: "cmd_reach no_commands"
| step: "cmd_reach w \<Longrightarrow> cmd_step e w = Some (Inr w') \<Longrightarrow> cmd_reach w'"

text \<open>
  The invariant: the cells are those the library calls back for; a command that waits, or has not run, knows
  its cell, and the cell names the command as long as somebody is interested.
\<close>

definition cell_ok :: "cmd_world \<Rightarrow> nat \<Rightarrow> bool" where
  "cell_ok w k \<longleftrightarrow> k < next_cmd w \<and> (req_cells w k = Some None \<or> req_cells w k = Some (Some k))"

definition cmd_ok :: "cmd_world \<Rightarrow> tid \<Rightarrow> command \<Rightarrow> bool" where
  "cmd_ok w t c \<longleftrightarrow> t < next_cmd w \<and>
     cmd_req c = (if redis_err c = REDIS_OK then Some t else None) \<and>
     (cmd_status c = running \<longrightarrow> redis_err c = REDIS_OK \<and> req_cells w t = Some (Some t)) \<and>
     (redis_err c \<noteq> REDIS_OK \<longrightarrow> req_cells w t = None) \<and>
     (cmd_status c = ready \<longrightarrow> redis_err c = REDIS_OK \<longrightarrow> req_cells w t \<noteq> Some None)"

definition cmd_inv :: "cmd_world \<Rightarrow> bool" where
  "cmd_inv w \<longleftrightarrow> distinct (due w) \<and> (\<forall>k. k \<in> set (due w) \<longleftrightarrow> req_cells w k \<noteq> None) \<and>
     (\<forall>k \<in> set (due w). cell_ok w k) \<and> (\<forall>t c. cmds w t = Some c \<longrightarrow> cmd_ok w t c) \<and>
     (\<forall>k c. req_cells w k = Some (Some k) \<longrightarrow> cmds w k = Some c \<longrightarrow> cmd_status c \<in> {ready, running})"

lemma put_ret_simps [simp]: "put_ret v None = None" "put_ret v (Some x) = Some v"
  by (simp_all add: put_ret_def)

lemma answered_fields [simp]:
  "cmd_req (answered r c) = cmd_req c" "redis_err (answered r c) = redis_err c" "cmd_status (answered r c) = cmd_status c"
  by (simp_all add: answered_def split: option.split)

lemma cmd_invD:
  assumes "cmd_inv w"
  shows "distinct (due w)" "k \<in> set (due w) \<longleftrightarrow> req_cells w k \<noteq> None"
    "k \<in> set (due w) \<Longrightarrow> cell_ok w k" "cmds w t = Some c \<Longrightarrow> cmd_ok w t c"
    "req_cells w t = Some (Some t) \<Longrightarrow> cmds w t = Some c \<Longrightarrow> cmd_status c \<in> {ready, running}"
  using assms unfolding cmd_inv_def by blast+

lemma cmd_invI:
  assumes "distinct (due w)" "\<And>k. k \<in> set (due w) \<longleftrightarrow> req_cells w k \<noteq> None"
    and "\<And>k. k \<in> set (due w) \<Longrightarrow> cell_ok w k" "\<And>t c. cmds w t = Some c \<Longrightarrow> cmd_ok w t c"
    and "\<And>t c. req_cells w t = Some (Some t) \<Longrightarrow> cmds w t = Some c \<Longrightarrow> cmd_status c \<in> {ready, running}"
  shows "cmd_inv w"
  using assms unfolding cmd_inv_def by blast

lemma cell_of_running:
  assumes "cmd_inv w" "cmds w t = Some c" "cmd_status c = running"
  shows "cmd_req c = Some t" "req_cells w t = Some (Some t)" "t \<in> set (due w)" "redis_err c = REDIS_OK"
  using cmd_invD(2,4) [OF assms(1)] assms(2,3) by (auto simp: cmd_ok_def)

lemma ctor_inv: "cmd_inv w \<Longrightarrow> cmd_inv (command_made a b err w)"
proof (rule cmd_invI)
  assume inv: "cmd_inv w"
  let ?w = "command_made a b err w" and ?n = "next_cmd w"
  have new: "?n \<notin> set (due w)" "req_cells w ?n = None"
    using cmd_invD(2,3) [OF inv, of ?n] by (auto simp: cell_ok_def)
  show "distinct (due ?w)"
    using cmd_invD(1) [OF inv] new by (simp add: command_made_def Let_def)
  show "k \<in> set (due ?w) \<longleftrightarrow> req_cells ?w k \<noteq> None" for k
    using cmd_invD(2) [OF inv, of k] new by (auto simp: command_made_def Let_def)
  show "cell_ok ?w k" if "k \<in> set (due ?w)" for k
    using that cmd_invD(3) [OF inv, of k] new by (auto simp: command_made_def Let_def cell_ok_def split: if_splits)
  show "cmd_ok ?w t c" if "cmds ?w t = Some c" for t c
    using that cmd_invD(4) [OF inv, of t c] new
    by (auto simp: command_made_def Let_def cmd_ok_def split: if_splits)
  show "cmd_status c \<in> {ready, running}" if "req_cells ?w t = Some (Some t)" "cmds ?w t = Some c" for t c
    using that cmd_invD(5) [OF inv, of t c] new
    by (auto simp: command_made_def Let_def split: if_splits)
qed

text \<open>A command whose status changes, with its cell.\<close>

lemma settle_inv:
  assumes "cmd_inv w" "cmds w t = Some c" "cmd_req c' = cmd_req c" "redis_err c' = redis_err c"
    and "p = req_cells w t \<or> (req_cells w t \<noteq> None \<and> p = Some None)"
    and "cmd_status c' = running \<Longrightarrow> redis_err c = REDIS_OK \<and> p = Some (Some t)"
    and "cmd_status c' \<noteq> ready" "cmd_status c' \<noteq> running \<Longrightarrow> p \<noteq> Some (Some t)"
  shows "cmd_inv (w\<lparr>cmds := (cmds w)(t \<mapsto> c'), req_cells := (req_cells w)(t := p)\<rparr>)" (is "cmd_inv ?w")
proof (rule cmd_invI)
  show "distinct (due ?w)"
    using cmd_invD(1) [OF assms(1)] by simp
  show iff: "k \<in> set (due ?w) \<longleftrightarrow> req_cells ?w k \<noteq> None" for k
    using cmd_invD(2) [OF assms(1), of k] assms(5) by auto
  show "cell_ok ?w k" if "k \<in> set (due ?w)" for k
    using that cmd_invD(3) [OF assms(1), of k] assms(5) by (auto simp: cell_ok_def)
  show "cmd_ok ?w u d" if "cmds ?w u = Some d" for u d
    using that cmd_invD(4) [OF assms(1), of u] assms(2-8) by (auto simp: cmd_ok_def split: if_splits)
  show "cmd_status d \<in> {ready, running}" if "req_cells ?w u = Some (Some u)" "cmds ?w u = Some d" for u d
    using that cmd_invD(5) [OF assms(1), of u d] assms(5-8) by (auto split: if_splits)
qed

lemma dtor_inv: "cmd_inv w \<Longrightarrow> cmd_inv (command_dtor t w)"
  unfolding command_dtor_def
  by (rule cmd_invI) (auto dest: cmd_invD simp: cell_ok_def cmd_ok_def split: if_splits)

text \<open>The cell of a callback that has come is freed.\<close>

lemma freed_inv:
  assumes "cmd_inv w" "\<And>c. cmds w k = Some c \<Longrightarrow> cmd_status c \<noteq> running"
  shows "cmd_inv (w\<lparr>due := remove1 k (due w), req_cells := (req_cells w)(k := None)\<rparr>)" (is "cmd_inv ?w")
proof (rule cmd_invI)
  show "distinct (due ?w)"
    using cmd_invD(1) [OF assms(1)] by simp
  show "j \<in> set (due ?w) \<longleftrightarrow> req_cells ?w j \<noteq> None" for j
    using cmd_invD(1) [OF assms(1)] cmd_invD(2) [OF assms(1), of j] by auto
  show "cell_ok ?w j" if "j \<in> set (due ?w)" for j
    using that cmd_invD(1) [OF assms(1)] cmd_invD(3) [OF assms(1), of j] by (auto simp: cell_ok_def)
  show "cmd_ok ?w u d" if "cmds ?w u = Some d" for u d
    using that cmd_invD(4) [OF assms(1), of u d] assms(2) by (auto simp: cmd_ok_def)
  show "cmd_status d \<in> {ready, running}" if "req_cells ?w u = Some (Some u)" "cmds ?w u = Some d" for u d
    using that cmd_invD(5) [OF assms(1), of u d] by (auto split: if_splits)
qed

lemma settle_same:
  "w\<lparr>cmds := f, req_cells := (req_cells w)(t := req_cells w t)\<rparr> = w\<lparr>cmds := f\<rparr>"
  by simp

lemma run_inv:
  assumes "cmd_inv w" "cmds w t = Some c" "cmd_status c = ready"
  shows "if redis_err c = REDIS_OK \<and> t \<notin> set (due w) then command_run t w = Inl Use_after_free
    else \<exists>w'. command_run t w = Inr w' \<and> cmd_inv w'"
proof (cases "redis_err c = REDIS_OK")
  case True
  then have req: "cmd_req c = Some t" "req_cells w t \<noteq> Some None" "req_cells w t = None \<longleftrightarrow> t \<notin> set (due w)"
    using cmd_invD(2,4) [OF assms(1)] assms(2,3) by (auto simp: cmd_ok_def)
  show ?thesis
  proof (cases "t \<in> set (due w)")
    case due: True
    then have cell: "req_cells w t = Some (Some t)"
      using req(2) cmd_invD(3) [OF assms(1) due] by (auto simp: cell_ok_def)
    then have "cmd_inv (w\<lparr>cmds := (cmds w)(t \<mapsto> c\<lparr>cmd_status := running\<rparr>)\<rparr>)"
      using settle_inv [OF assms(1,2), of "c\<lparr>cmd_status := running\<rparr>" "req_cells w t"] True
      unfolding settle_same by simp
    then show ?thesis
      using True due cell req(1) assms(2) by (simp add: command_run_def with_cmd_def with_req_def)
  qed (use req(1,3) True assms(2) in \<open>simp add: command_run_def with_cmd_def with_req_def\<close>)
next
  case False
  have "req_cells w t \<noteq> Some (Some t)"
    using cmd_invD(4) [OF assms(1,2)] False by (auto simp: cmd_ok_def)
  then show ?thesis
    using settle_inv [OF assms(1,2), of "c\<lparr>cmd_ret := put_ret (redis_err c) (cmd_ret c), cmd_status := completed\<rparr>" "req_cells w t"]
      False assms(2) unfolding settle_same by (simp add: command_run_def with_cmd_def)
qed

lemma cmd_updates_commute:
  "w\<lparr>req_cells := g, cmds := f\<rparr> = w\<lparr>cmds := f, req_cells := g\<rparr>"
  "w\<lparr>due := d, cmds := f\<rparr> = w\<lparr>cmds := f, due := d\<rparr>"
  for w :: cmd_world
  by simp_all

lemma cancel_inv:
  assumes "cmd_inv w" "cmds w t = Some c" "cmd_status c = running"
  shows "\<exists>w'. command_cancel t w = Inr w' \<and> cmd_inv w'"
proof -
  have "cmd_inv (w\<lparr>cmds := (cmds w)(t \<mapsto> c\<lparr>cmd_status := canceled\<rparr>), req_cells := (req_cells w)(t \<mapsto> None)\<rparr>)"
    using cell_of_running [OF assms] by (intro settle_inv [OF assms(1,2)]) simp_all
  then show ?thesis
    using cell_of_running [OF assms] assms(2) by (simp add: command_cancel_def with_cmd_def with_req_def cmd_updates_commute)
qed

text \<open>The callback for a command that runs.\<close>

lemma reply_running:
  assumes "cmd_inv w" "cmds w t = Some c" "cmd_status c = running"
  shows "\<exists>w'. command_cb t r (w\<lparr>due := remove1 t (due w)\<rparr>) = Inr w' \<and> cmd_inv w' \<and>
    cmds w' = (cmds w)(t \<mapsto> (answered r c)\<lparr>cmd_status := completed\<rparr>) \<and> req_cells w' = (req_cells w)(t := None)"
proof -
  let ?c = "(answered r c)\<lparr>cmd_status := completed\<rparr>"
  let ?w = "w\<lparr>cmds := (cmds w)(t \<mapsto> ?c), req_cells := (req_cells w)(t \<mapsto> None)\<rparr>"
  note cell = cell_of_running [OF assms]
  have "cmd_inv ?w"
    using cell by (intro settle_inv [OF assms(1,2)]) simp_all
  then have "cmd_inv (?w\<lparr>due := remove1 t (due ?w), req_cells := (req_cells ?w)(t := None)\<rparr>)"
    by (rule freed_inv) simp
  then show ?thesis
    using cell(1,2) assms(2,3)
    by (simp add: command_cb_def command_resumed_def with_cmd_def with_req_def cmd_updates_commute)
qed

lemma reply_inv:
  assumes "cmd_inv w" "k \<in> set (due w)"
  shows "if req_cells w k = Some (Some k) \<and> cmds w k = None
    then command_cb k r (w\<lparr>due := remove1 k (due w)\<rparr>) = Inl Use_after_free
    else \<exists>w'. command_cb k r (w\<lparr>due := remove1 k (due w)\<rparr>) = Inr w' \<and> cmd_inv w'"
proof (cases "\<exists>c. cmds w k = Some c \<and> cmd_status c = running")
  case True
  then show ?thesis
    using reply_running [OF assms(1)] by fastforce
next
  case False
  then have "cmd_inv (w\<lparr>due := remove1 k (due w), req_cells := (req_cells w)(k := None)\<rparr>)"
    by (intro freed_inv assms(1)) blast
  moreover have "req_cells w k = Some None \<or> req_cells w k = Some (Some k)"
    using cmd_invD(3) [OF assms] by (simp add: cell_ok_def)
  ultimately show ?thesis
    using False by (auto simp: command_cb_def with_cmd_def split: option.split)
qed

text \<open>
  The three ways to misuse a command, with the fault: to create it on a handle that has no context, or one that the
  library has freed; to run it when its reply has already come; and to destroy it before it has run while its
  reply is still to come.
\<close>

definition misuse :: "cmd_event \<Rightarrow> cmd_world \<Rightarrow> fault option" where
  "misuse e w =
     (case e of
        Create h a b err \<Rightarrow> use_context h
      | Run t \<Rightarrow>
          (case cmds w t of
             None \<Rightarrow> None
           | Some c \<Rightarrow>
               if cmd_status c = ready \<and> redis_err c = REDIS_OK \<and> t \<notin> set (due w) then Some Use_after_free else None)
      | Reply k r \<Rightarrow>
          if k \<in> set (due w) \<and> req_cells w k = Some (Some k) \<and> cmds w k = None then Some Use_after_free else None
      | _ \<Rightarrow> None)"

lemma cmd_step_inv:
  assumes "cmd_inv w" "cmd_step e w = Some r"
  shows "case misuse e w of Some f \<Rightarrow> r = Inl f | None \<Rightarrow> \<exists>w'. r = Inr w' \<and> cmd_inv w'"
proof (cases e)
  case (Create h a b err)
  then show ?thesis
    using assms ctor_inv by (auto simp: misuse_def command_ctor_def split: option.splits)
next
  case (Run t)
  then obtain c where "cmds w t = Some c" "cmd_status c = ready" "r = command_run t w"
    using assms(2) by (auto simp: in_status_def split: if_splits option.splits)
  then show ?thesis
    using run_inv [OF assms(1), of t c] Run by (simp add: misuse_def split: if_splits)
next
  case (Reply k x)
  then have "k \<in> set (due w)" "r = command_cb k x (w\<lparr>due := remove1 k (due w)\<rparr>)"
    using assms(2) by (auto split: if_splits)
  then show ?thesis
    using reply_inv [OF assms(1), of k x] Reply by (simp add: misuse_def split: if_splits)
next
  case (Interrupt t)
  then obtain c where "cmds w t = Some c" "cmd_status c = running" "r = command_cancel t w"
    using assms(2) by (auto simp: in_status_def split: if_splits option.splits)
  then show ?thesis
    using cancel_inv [OF assms(1)] Interrupt by (simp add: misuse_def)
next
  case (Destroy t)
  then show ?thesis
    using assms dtor_inv by (auto simp: misuse_def split: if_splits)
qed

lemma cmd_reach_inv: "cmd_reach w \<Longrightarrow> cmd_inv w"
proof (induction rule: cmd_reach.induct)
  case none
  then show ?case
    by (simp add: cmd_inv_def no_commands_def)
next
  case (step w e w')
  then show ?case
    using cmd_step_inv [OF step.IH step.hyps(2)] by (auto split: option.splits)
qed


text \<open>
  Commands and the handle together: on a handle that keeps itself connected a command can be created
  except while it waits for the next attempt after the connection was lost or an attempt failed.
\<close>

lemma create_on_handle:
  assumes "redis_reach ms h" "rd_context h = Some c"
  shows "cmd_step (Create h a b err) w =
    Some (if ctxs h c = None then Inl Use_after_free else Inr (command_made a b err w))"
    and "ctxs h c = None \<Longrightarrow> \<exists>i n. rd_timer h = Some i \<and> open_timers h i = Some (Reconnect, n)"
proof -
  obtain i where l: "links_ok ms h c i"
    using inv_links [OF redis_reach_inv [OF assms(1)] assms(2)] by blast
  show "ctxs h c = None \<Longrightarrow> \<exists>i n. rd_timer h = Some i \<and> open_timers h i = Some (Reconnect, n)"
    using links_okD(2,6) [OF l] by blast
qed (simp add: command_ctor_def use_context_def assms(2))

text \<open>A command that is sent and waits.\<close>

definition waiting_command :: cmd_world where
  "waiting_command = no_commands\<lparr>due := [0], next_cmd := 1, req_cells := [0 \<mapsto> Some 0],
     cmds := [0 \<mapsto> \<lparr>cmd_ret = Some REDIS_UNFINISHED, cmd_reply = Some None, cmd_req = Some 0, redis_err = REDIS_OK,
       cmd_status = running\<rparr>]\<rparr>"

lemma waiting_command_reached: "cmd_reach waiting_command"
proof -
  let ?w = "command_made True True 0 no_commands"
  have "use_context opened_redis = None"
    by (simp add: use_context_def opened_redis_def start_timer_def)
  then have "cmd_reach ?w"
    by (intro cmd_reach.step [OF cmd_reach.none, where e = "Create opened_redis True True 0"]) (simp add: command_ctor_def)
  moreover have "cmd_step (Run 0) ?w = Some (Inr waiting_command)"
    by (simp add: command_made_def no_commands_def Let_def REDIS_OK_def in_status_def command_run_def with_cmd_def
        with_req_def waiting_command_def)
  ultimately show ?thesis
    by (rule cmd_reach.step)
qed


end
