(* ===== verification/Demos.thy ===== *)
theory Demos
  imports Http_Parse "HOL-Library.Multiset"
begin

text \<open>
  The programs in \<open>demo/\<close>: two sorting tasks that run side by side (\<open>demo_all_sort.cc\<close>,
  \<open>demo_any_sort.cc\<close>) and a server that answers every request with the request
  (\<open>demo_http_server.cc\<close>). The sorting tasks print and sleep between the steps; what is modelled is what they do to their
  array, with \<open>num\<close> its length.
\<close>

section \<open>The sorting tasks\<close>

text \<open>The inner loop of the selection sort, from \<open>j\<close> on.\<close>

function select_min :: "int list \<Rightarrow> nat \<Rightarrow> nat \<Rightarrow> nat" where
  "select_min vals m j =
     (if j < length vals then select_min vals (if vals ! m > vals ! j then j else m) (j + 1) else m)"
  by pat_completeness auto

termination
  by (relation "measure (\<lambda>(vals, _, j). length vals - j)") auto

declare select_min.simps [simp del]

definition swap_vals :: "nat \<Rightarrow> nat \<Rightarrow> int list \<Rightarrow> int list" where
  "swap_vals i m vals = (if m \<noteq> i then vals[i := vals ! m, m := vals ! i] else vals)"

lemma length_swap_vals [simp]: "length (swap_vals i m vals) = length vals"
  by (simp add: swap_vals_def)

function select_from :: "nat \<Rightarrow> int list \<Rightarrow> int list" where
  "select_from i vals =
     (if i < length vals - 1 then select_from (i + 1) (swap_vals i (select_min vals i (i + 1)) vals) else vals)"
  by pat_completeness auto

termination
  by (relation "measure (\<lambda>(i, vals). length vals - i)") auto

declare select_from.simps [simp del]

text \<open>
  The bubble sort. Its inner loop goes down to \<open>j = i\<close> and looks at \<open>vals[j - 1]\<close>, which for \<open>j = 0\<close>
  is before the array.
\<close>

function bubble_pass :: "nat \<Rightarrow> nat \<Rightarrow> bool \<Rightarrow> int list \<Rightarrow> (bool \<times> int list) res" where
  "bubble_pass i j change vals =
     (if j < i then Inr (change, vals)
      else if j = 0 then Inl Out_of_bounds
      else if vals ! j < vals ! (j - 1) then bubble_pass i (j - 1) True (vals[j := vals ! (j - 1), j - 1 := vals ! j])
      else bubble_pass i (j - 1) change vals)"
  by pat_completeness auto

termination
  by (relation "measure (\<lambda>(_, j, _). j)") auto

declare bubble_pass.simps [simp del]

function bubble_from :: "nat \<Rightarrow> nat \<Rightarrow> int list \<Rightarrow> int list res" where
  "bubble_from num i vals =
     (if i < num - 1 then
        (case bubble_pass i (num - 1) False vals of
           Inl f \<Rightarrow> Inl f
         | Inr (change, vals) \<Rightarrow> if change then bubble_from num (i + 1) vals else Inr vals)
      else Inr vals)"
  by pat_completeness auto

termination
  by (relation "measure (\<lambda>(num, i, _). num - i)") auto

declare bubble_from.simps [simp del]

text \<open>The selection sort sorts: the smallest of the rest is moved to the front of the rest.\<close>

lemma select_min_least:
  assumes "m < j" "j \<le> length vals" "\<forall>k. i \<le> k \<and> k < j \<longrightarrow> vals ! m \<le> vals ! k" "i \<le> m"
  shows "i \<le> select_min vals m j \<and> select_min vals m j < length vals \<and>
    (\<forall>k. i \<le> k \<and> k < length vals \<longrightarrow> vals ! select_min vals m j \<le> vals ! k)"
  using assms
proof (induction vals m j rule: select_min.induct)
  case (1 vals m j)
  show ?case
  proof (cases "j < length vals")
    case True
    let ?m = "if vals ! m > vals ! j then j else m"
    have "vals ! ?m \<le> vals ! k" if "i \<le> k" "k < j + 1" for k
      using that 1(4) by (cases "k = j") (auto intro: order_trans less_imp_le)
    then show ?thesis
      using 1 True by (subst (1 2 3) select_min.simps) auto
  next
    case False
    then have "j = length vals"
      using 1(3) by simp
    then show ?thesis
      using 1(2,4,5) by (simp add: select_min.simps)
  qed
qed

lemma swap_vals_mset:
  assumes "i < length vals" "m < length vals"
  shows "mset (swap_vals i m vals) = mset vals"
  using assms by (simp add: swap_vals_def mset_swap)

text \<open>The first \<open>i\<close> elements are in order, and none of the others is smaller.\<close>

definition front_sorted :: "nat \<Rightarrow> int list \<Rightarrow> bool" where
  "front_sorted i vals \<longleftrightarrow> (\<forall>a b. a < i \<and> a < b \<and> b < length vals \<longrightarrow> vals ! a \<le> vals ! b)"

lemma front_sorted_step:
  assumes "front_sorted i vals" "i < length vals" "m = select_min vals i (i + 1)"
  shows "front_sorted (i + 1) (swap_vals i m vals)" "m < length vals"
proof -
  have "\<forall>k. i \<le> k \<and> k < i + 1 \<longrightarrow> vals ! i \<le> vals ! k"
    by (auto simp: le_less_Suc_eq)
  then have m: "i \<le> m" "m < length vals" "\<forall>k. i \<le> k \<and> k < length vals \<longrightarrow> vals ! m \<le> vals ! k"
    using select_min_least [of i "i + 1" vals i] assms(2,3) by auto
  show "m < length vals"
    by (rule m(2))
  have "swap_vals i m vals ! a \<le> swap_vals i m vals ! b" if ab: "a < i + 1" "a < b" "b < length vals" for a b
  proof (cases "a = i")
    case True
    then show ?thesis
      using m ab by (auto simp: swap_vals_def nth_list_update)
  next
    case False
    then have "a < i" "\<forall>c. i \<le> c \<and> c < length vals \<longrightarrow> vals ! a \<le> vals ! c"
      using ab(1) assms(1) by (auto simp: front_sorted_def)
    moreover have "vals ! a \<le> vals ! b"
      using assms(1) ab(2,3) \<open>a < i\<close> by (simp add: front_sorted_def)
    ultimately show ?thesis
      using m(1,2) ab assms(2) by (auto simp: swap_vals_def nth_list_update)
  qed
  then show "front_sorted (i + 1) (swap_vals i m vals)"
    by (auto simp: front_sorted_def)
qed

lemma select_from_sorts:
  assumes "front_sorted i vals"
  shows "front_sorted (length vals - 1) (select_from i vals) \<and> mset (select_from i vals) = mset vals"
  using assms
proof (induction i vals rule: select_from.induct)
  case (1 i vals)
  show ?case
  proof (cases "i < length vals - 1")
    case True
    let ?m = "select_min vals i (i + 1)"
    have s: "front_sorted (i + 1) (swap_vals i ?m vals)" "?m < length vals"
      using front_sorted_step [OF 1(2) _ refl] True by auto
    have "mset (swap_vals i ?m vals) = mset vals"
      using True s(2) by (intro swap_vals_mset) auto
    then show ?thesis
      using 1(1) [OF True s(1)] True by (simp add: select_from.simps [of i vals])
  next
    case False
    then have "select_from i vals = vals" "length vals - 1 \<le> i"
      by (simp_all add: select_from.simps)
    then show ?thesis
      using 1(2) by (auto simp: front_sorted_def)
  qed
qed

lemma select_sort_sorts:
  "sorted (select_from 0 vals) \<and> mset (select_from 0 vals) = mset vals"
proof -
  have s: "front_sorted (length vals - 1) (select_from 0 vals)" "mset (select_from 0 vals) = mset vals"
    using select_from_sorts [of 0 vals] by (auto simp: front_sorted_def)
  then have "length (select_from 0 vals) = length vals"
    by (metis size_mset)
  then have "sorted (select_from 0 vals)"
    using s(1) by (auto simp: sorted_iff_nth_mono_less front_sorted_def)
  then show ?thesis
    using s(2) by simp
qed

text \<open>The first pass of the bubble sort always looks before the array.\<close>

lemma bubble_sort_out_of_bounds:
  assumes "2 \<le> num"
  shows "bubble_from num 0 vals = Inl Out_of_bounds"
proof -
  have "bubble_pass 0 j change vals = Inl Out_of_bounds" for j change and vals :: "int list"
    by (induction j arbitrary: change vals) (subst bubble_pass.simps, simp)+
  then show ?thesis
    using assms by (simp add: bubble_from.simps)
qed

section \<open>The server\<close>

definition server_head :: "nat \<Rightarrow> string" where
  "server_head n =
     ''HTTP/1.0 200 OK'' @ [CR, LF] @ ''Server: cocoflow-http-server'' @ [CR, LF] @ ''Content-Type: text/plain'' @ [CR, LF] @
     ''Content-Length: '' @ decimal_digits 10 n @ [CR, LF, CR, LF]"

text \<open>
  The header is sent a second time as part of the body, so its length is part of the length it tells. The loop
  prints the header until its length does not change; it gets fuel.
\<close>

fun settle_head :: "nat \<Rightarrow> nat \<Rightarrow> nat \<Rightarrow> string option" where
  "settle_head 0 req_len tmp = None"
| "settle_head (Suc fuel) req_len tmp =
     (let res_buf = server_head (req_len + tmp + 36); res_len = length res_buf
      in if res_len = tmp then Some res_buf else settle_head fuel req_len res_len)"

definition server_response :: "string \<Rightarrow> string option" where
  "server_response req =
     map_option (\<lambda>h. h @ req @ replicate 32 (CHR ''-'') @ [CR, LF, CR, LF] @ h) (settle_head 5 (length req) 0)"

lemma length_decimal_digits:
  assumes "n < 10000"
  shows "length (decimal_digits 10 n) = (if n < 10 then 1 else if n < 100 then 2 else if n < 1000 then 3 else 4)"
proof -
  have "n div 10 < 10 \<longleftrightarrow> n < 100" "n div 100 < 10 \<longleftrightarrow> n < 1000" "n div 1000 < 10"
    using assms by (simp_all add: div_less_iff_less_mult)
  then show ?thesis
    by (simp add: decimal_digits_numeral div_mult2_eq [symmetric])
qed

lemma length_server_head:
  "n < 10000 \<Longrightarrow> length (server_head n) = 93 + (if n < 10 then 1 else if n < 100 then 2 else if n < 1000 then 3 else 4)"
  by (simp add: server_head_def length_decimal_digits)

lemma settle_head_numeral:
  "settle_head (numeral k) req_len tmp =
     (if length (server_head (req_len + tmp + 36)) = tmp then Some (server_head (req_len + tmp + 36))
      else settle_head (pred_numeral k) req_len (length (server_head (req_len + tmp + 36))))"
  by (simp add: numeral_eq_Suc Let_def)

lemma settle_head_settles:
  assumes "req_len \<le> 3072"
  shows "\<exists>n. settle_head 5 req_len 0 = Some (server_head n) \<and> n = req_len + 36 + length (server_head n)"
proof (cases "req_len < 868")
  case True
  then have "settle_head 5 req_len 0 = Some (server_head (req_len + 132))"
    by (simp add: settle_head_numeral length_server_head ac_simps)
  then show ?thesis
    using True by (intro exI [where x = "req_len + 132"]) (simp add: length_server_head)
next
  case False
  then have "settle_head 5 req_len 0 = Some (server_head (req_len + 133))"
    using assms by (simp add: settle_head_numeral length_server_head ac_simps)
  then show ?thesis
    using False assms by (intro exI [where x = "req_len + 133"]) (simp add: length_server_head)
qed

text \<open>
  The response to a request that fits the server's buffer of 3072 bytes is a header that tells the exact length
  of what follows, but the HTTP client refuses the header, as it is not of version 1.1.
\<close>

lemma server_response_length:
  assumes "length req \<le> 3072"
  shows "\<exists>n body. server_response req = Some (server_head n @ body) \<and> length body = n"
proof -
  obtain n where n: "settle_head 5 (length req) 0 = Some (server_head n)" "n = length req + 36 + length (server_head n)"
    using settle_head_settles [OF assms] by blast
  then show ?thesis
    by (intro exI [where x = n] exI [where x = "req @ replicate 32 (CHR ''-'') @ [CR, LF, CR, LF] @ server_head n"])
      (simp add: server_response_def)
qed

lemma client_refuses_server: "http_rsp_parse needs (server_head n) = Inr (Inl (- 1))"
  by (simp add: http_rsp_parse_def server_head_def)

end
