(* ===== verification/Spec2Isabelle.thy ===== *)
theory Spec2Isabelle
  imports Scheduler_Scripts Scheduler_Debug Udp_Laws Tcp_Loops Tcp_Listen Waits Combinators Seq_Types Http_Served Redis_Command Demos
begin

text \<open>
  \<^bold>\<open>Verification of cocoflow\<close>, a C++ library that lets a program be written as tasks which wait for
  each other and for events. The paths below are those of the repository.

  \<^bold>\<open>The program.\<close> A task is an object with a virtual \<open>run()\<close>. Each class of tasks owns a pool of
  coroutines, each with its own stack (\<open>include/cocoflow.h\<close>, \<open>src/cocoflow.cc\<close>). A running task may
  \<open>await\<close> another one, which then runs on the same coroutine as a call would, or \<open>start\<close> it, which
  switches to a coroutine of its own. \<open>all_of\<close> and \<open>any_of\<close> run several children. A task that waits
  for an event of the event library (a timer, a datagram, bytes on a stream) yields to whoever it is
  linked to; the callback of the event continues it. UDP sockets, TCP connections, timers,
  notifications and name resolution are tasks of this kind (\<open>src/udp.cc\<close>, \<open>src/tcp.cc\<close>,
  \<open>src/sleep.cc\<close>, \<open>src/sync.cc\<close>, \<open>src/getaddrinfo.cc\<close>); their callbacks touch the socket's queues
  before and after they continue a task, and the task may use the same socket again, so the code is
  re-entrant. Two extensions are built on these: an HTTP client, whose tasks \<open>get\<close> and \<open>post\<close> await
  name resolution, a connection and its reads one after the other
  (\<open>extensions/http/cocoflow-http.cc\<close>), and a Redis client, which adapts the callbacks of a client
  library (\<open>extensions/redis/cocoflow-redis.cc\<close>).

  \<^bold>\<open>The theories.\<close>

    \<^item> \<open>Ccf_Prelude\<close>: the integer types, the type of faults and results, copying into a block,
      and the shared lemmas about results, lists and maps.
    \<^item> \<open>Task_Info\<close> models the byte \<open>_info\<close> of a task (\<open>src/cocoflow-comm.h\<close>): the status in the low
      bits and two flags. The byte refines a record of the three fields.
    \<^item> \<open>Task_Pool\<close> models the pools of ids (\<open>task::init\<close>, constructor, destructor, the id handling
      of \<open>await\<close>), the limit on memory mappings and \<open>ccf_init\<close>, which lays out the stacks. No two
      live objects have the same id, ids of different classes are disjoint, stacks and their guard pages do not overlap.
    \<^item> \<open>Scheduler\<close> models \<open>__task_runtime\<close>, \<open>__task_yield\<close>, \<open>__task_stand\<close>, \<open>__await\<close>, \<open>__start\<close>,
      \<open>__task_cancel_children\<close>, \<open>all_of\<close>, \<open>any_of\<close> as an abstract machine. Its stacks hold a frame for
      every call in which the code can be suspended, with the loop variables of that call;
      \<open>step\<close> returns or throws into the innermost frame. \<open>Scheduler_Stacks\<close> shows that the
      stacks are well formed in every reachable state, \<open>Scheduler_Runs\<close> and \<open>Scheduler_Any\<close> what
      \<open>all_of\<close> and \<open>any_of\<close> guarantee over any number of children, \<open>Scheduler_Programs\<close> what
      \<open>await\<close> of a task guarantees and how the primitives fail when they are misused, \<open>Scheduler_Scripts\<close>
      that a body which awaits one event after the other executes as it is written. \<open>Scheduler_Debug\<close>
      models what is done in addition when debugging is on: the names of tasks, the line for a switch, the
      search for a child's combinator; its loops come to the end of every chain of awaiting tasks, and names
      fit the buffer when they are short. \<open>Combinators\<close> models how the constructors of \<open>all_of\<close> and \<open>any_of\<close> store the children.
    \<^item> \<open>Seqer\<close> models \<open>seqer_wrapper\<close>, the multimap of the tasks that wait for a packet with a
      sequence. Its locale \<open>waiter_queues\<close> states what sockets rely on. \<open>Seq_Types\<close> models the check
      that a receiver has the sequence type of its handle.
    \<^item> \<open>Sockaddr\<close> models \<open>src/tools.cc\<close>: address conversion and printing.
    \<^item> \<open>Udp\<close> models \<open>src/udp.cc\<close> and the templates of \<open>udp\<close>; \<open>Udp_Laws\<close> shows that the installed
      callbacks always fit the socket's state and that no packet is lost or delivered twice.
    \<^item> \<open>Tcp_Stream\<close> models the search \<open>bufbuf\<close>, a \<open>recv_till\<close> object and its method \<open>remaining\<close>,
      and relates it to the abstract request \<open>taken\<close>. \<open>Tcp\<close> models the rest of \<open>src/tcp.cc\<close>:
      connecting, sending, the three ways to receive, the callbacks, breaking off, the
      destructor. \<open>Tcp_Till\<close> shows that requests are served in order with the right bytes,
      \<open>Tcp_Packets\<close> that packets are put together again, \<open>Tcp_Loops\<close> that the loops
      of the callbacks end and tell everyone, \<open>Tcp_Listen\<close> models listening sockets.
    \<^item> \<open>Waits\<close> models \<open>sleep\<close>, \<open>sync\<close> and \<open>getaddrinfo\<close>. Its locale \<open>oneshot\<close> states what the
      first two share: a handle is opened, then closed by the event or by the cancelation.
    \<^item> \<open>Http_Url\<close> models \<open>url_parse\<close>: URLs are read back as they were written, and what is read has the
      right form. \<open>Http_Tables\<close> models the tables of field names and status codes; its locale
      \<open>sorted_table\<close> shows that the binary searches find what is there. \<open>Http_Parse\<close> models the
      parsers of a response header and of a chunk's size line.
    \<^item> \<open>Http_Client\<close> models \<open>get\<close>, \<open>post\<close> and the steps they share (\<open>__client\<close>); \<open>Http_Body\<close> shows what a
      client receives from a server that answers in chunks or with a length, and how a
      server can break it; \<open>Http_Served\<close> shows that the reads of the client's model are those
      the connection of \<open>Tcp\<close> serves.
    \<^item> \<open>Redis\<close> models the handle that keeps itself connected and shows, for every history of events,
      which timers and contexts are alive and which callbacks fault. \<open>Redis_Command\<close> models the
      tasks \<open>connect\<close> and \<open>command\<close> and the cell a command shares with the library.
    \<^item> \<open>Demos\<close> models what the programs in \<open>demo/\<close> compute: the two sorts and the server's response.

  \<^bold>\<open>How the code is rendered.\<close> Objects are records with the code's members; an address is a
  number (\<open>tid\<close>) and a pointer that may be \<open>NULL\<close> an option. An operation takes the state and returns
  \<open>Inr\<close> of the new state, or \<open>Inl\<close> of a fault: a failed \<open>CHECK\<close>, a fatal error, an access to
  a deleted object or outside a block, a null pointer, a loop that does not end. Blocks of memory are
  lists of bytes. The event library is a parameter: its return codes are fields of the world or
  arguments, its events are the callbacks the theorems quantify over. What a continued task does
  with the socket is a parameter too: a function \<open>react\<close> from the continued task and its result to
  a list of operations on the same socket. A task of the HTTP client does not touch its socket between two
  awaits, so its model takes the answers of the awaited tasks (\<open>answers\<close>), the bytes of the
  stream among them: a read takes the bytes \<open>taken\<close> says, and one that cannot be completed
  fails. Numbers in texts are read as the C library reads them, with the largest value
  for one that is too large. Of the Redis client library the models use its documented contract:
  one connect callback for a context, after which it frees the context when it reports
  a failure; a disconnect callback only for a connected context, which it then
  frees; one callback for each command it accepts.

  \<^bold>\<open>Bounds.\<close> \<open>find_final\<close> and \<open>reuse_end\<close> may take as many rounds as there are tasks; a longer chain has met a
  task twice. The loop of \<open>check_remaining\<close> gets fuel: \<open>Tcp_Loops\<close> shows that the bytes the
  connection keeps bound its rounds whatever the continued tasks do. The loops of
  \<open>break_all_recv\<close> get the length of the queue they walk. Ids are 32-bit words and \<open>size_t\<close>
  64-bit words where the code's arithmetic on them could wrap. The loops of the HTTP parsers and of
  the chunked body are functions with a termination proof, as each round consumes input; the one
  loop of a header value that does not end is the fault \<open>Diverges\<close>. The loop of the demo server that settles the
  length of its header gets five rounds, and \<open>Demos\<close> shows that they are enough for every request it can read.

  \<^bold>\<open>Not modelled.\<close> The primitives that switch stacks (\<open>ucontext\<close>, fibers, \<open>mmap\<close>) and the event
  library are not part of the repository's own logic: the machine switches stacks and the
  event library is a parameter. Of the debug output, the lines that only print a task's name with a fixed
  text are left out, with their time stamps; so are the Windows branches of the code. Of the demos, printing,
  pausing and the server's accept loop are left out.
\<close>

end
